(* ===== verification/Go_Prelude.thy ===== *)
theory Go_Prelude
  imports Main "HOL-Library.AList" "HOL-Library.Char_ord" "HOL-Library.List_Lexorder"
    "HOL-Library.Multiset" "HOL-Library.Word"
begin

text \<open>
  What the other theories share of the language itself: 64-bit integers with their
  wrap-around, panics as values, instants of time, Go's maps, and the generic lemmas and
  lemma collections the component theories use.

  A Go \<open>int\<close> or \<open>int64\<close> is an HOL \<open>int\<close> whose arithmetic is followed by
  \<open>wrap64\<close> wherever the source can leave the 64-bit range.  A Go string is a byte
  string, so it is an HOL \<open>string\<close> (a list of 8-bit \<open>char\<close>), \<open>len\<close> is \<open>length\<close>
  and Go's string order is the lexicographic order of \<open>List_Lexorder\<close>.
\<close>

named_theorems mem_simps \<open>byte counts of the memory estimate\<close>
named_theorems view_simps \<open>what an operation does to the abstract keyspace\<close>
named_theorems inv_intros \<open>preservation of a component's invariant\<close>

section \<open>64-bit integers\<close>

definition int64 :: "int \<Rightarrow> bool" where
  "int64 x \<longleftrightarrow> - (2 ^ 63) \<le> x \<and> x < 2 ^ 63"

definition wrap64 :: "int \<Rightarrow> int" where
  "wrap64 x = (x + 2 ^ 63) mod 2 ^ 64 - 2 ^ 63"

lemma wrap64_id [simp]: "int64 x \<Longrightarrow> wrap64 x = x"
  unfolding wrap64_def int64_def by (subst mod_pos_pos_trivial) auto

lemma int64_wrap64 [simp, intro]: "int64 (wrap64 x)"
proof -
  have "0 \<le> (x + 2 ^ 63) mod 2 ^ 64" "(x + 2 ^ 63) mod 2 ^ 64 < 2 ^ 64"
    by simp_all
  then show ?thesis by (simp add: wrap64_def int64_def)
qed

text \<open>The same wrap-around, read off the library's 64-bit words.\<close>

lemma wrap64_word: "wrap64 x = sint (word_of_int x :: 64 word)"
  by (simp add: wrap64_def sint_uint uint_word_of_int signed_take_bit_eq_take_bit_shift
      take_bit_eq_mod mod_simps)

lemma wrap64_add_right: "wrap64 (x + wrap64 y) = wrap64 (x + y)"
  by (simp add: wrap64_word flip: wi_hom_add)

lemma wrap64_minus_wrap64: "wrap64 (wrap64 x - y) = wrap64 (x - y)"
  by (simp add: wrap64_word flip: wi_hom_sub)

section \<open>Panics and instants\<close>

text \<open>A call either returns or panics; a panic unwinds to the nearest \<open>recover\<close>.\<close>

datatype 'a outcome = Returns 'a | Panics

text \<open>
  \<open>time.Time\<close>: the zero value (1 January of year 1), which the source uses for "no
  expiry", or an instant given in nanoseconds since the Unix epoch.  \<open>Before\<close> and
  \<open>After\<close> are the order; the zero value is before every clock reading.
\<close>

datatype gotime = ZeroTime | UnixNano int

instantiation gotime :: linorder
begin

definition less_eq_gotime :: "gotime \<Rightarrow> gotime \<Rightarrow> bool" where
  "less_eq_gotime s t \<longleftrightarrow> (case s of ZeroTime \<Rightarrow> True
     | UnixNano x \<Rightarrow> (case t of ZeroTime \<Rightarrow> False | UnixNano y \<Rightarrow> x \<le> y))"

definition less_gotime :: "gotime \<Rightarrow> gotime \<Rightarrow> bool" where
  "less_gotime s t \<longleftrightarrow> (case t of ZeroTime \<Rightarrow> False
     | UnixNano y \<Rightarrow> (case s of ZeroTime \<Rightarrow> True | UnixNano x \<Rightarrow> x < y))"

instance
  by standard (auto simp: less_eq_gotime_def less_gotime_def split: gotime.splits)

end

lemma gotime_order [simp]:
  "ZeroTime \<le> t" "\<not> t < ZeroTime" "ZeroTime < UnixNano y"
  "UnixNano x \<le> UnixNano y \<longleftrightarrow> x \<le> y" "UnixNano x < UnixNano y \<longleftrightarrow> x < y"
  "\<not> UnixNano x \<le> ZeroTime"
  by (auto simp: less_eq_gotime_def less_gotime_def split: gotime.splits)

definition IsZero :: "gotime \<Rightarrow> bool" where
  "IsZero t \<longleftrightarrow> (case t of ZeroTime \<Rightarrow> True | UnixNano _ \<Rightarrow> False)"

lemma IsZero_simps [simp]: "IsZero ZeroTime" "\<not> IsZero (UnixNano x)"
  by (simp_all add: IsZero_def)

lemma IsZero_iff: "IsZero t \<longleftrightarrow> t = ZeroTime"
  by (simp add: IsZero_def split: gotime.splits)

section \<open>Go maps\<close>

text \<open>
  A Go map is an association list with distinct keys.  The order of the list stands for
  the order in which a \<open>range\<close> loop happens to enumerate the map; Go leaves that order
  open, so statements about a ranging operation are made for every list with the same
  lookups.  \<open>m[k]\<close> is \<open>map_of m k\<close>, \<open>m[k] = v\<close> is \<open>AList.update k v m\<close>,
  \<open>delete(m, k)\<close> is \<open>AList.delete k m\<close>, \<open>len(m)\<close> is \<open>length m\<close>.
\<close>

type_synonym ('k, 'v) gomap = "('k \<times> 'v) list"

definition okmap :: "('k, 'v) gomap \<Rightarrow> bool" where
  "okmap m \<longleftrightarrow> distinct (map fst m)"

lemma okmap_Nil [simp]: "okmap []"
  by (simp add: okmap_def)

text \<open>The contract of a map, and what the source's loops over keys do to one.\<close>

locale go_map =
  fixes get :: "'m \<Rightarrow> 'k \<Rightarrow> 'v option"
    and put :: "'k \<Rightarrow> 'v \<Rightarrow> 'm \<Rightarrow> 'm"
    and del :: "'k \<Rightarrow> 'm \<Rightarrow> 'm"
    and ok :: "'m \<Rightarrow> bool"
  assumes get_put: "get (put k v m) = (get m)(k \<mapsto> v)"
    and get_del: "get (del k m) = (get m)(k := None)"
    and ok_put: "ok m \<Longrightarrow> ok (put k v m)"
    and ok_del: "ok m \<Longrightarrow> ok (del k m)"
begin

lemma get_puts: "get (fold (\<lambda>(k, v). put k v) kvs m) = get m ++ map_of (rev kvs)"
  by (induction kvs arbitrary: m) (auto simp: get_put)

lemma get_dels: "get (fold del ks m) = get m |` (- set ks)"
  by (induction ks arbitrary: m) (auto simp: get_del restrict_map_def fun_eq_iff)

lemma ok_puts: "ok m \<Longrightarrow> ok (fold (\<lambda>(k, v). put k v) kvs m)"
  by (induction kvs arbitrary: m) (auto simp: ok_put)

lemma ok_dels: "ok m \<Longrightarrow> ok (fold del ks m)"
  by (induction ks arbitrary: m) (auto simp: ok_del)

lemma get_del_put: "get (del k (put k v m)) = get (del k m)"
  by (simp add: get_put get_del)

end

interpretation gm: go_map map_of AList.update AList.delete okmap
  by unfold_locales (auto simp: okmap_def update_conv' delete_conv' distinct_update distinct_delete)

declare gm.get_put [simp] gm.get_del [simp] gm.ok_put [simp, intro] gm.ok_del [simp, intro]

lemma map_of_None_fst: "map_of m k = None \<longleftrightarrow> k \<notin> fst ` set m"
  by (induction m) auto

lemma okmap_Some: "okmap m \<Longrightarrow> map_of m k = Some v \<longleftrightarrow> (k, v) \<in> set m"
  by (simp add: okmap_def)

lemma okmap_mset:
  assumes "okmap m" "okmap m'" "map_of m = map_of m'"
  shows "mset m = mset m'"
proof -
  have d: "distinct m" "distinct m'"
    using assms(1,2) by (simp_all add: okmap_def distinct_map)
  moreover have "set m = set m'"
    using assms map_of_inject_set by (fastforce simp: okmap_def)
  ultimately show ?thesis by (metis set_eq_iff_mset_eq_distinct)
qed

lemma okmap_length:
  "okmap m \<Longrightarrow> okmap m' \<Longrightarrow> map_of m = map_of m' \<Longrightarrow> length m = length m'"
  using okmap_mset mset_eq_length by blast

section \<open>Sums over a map\<close>

text \<open>
  The memory estimate ranges over a map and adds up a weight per entry; storing and
  deleting a key changes that sum by the weights of the old and new entries only.
\<close>

definition wsum :: "('k \<Rightarrow> 'v \<Rightarrow> int) \<Rightarrow> ('k, 'v) gomap \<Rightarrow> int" where
  "wsum w m = sum_list (map (\<lambda>(k, v). w k v) m)"

definition wopt :: "('k \<Rightarrow> 'v \<Rightarrow> int) \<Rightarrow> ('k, 'v) gomap \<Rightarrow> 'k \<Rightarrow> int" where
  "wopt w m k = (case map_of m k of None \<Rightarrow> 0 | Some v \<Rightarrow> w k v)"

lemma wsum_Nil [simp]: "wsum w [] = 0"
  by (simp add: wsum_def)

lemma wsum_Cons [simp]: "wsum w ((k, v) # m) = w k v + wsum w m"
  by (simp add: wsum_def)

lemma wsum_nonneg: "(\<And>k v. 0 \<le> w k v) \<Longrightarrow> 0 \<le> wsum w m"
  by (induction m) auto

lemma wsum_update [mem_simps]:
  "okmap m \<Longrightarrow> wsum w (AList.update k v m) = wsum w m - wopt w m k + w k v"
proof (induction m)
  case (Cons p m)
  obtain a b where p: "p = (a, b)" by (cases p)
  show ?case
  proof (cases "a = k")
    case True
    with p show ?thesis by (simp add: wopt_def)
  next
    case False
    with Cons p show ?thesis by (simp add: okmap_def wopt_def)
  qed
qed (simp add: wopt_def)

lemma wsum_delete [mem_simps]:
  "okmap m \<Longrightarrow> wsum w (AList.delete k m) = wsum w m - wopt w m k"
proof (induction m)
  case (Cons p m)
  obtain a b where p: "p = (a, b)" by (cases p)
  show ?case
  proof (cases "a = k")
    case True
    with Cons.prems p have "k \<notin> fst ` set m" by (auto simp: okmap_def)
    with True p show ?thesis by (simp add: wopt_def delete_id)
  next
    case False
    with Cons p show ?thesis by (simp add: okmap_def wopt_def)
  qed
qed (simp add: wopt_def)

lemma wopt_le_wsum:
  assumes "\<And>k v. 0 \<le> w k v"
  shows "wopt w m k \<le> wsum w m"
proof (induction m)
  case (Cons p m)
  obtain a b where p: "p = (a, b)" by (cases p)
  have "0 \<le> w a b" "0 \<le> wsum w m" using assms wsum_nonneg [of w m] by auto
  with Cons p show ?case by (auto simp: wopt_def split: option.splits)
qed (simp add: wopt_def)

lemma wopt_nonneg: "(\<And>k v. 0 \<le> w k v) \<Longrightarrow> 0 \<le> wopt w m k"
  by (simp add: wopt_def split: option.splits)

lemma length_AList_delete:
  "okmap m \<Longrightarrow> length (AList.delete k m) = length m - (if map_of m k = None then 0 else 1)"
proof (induction m)
  case (Cons p m)
  obtain a b where p: "p = (a, b)" by (cases p)
  show ?case
  proof (cases "a = k")
    case True
    with Cons.prems p have "k \<notin> fst ` set m" by (auto simp: okmap_def)
    with True p show ?thesis by (simp add: delete_id)
  next
    case False
    have "map_of m k \<noteq> None \<Longrightarrow> 0 < length m" by (cases m) auto
    with False Cons p show ?thesis by (auto simp: okmap_def)
  qed
qed simp

section \<open>Systems with an invariant\<close>

text \<open>
  A component whose operations are a step function, with an invariant that every
  well-formed operation keeps; a run is a list of operations.
\<close>

locale invariant_system =
  fixes step :: "'op \<Rightarrow> 's \<Rightarrow> 's"
    and inv :: "'s \<Rightarrow> bool"
    and wf :: "'op \<Rightarrow> bool"
  assumes step_inv: "inv s \<Longrightarrow> wf x \<Longrightarrow> inv (step x s)"
begin

lemma run_inv: "inv s \<Longrightarrow> list_all wf xs \<Longrightarrow> inv (fold step xs s)"
  by (induction xs arbitrary: s) (auto simp: step_inv)

lemma run_induct:
  assumes "inv s" "list_all wf xs" "P s"
    and "\<And>s x. inv s \<Longrightarrow> wf x \<Longrightarrow> P s \<Longrightarrow> P (step x s)"
  shows "P (fold step xs s)"
  using assms(1-3) by (induction xs arbitrary: s) (auto simp: step_inv assms(4))

end

text \<open>With a fixed start state, every run from it satisfies the invariant.\<close>

locale initialised_system = invariant_system step inv wf
  for step :: "'op \<Rightarrow> 's \<Rightarrow> 's" and inv :: "'s \<Rightarrow> bool" and wf :: "'op \<Rightarrow> bool" +
  fixes init :: 's
  assumes init_inv: "inv init"
begin

lemma reach_inv: "list_all wf xs \<Longrightarrow> inv (fold step xs init)"
  by (rule run_inv [OF init_inv])

end

text \<open>The same for a component whose steps are a relation: the environment chooses.\<close>

locale transition_invariant =
  fixes step :: "'s \<Rightarrow> 's \<Rightarrow> bool"
    and inv :: "'s \<Rightarrow> bool"
  assumes step_keeps: "step s t \<Longrightarrow> inv s \<Longrightarrow> inv t"
begin

lemma reachable_inv: "step\<^sup>*\<^sup>* s t \<Longrightarrow> inv s \<Longrightarrow> inv t"
  by (induction rule: rtranclp_induct) (auto intro: step_keeps)

end

end
