(* ===== verification/Go_Strings.thy ===== *)
theory Go_Strings
  imports Go_Prelude "HOL-Library.Sublist"
begin

text \<open>
  What the source uses of Go's \<open>strconv\<close> and \<open>strings\<close> packages, on byte strings:
  decimal printing and parsing of 64-bit integers, upper and lower case, white space.

  Upper and lower case are exact wherever the result is compared with an ASCII word, which
  is all the source's control flow does with them: the only non-ASCII characters with an
  ASCII upper-case letter are U+0131 and U+017F, in UTF-8 the bytes C4 B1 and C5 BF.  Other
  non-ASCII bytes are kept.
\<close>

section \<open>Decimal numbers\<close>

definition code :: "char \<Rightarrow> nat" where
  "code c = of_char c"

definition digit :: "nat \<Rightarrow> char" where
  "digit d = char_of (48 + d)"

definition isDigit :: "char \<Rightarrow> bool" where
  "isDigit c \<longleftrightarrow> 48 \<le> code c \<and> code c \<le> 57"

fun itoa_nat :: "nat \<Rightarrow> string" where
  "itoa_nat n = (if n < 10 then [digit n] else itoa_nat (n div 10) @ [digit (n mod 10)])"

declare itoa_nat.simps [simp del]

text \<open>\<open>strconv.Itoa\<close> and \<open>strconv.FormatInt(_, 10)\<close>.\<close>

definition itoa :: "int \<Rightarrow> string" where
  "itoa i = (if i < 0 then CHR ''-'' # itoa_nat (nat (- i)) else itoa_nat (nat i))"

fun digits_val :: "nat \<Rightarrow> string \<Rightarrow> nat option" where
  "digits_val acc [] = Some acc"
| "digits_val acc (c # cs) =
     (if isDigit c then digits_val (10 * acc + (code c - 48)) cs else None)"

text \<open>
  \<open>strconv.Atoi\<close> and \<open>strconv.ParseInt(_, 10, 64)\<close>: an optional sign, at least one
  digit, nothing else, and a value of 64 bits; \<open>None\<close> is the error return (the source
  never looks at which error it is).
\<close>

definition atoi :: "string \<Rightarrow> int option" where
  "atoi s =
     (let neg = (s \<noteq> [] \<and> hd s = CHR ''-'');
          body = (if s \<noteq> [] \<and> (hd s = CHR ''-'' \<or> hd s = CHR ''+'') then tl s else s)
      in if body = [] then None
         else case digits_val 0 body of
           None \<Rightarrow> None
         | Some n \<Rightarrow> (let v = (if neg then - int n else int n)
                     in if int64 v then Some v else None))"

lemma code_digit [simp]: "d < 10 \<Longrightarrow> code (digit d) = 48 + d"
  by (simp add: code_def digit_def)

lemma isDigit_digit [simp]: "d < 10 \<Longrightarrow> isDigit (digit d)"
  by (simp add: isDigit_def)

lemma digits_val_append:
  "digits_val a (xs @ ys) = Option.bind (digits_val a xs) (\<lambda>b. digits_val b ys)"
  by (induction xs arbitrary: a) auto

lemma digits_val_itoa_nat: "digits_val 0 (itoa_nat n) = Some n"
proof (induction n rule: itoa_nat.induct)
  case (1 n)
  show ?case
  proof (cases "n < 10")
    case True
    then show ?thesis by (subst itoa_nat.simps) simp
  next
    case False
    with 1 show ?thesis by (subst itoa_nat.simps) (simp add: digits_val_append)
  qed
qed

lemma itoa_nat_nonempty [simp]: "itoa_nat n \<noteq> []"
  by (subst itoa_nat.simps) simp

lemma itoa_nat_digits: "c \<in> set (itoa_nat n) \<Longrightarrow> isDigit c"
proof (induction n rule: itoa_nat.induct)
  case (1 n)
  then show ?case
    by (cases "n < 10") (auto simp: itoa_nat.simps [of n])
qed

lemma isDigit_not_sign: "isDigit c \<Longrightarrow> c \<noteq> CHR ''-'' \<and> c \<noteq> CHR ''+''"
  by (auto simp: isDigit_def code_def)

lemma isDigit_not_crlf: "isDigit c \<Longrightarrow> c \<noteq> CHR 0x0A \<and> c \<noteq> CHR 0x0D"
  by (auto simp: isDigit_def code_def)

lemma hd_itoa_nat: "hd (itoa_nat n) \<noteq> CHR ''-''" "hd (itoa_nat n) \<noteq> CHR ''+''"
  using isDigit_not_sign [OF itoa_nat_digits [of "hd (itoa_nat n)" n]] by auto

lemma atoi_itoa [simp]: "int64 i \<Longrightarrow> atoi (itoa i) = Some i"
  using hd_itoa_nat [of "nat i"]
  by (auto simp: atoi_def itoa_def digits_val_itoa_nat)

lemma atoi_int64: "atoi s = Some v \<Longrightarrow> int64 v"
  by (auto simp: atoi_def Let_def split: if_splits option.splits)

lemma itoa_no_crlf: "c \<in> set (itoa i) \<Longrightarrow> c \<noteq> CHR 0x0A \<and> c \<noteq> CHR 0x0D"
  using isDigit_not_crlf itoa_nat_digits by (auto simp: itoa_def split: if_splits)

lemma itoa_nonempty [simp]: "itoa i \<noteq> []"
  by (simp add: itoa_def)

lemma itoa_inj: "int64 i \<Longrightarrow> int64 j \<Longrightarrow> itoa i = itoa j \<Longrightarrow> i = j"
  by (metis atoi_itoa option.inject)

section \<open>Case\<close>

definition upperChar :: "char \<Rightarrow> char" where
  "upperChar c = (if 97 \<le> code c \<and> code c \<le> 122 then char_of (code c - 32) else c)"

definition lowerChar :: "char \<Rightarrow> char" where
  "lowerChar c = (if 65 \<le> code c \<and> code c \<le> 90 then char_of (code c + 32) else c)"

fun toUpper :: "string \<Rightarrow> string" where
  "toUpper [] = []"
| "toUpper [c] = [upperChar c]"
| "toUpper (c # d # cs) =
     (if c = CHR 0xC4 \<and> d = CHR 0xB1 then CHR ''I'' # toUpper cs
      else if c = CHR 0xC5 \<and> d = CHR 0xBF then CHR ''S'' # toUpper cs
      else upperChar c # toUpper (d # cs))"

declare toUpper.simps(2,3) [simp del]

definition toLower :: "string \<Rightarrow> string" where
  "toLower s = map lowerChar s"

lemma upperChar_idem [simp]: "upperChar (upperChar c) = upperChar c"
  by (auto simp: upperChar_def code_def)

text \<open>A word between single quotes, as the error messages have it.\<close>

definition quoted :: "string \<Rightarrow> string" where
  "quoted s = CHR 0x27 # s @ [CHR 0x27]"

section \<open>White space\<close>

definition asciiSpace :: "char \<Rightarrow> bool" where
  "asciiSpace c \<longleftrightarrow> code c \<in> set [9, 10, 11, 12, 13, 32]"

text \<open>
  The UTF-8 encodings of the Unicode white space beyond ASCII (U+0085, U+00A0, U+1680,
  U+2000 to U+200A, U+2028, U+2029, U+202F, U+205F, U+3000).  None of them starts with a
  continuation byte, so scanning byte by byte finds the same ones as decoding does.
\<close>

definition wideSpaces :: "string list" where
  "wideSpaces =
     [[CHR 0xC2, CHR 0x85], [CHR 0xC2, CHR 0xA0], [CHR 0xE1, CHR 0x9A, CHR 0x80]]
     @ map (\<lambda>i. [CHR 0xE2, CHR 0x80, char_of (0x80 + i)]) [0..<11]
     @ [[CHR 0xE2, CHR 0x80, CHR 0xA8], [CHR 0xE2, CHR 0x80, CHR 0xA9],
        [CHR 0xE2, CHR 0x80, CHR 0xAF], [CHR 0xE2, CHR 0x81, CHR 0x9F],
        [CHR 0xE3, CHR 0x80, CHR 0x80]]"

text \<open>The width in bytes of the white space a string starts with, 0 if it starts with none.\<close>

definition spaceLen :: "string \<Rightarrow> nat" where
  "spaceLen s =
     (if s \<noteq> [] \<and> asciiSpace (hd s) then 1
      else case find (\<lambda>w. prefix w s) wideSpaces of None \<Rightarrow> 0 | Some w \<Rightarrow> length w)"

definition spaceLenEnd :: "string \<Rightarrow> nat" where
  "spaceLenEnd s =
     (if s \<noteq> [] \<and> asciiSpace (last s) then 1
      else case find (\<lambda>w. suffix w s) wideSpaces of None \<Rightarrow> 0 | Some w \<Rightarrow> length w)"

text \<open>\<open>strings.Fields\<close>: the maximal runs without white space.\<close>

function fields_go :: "string \<Rightarrow> string \<Rightarrow> string list" where
  "fields_go cur s =
     (if s = [] then (if cur = [] then [] else [rev cur])
      else if spaceLen s = 0 then fields_go (hd s # cur) (tl s)
      else (if cur = [] then [] else [rev cur]) @ fields_go [] (drop (spaceLen s) s))"
  by pat_completeness auto
termination
  by (relation "measure (\<lambda>(cur, s). length s)") auto

declare fields_go.simps [simp del]

definition fields :: "string \<Rightarrow> string list" where
  "fields s = fields_go [] s"

text \<open>\<open>strings.TrimSpace\<close>.\<close>

function trimLeft :: "string \<Rightarrow> string" where
  "trimLeft s = (if s = [] \<or> spaceLen s = 0 then s else trimLeft (drop (spaceLen s) s))"
  by pat_completeness auto
termination
  by (relation "measure length") auto

function trimRight :: "string \<Rightarrow> string" where
  "trimRight s =
     (if s = [] \<or> spaceLenEnd s = 0 then s
      else trimRight (take (length s - spaceLenEnd s) s))"
  by pat_completeness auto
termination
  by (relation "measure length") auto

declare trimLeft.simps [simp del] trimRight.simps [simp del]

definition trimSpace :: "string \<Rightarrow> string" where
  "trimSpace s = trimRight (trimLeft s)"

text \<open>\<open>strings.Split(s, ",")\<close>, never empty.\<close>

fun splitOn :: "char \<Rightarrow> string \<Rightarrow> string list" where
  "splitOn sep [] = [[]]"
| "splitOn sep (c # cs) =
     (if c = sep then [] # splitOn sep cs
      else case splitOn sep cs of [] \<Rightarrow> [[c]] | w # ws \<Rightarrow> (c # w) # ws)"

lemma splitOn_nonempty [simp]: "splitOn sep s \<noteq> []"
  by (induction s) (auto split: list.splits)

lemma fields_nonempty_words: "w \<in> set (fields_go cur s) \<Longrightarrow> w \<noteq> []"
proof (induction cur s rule: fields_go.induct)
  case (1 cur s)
  then show ?case
    by (subst (asm) fields_go.simps) (auto split: if_splits)
qed

end
