(* ===== verification/Glob.thy ===== *)
theory Glob
  imports Go_Strings
begin

text \<open>
  The glob matching of \<open>KEYS\<close>, \<open>SCAN\<close> and \<open>SENSITIVE_KEYS\<close>.  The source has it
  twice, as \<open>matchGlob\<close> in \<open>store/store.go\<close> and as \<open>globMatch\<close> in
  \<open>events/events.go\<close>; both are translated and shown to be the same function, and to mean
  what the comments say: a pattern that ends in a star matches by prefix, any other pattern
  matches itself only.
\<close>

definition TrimSuffix :: "string \<Rightarrow> string \<Rightarrow> string" where
  "TrimSuffix s suf = (if suffix suf s then take (length s - length suf) s else s)"

definition matchGlob :: "string \<Rightarrow> string \<Rightarrow> bool" where
  "matchGlob pattern key =
     (if pattern = ''*'' then True
      else if suffix ''*'' pattern then prefix (TrimSuffix pattern ''*'') key
      else pattern = key)"

definition globMatch :: "string \<Rightarrow> string \<Rightarrow> bool" where
  "globMatch pattern key =
     (if pattern = ''*'' then True
      else if suffix ''*'' pattern then prefix (TrimSuffix pattern ''*'') key
      else pattern = key)"

lemma TrimSuffix_snoc [simp]: "TrimSuffix (p @ suf) suf = p"
  by (simp add: TrimSuffix_def suffix_def)

lemma matchGlob_star: "matchGlob (p @ ''*'') key \<longleftrightarrow> prefix p key"
  by (auto simp: matchGlob_def)

lemma matchGlob_plain: "\<not> suffix ''*'' p \<Longrightarrow> matchGlob p key \<longleftrightarrow> p = key"
  by (auto simp: matchGlob_def)

lemma globMatch_matchGlob: "globMatch = matchGlob"
  by (simp add: fun_eq_iff globMatch_def matchGlob_def)

end
