(* ===== verification/Go_Float.thy ===== *)
theory Go_Float
  imports Complex_Main Go_Prelude
begin

text \<open>
  The little floating point the source uses (\<open>TTL\<close>, the sampler's ratio, latency
  percentiles): IEEE double precision on non-negative rationals, round to nearest, ties to
  even, with 53 significant bits.  Overflow and subnormal numbers do not occur for the
  values involved and are not represented.
\<close>

fun nlog2 :: "nat \<Rightarrow> nat" where
  "nlog2 n = (if n < 2 then 0 else Suc (nlog2 (n div 2)))"

declare nlog2.simps [simp del]

text \<open>The binary exponent of \<open>a / b\<close>.\<close>

definition bexp :: "nat \<Rightarrow> nat \<Rightarrow> int" where
  "bexp a b = (let k = int (nlog2 a) - int (nlog2 b)
               in if (2 :: rat) powi k \<le> of_nat a / of_nat b then k else k - 1)"

definition rne :: "rat \<Rightarrow> int" where
  "rne x = (let f = \<lfloor>x\<rfloor>; d = x - of_int f
            in if d < 1 / 2 then f else if d > 1 / 2 then f + 1
               else if even f then f else f + 1)"

definition fl64 :: "rat \<Rightarrow> rat" where
  "fl64 x =
     (if x \<le> 0 then 0
      else let e = bexp (nat (fst (quotient_of x))) (nat (snd (quotient_of x))) - 52
           in of_int (rne (x * 2 powi (- e))) * 2 powi e)"

lemma nlog2_bounds: "0 < n \<Longrightarrow> 2 ^ nlog2 n \<le> n \<and> n < 2 ^ Suc (nlog2 n)"
proof (induction n rule: nlog2.induct)
  case (1 n)
  show ?case
  proof (cases "n < 2")
    case True
    with 1 show ?thesis by (subst (1 2) nlog2.simps) auto
  next
    case False
    with 1 have "2 ^ nlog2 (n div 2) \<le> n div 2" "n div 2 < 2 ^ Suc (nlog2 (n div 2))"
      by auto
    with False show ?thesis by (subst (1 2) nlog2.simps) (auto simp: algebra_simps)
  qed
qed

lemma rne_error: "\<bar>of_int (rne x) - x\<bar> \<le> 1 / 2"
  unfolding rne_def Let_def by (auto simp: abs_if) linarith+

lemma bexp_bound:
  assumes "0 < a" "0 < b"
  shows "2 powi bexp a b \<le> (of_nat a / of_nat b :: rat)"
proof -
  let ?k = "int (nlog2 a) - int (nlog2 b)"
  have a: "(2 ^ nlog2 a :: rat) \<le> of_nat a"
    using nlog2_bounds [OF assms(1)] by (metis of_nat_le_iff of_nat_numeral of_nat_power)
  have b: "(of_nat b :: rat) \<le> 2 ^ Suc (nlog2 b)"
    using nlog2_bounds [OF assms(2)] by (metis less_imp_le of_nat_le_iff of_nat_numeral of_nat_power)
  have "(2 powi (?k - 1) :: rat) = 2 ^ nlog2 a / 2 ^ Suc (nlog2 b)"
    by (simp add: power_int_diff)
  also have "\<dots> \<le> of_nat a / of_nat b"
    using a b assms by (intro frac_le) auto
  finally show ?thesis by (auto simp: bexp_def Let_def)
qed

text \<open>The relative error of one rounding is at most half a unit in the last place.\<close>

lemma fl64_error:
  assumes "0 \<le> x"
  shows "\<bar>fl64 x - x\<bar> \<le> x / 2 ^ 53"
proof (cases "x = 0")
  case False
  with assms have pos: "0 < x" by simp
  obtain p q where pq: "quotient_of x = (p, q)" by (cases "quotient_of x")
  then have q: "0 < q" and x: "x = of_int p / of_int q"
    by (auto dest: quotient_of_denom_pos quotient_of_div)
  with pos have p: "0 < p" by (simp add: zero_less_divide_iff)
  define e where "e = bexp (nat p) (nat q) - 52"
  have "2 powi (e + 52) \<le> x"
    using bexp_bound [of "nat p" "nat q"] p q x by (simp add: e_def)
  then have le: "2 powi e * 2 ^ 52 \<le> x"
    by (simp add: power_int_add)
  have "fl64 x - x = (of_int (rne (x * 2 powi (- e))) - x * 2 powi (- e)) * 2 powi e"
    using pos by (simp add: fl64_def pq e_def [symmetric] algebra_simps flip: power_int_add)
  then have "\<bar>fl64 x - x\<bar> = \<bar>of_int (rne (x * 2 powi (- e))) - x * 2 powi (- e)\<bar> * 2 powi e"
    by (simp add: abs_mult)
  also have "\<dots> \<le> 1 / 2 * 2 powi e"
    by (intro mult_right_mono rne_error) simp
  also have "\<dots> \<le> x / 2 ^ 53"
    using le by (simp add: field_simps)
  finally show ?thesis .
qed (simp add: fl64_def)

lemma fl64_nonneg: "0 \<le> fl64 x"
proof (cases "0 \<le> x")
  case True
  have "x / 2 ^ 53 \<le> x" using True by simp
  with fl64_error [OF True] show ?thesis by linarith
qed (simp add: fl64_def)

text \<open>Rounding does not cross an integer of at most 53 bits from below.\<close>

lemma rne_le: "x \<le> of_int m \<Longrightarrow> rne x \<le> m"
proof -
  assume x: "x \<le> of_int m"
  have "rne x \<le> \<lfloor>x\<rfloor> + (if x = of_int \<lfloor>x\<rfloor> then 0 else 1)"
    by (auto simp: rne_def Let_def)
  moreover have "\<lfloor>x\<rfloor> \<le> m" using x by (simp add: floor_le_iff)
  moreover have "\<lfloor>x\<rfloor> < m" if "x \<noteq> of_int \<lfloor>x\<rfloor>"
    using that x by (metis calculation(2) of_int_floor_le order_antisym order_le_less)
  ultimately show ?thesis by (auto split: if_splits)
qed

lemma fl64_le_int:
  assumes "x \<le> of_int m" "x < 2 ^ 53" "0 \<le> m"
  shows "fl64 x \<le> of_int m"
proof (cases "x \<le> 0")
  case True
  with assms(3) show ?thesis by (simp add: fl64_def)
next
  case False
  obtain p q where pq: "quotient_of x = (p, q)" by (cases "quotient_of x")
  then have q: "0 < q" and x: "x = of_int p / of_int q"
    by (auto dest: quotient_of_denom_pos quotient_of_div)
  with False have p: "0 < p" by (simp add: not_le zero_less_divide_iff)
  define e where "e = bexp (nat p) (nat q) - 52"
  have "2 powi (e + 52) \<le> x"
    using bexp_bound [of "nat p" "nat q"] p q x by (simp add: e_def)
  then have "(2 :: rat) powi (e + 52) < 2 powi 53" using assms(2) by simp
  have e: "e \<le> 0"
  proof (rule ccontr)
    assume "\<not> e \<le> 0"
    then have "(2 :: rat) powi 53 \<le> 2 powi (e + 52)" by (intro power_int_increasing) auto
    with \<open>2 powi (e + 52) < 2 powi 53\<close> show False by simp
  qed
  define n where "n = nat (- e)"
  have en: "e = - int n" using e by (simp add: n_def)
  have "x * 2 powi (- e) \<le> of_int (m * 2 ^ n)"
    using assms(1) by (simp add: en)
  then have "rne (x * 2 powi (- e)) \<le> m * 2 ^ n" by (rule rne_le)
  then have "(of_int (rne (x * 2 powi (- e))) :: rat) * 2 powi e \<le> of_int (m * 2 ^ n) * 2 powi e"
    by (intro mult_right_mono) (simp_all only: of_int_le_iff, simp)
  also have "\<dots> = of_int m" by (simp add: en power_int_minus field_simps)
  finally show ?thesis
    using False by (simp add: fl64_def pq e_def [symmetric])
qed

lemma fl64_int:
  assumes "0 \<le> n" "n < 2 ^ 53"
  shows "fl64 (of_int n) \<le> of_int n" "of_int n - of_int n / 2 ^ 53 \<le> fl64 (of_int n)"
  using fl64_le_int [of "of_int n" n] fl64_error [of "of_int n"] assms by (auto simp: abs_le_iff)

text \<open>
  A fraction in hundredths of a count below \<open>2 ^ 44\<close>, rounded at every step and then up, is the exact
  fraction rounded up, provided the double nearest to the fraction is not above it.
\<close>

lemma ceiling_of_rounded:
  assumes "100 * q = of_int a" "fl64 q \<le> q" "q \<le> 1" "0 \<le> n" "n < 2 ^ 44"
  shows "\<lceil>fl64 (fl64 q * fl64 (of_int n))\<rceil> = \<lceil>q * of_int n\<rceil>"
proof -
  define p c x where "p = fl64 q" and "c = fl64 (of_int n)" and "x = q * of_int n"
  define m where "m = \<lceil>x\<rceil>"
  have q0: "0 \<le> q" using assms(2) fl64_nonneg [of q] by linarith
  have n: "(0 :: rat) \<le> of_int n" "(of_int n :: rat) < 2 ^ 44"
    using assms(4,5) by (simp, metis of_int_less_iff of_int_numeral of_int_power)
  have c: "c \<le> of_int n" "of_int n - of_int n / 2 ^ 53 \<le> c" "0 \<le> c"
    using fl64_int [of n] fl64_nonneg assms(4,5) by (auto simp: c_def)
  have p: "p \<le> q" "q - q / 2 ^ 53 \<le> p" "0 \<le> p"
    using assms(2) fl64_error [OF q0] fl64_nonneg by (auto simp: p_def abs_le_iff)
  have x: "0 \<le> x" "x < 2 ^ 44"
    using q0 assms(3) n mult_right_mono [of q 1 "of_int n"] by (auto simp: x_def)
  have pc: "p * c \<le> x" unfolding x_def using p c q0 by (intro mult_mono)
  have "(q - q / 2 ^ 53) * (of_int n - of_int n / 2 ^ 53) \<le> p * c"
    using p c q0 n by (intro mult_mono) auto
  then have low: "x - x / 2 ^ 52 \<le> p * c"
    using x by (simp add: x_def field_simps)
  have m: "x \<le> of_int m" "of_int m < x + 1" "0 \<le> m"
    using x(1) by (auto simp: m_def le_of_int_ceiling) linarith+
  have "fl64 (p * c) \<le> of_int m" using pc x(2) m by (intro fl64_le_int) auto
  moreover have "of_int m - 1 < fl64 (p * c)"
  proof -
    have "of_int (100 * (m - 1)) < (of_int (a * n) :: rat)"
    proof -
      have "100 * x = of_int (a * n)" using assms(1) by (simp add: x_def flip: mult.assoc)
      with m(2) show ?thesis by simp
    qed
    then have "100 * (m - 1) + 1 \<le> a * n" unfolding of_int_less_iff by linarith
    then have "of_int (100 * (m - 1) + 1) \<le> (of_int (a * n) :: rat)" unfolding of_int_le_iff .
    then have "100 * (of_int m - 1) + 1 \<le> 100 * x"
      using assms(1) by (simp add: x_def flip: mult.assoc)
    moreover have "0 \<le> p * c" using p c by simp
    from fl64_error [OF this] have "p * c - p * c / 2 ^ 53 \<le> fl64 (p * c)"
      unfolding abs_le_iff by linarith
    moreover define y z where "y = p * c" and "z = fl64 (p * c)"
    ultimately show ?thesis using low pc x unfolding y_def [symmetric] z_def [symmetric] by simp
  qed
  ultimately have "\<lceil>fl64 (p * c)\<rceil> = m" by (simp add: ceiling_eq_iff)
  then show ?thesis by (simp add: p_def c_def m_def x_def)
qed

text \<open>The ratio of two counts up to 20, as a double, is below a quarter exactly if it is.\<close>

lemma ratio_test_exact:
  assumes "0 \<le> k" "k \<le> n" "0 < n" "n \<le> 20"
  shows "fl64 (of_int k / of_int n) < 1 / 4 \<longleftrightarrow> 4 * k < n"
proof -
  define x :: rat where "x = of_int k / of_int n"
  have n: "(0 :: rat) < of_int n" "(of_int n :: rat) \<le> 20"
    using assms(3,4) by (simp, metis of_int_le_iff of_int_numeral)
  have x: "0 \<le> x" "x \<le> 1" using assms by (auto simp: x_def divide_le_eq)
  have err: "fl64 x - x \<le> 1 / 2 ^ 53" "x - fl64 x \<le> 1 / 2 ^ 53"
    using order_trans [OF fl64_error [OF x(1)], of "1 / 2 ^ 53"] x(2) unfolding abs_le_iff by auto
  consider "4 * k < n" | "4 * k = n" | "n < 4 * k" by linarith
  then show ?thesis
  proof cases
    case 1
    then have "of_int (4 * k + 1) \<le> (of_int n :: rat)" unfolding of_int_le_iff by simp
    then have "x \<le> 1 / 4 - 1 / (4 * of_int n)" using n by (simp add: x_def field_simps)
    moreover have "1 / 80 \<le> 1 / (4 * of_int n :: rat)" using n by (simp add: field_simps)
    ultimately show ?thesis using 1 err by (simp add: x_def [symmetric])
  next
    case 2
    have q: "quotient_of (1 / 4) = (1, 4)" by code_simp
    have "fl64 (1 / 4) = 1 / 4" by code_simp
    moreover have "x = 1 / 4" using 2 n by (auto simp: x_def field_simps)
    ultimately have "fl64 x = 1 / 4" by (simp only:)
    with 2 show ?thesis by (simp add: x_def [symmetric])
  next
    case 3
    then have "of_int (n + 1) \<le> (of_int (4 * k) :: rat)" unfolding of_int_le_iff by simp
    from divide_right_mono [OF this, of "4 * of_int n"] n
    have "1 / 4 + 1 / (4 * of_int n) \<le> x" by (simp add: x_def add_divide_distrib)
    moreover have "1 / 80 \<le> 1 / (4 * of_int n :: rat)" using n by (simp add: field_simps)
    ultimately show ?thesis using 3 err by (simp add: x_def [symmetric])
  qed
qed

text \<open>The two fractions that are not doubles are rounded down.\<close>

lemma fl64_hundredths: "fl64 (1 / 2) = 1 / 2" "fl64 (95 / 100) \<le> 95 / 100" "fl64 (99 / 100) \<le> 99 / 100"
  by code_simp+

end
