(* ===== verification/Kv_Store.thy ===== *)
theory Kv_Store
  imports Glob Go_Float
begin

text \<open>
  The data layer, \<open>store/store.go\<close>: the record of the three maps and the expiry index,
  and one definition per method of \<open>Store\<close>.

  Every reading of the clock is an argument (nanoseconds since the epoch), one per call of
  \<open>time.Now\<close> the method makes.  A method that changes the store returns the new store; an
  \<open>error\<close> result is the left half of a sum.  Methods that take the lock twice (\<open>Get\<close>,
  \<open>TTL\<close>) are composed of the two critical sections, which are definitions of their own.
\<close>

section \<open>State\<close>

record Entry =
  Value :: string
  ExpiresAt :: gotime

type_synonym hash = "(string, string) gomap"

record Store =
  data :: "(string, Entry) gomap"
  lists :: "(string, string list) gomap"
  hashes :: "(string, hash) gomap"
  expiryKeys :: "(string, unit) gomap"
  maxMemoryBytes :: int

record Snapshot =
  Strings :: "(string, Entry) gomap"
  Lists :: "(string, string list) gomap"
  Hashes :: "(string, hash) gomap"

text \<open>The errors a store method returns.\<close>

datatype store_err = ErrOOM | ErrNotInteger

fun store_err_Error :: "store_err \<Rightarrow> string" where
  "store_err_Error ErrOOM = ''OOM command not allowed when used memory > '' @ quoted ''maxmemory''"
| "store_err_Error ErrNotInteger = ''value is not an integer or out of range''"

definition store_New :: Store where
  "store_New = \<lparr>data = [], lists = [], hashes = [], expiryKeys = [], maxMemoryBytes = 0\<rparr>"

definition store_SetMaxMemory :: "int \<Rightarrow> Store \<Rightarrow> Store" where
  "store_SetMaxMemory bytes s = s\<lparr>maxMemoryBytes := bytes\<rparr>"

section \<open>Memory estimate\<close>

fun sumLen :: "string list \<Rightarrow> int" where
  "sumLen [] = 0"
| "sumLen (v # vals) = int (length v) + sumLen vals"

definition entry_bytes :: "string \<Rightarrow> Entry \<Rightarrow> int" where
  "entry_bytes k e = int (length k + length (Value e))"

definition list_bytes :: "string \<Rightarrow> string list \<Rightarrow> int" where
  "list_bytes k lst = int (length k) + sumLen lst"

definition field_bytes :: "string \<Rightarrow> string \<Rightarrow> int" where
  "field_bytes f v = int (length f + length v)"

definition hash_bytes :: "string \<Rightarrow> hash \<Rightarrow> int" where
  "hash_bytes k h = int (length k) + wsum field_bytes h"

definition approxMemoryBytesLocked :: "Store \<Rightarrow> int" where
  "approxMemoryBytesLocked s =
     wsum entry_bytes (data s) + wsum list_bytes (lists s) + wsum hash_bytes (hashes s)"

definition store_ApproxMemoryBytes :: "Store \<Rightarrow> int" where
  "store_ApproxMemoryBytes s = approxMemoryBytesLocked s"

definition checkMemoryLocked :: "int \<Rightarrow> Store \<Rightarrow> store_err option" where
  "checkMemoryLocked additionalBytes s =
     (if maxMemoryBytes s \<le> 0 then None
      else if approxMemoryBytesLocked s + additionalBytes > maxMemoryBytes s then Some ErrOOM
      else None)"

section \<open>Strings and expiry\<close>

definition store_Set :: "int \<Rightarrow> string \<Rightarrow> string \<Rightarrow> int \<Rightarrow> Store \<Rightarrow> store_err + Store" where
  "store_Set now key val ttl s =
     (let expiresAt = (if ttl > 0 then UnixNano (now + ttl) else ZeroTime)
      in case checkMemoryLocked (int (length key + length val)) s of
           Some err \<Rightarrow> Inl err
         | None \<Rightarrow>
             (let s1 = s\<lparr>data := AList.update key \<lparr>Value = val, ExpiresAt = expiresAt\<rparr> (data s)\<rparr>
              in Inr (if IsZero expiresAt
                      then s1\<lparr>expiryKeys := AList.delete key (expiryKeys s1)\<rparr>
                      else s1\<lparr>expiryKeys := AList.update key () (expiryKeys s1)\<rparr>)))"

definition isExpired :: "int \<Rightarrow> Entry \<Rightarrow> bool" where
  "isExpired now e \<longleftrightarrow> \<not> IsZero (ExpiresAt e) \<and> UnixNano now > ExpiresAt e"

definition deleteExpiredLocked :: "string \<Rightarrow> Store \<Rightarrow> Store" where
  "deleteExpiredLocked key s =
     s\<lparr>data := AList.delete key (data s), expiryKeys := AList.delete key (expiryKeys s)\<rparr>"

text \<open>
  What the first critical section of \<open>Get\<close> and \<open>TTL\<close> (under the read lock) and the
  following check decide: no entry, an expired one, or a live one.
\<close>

datatype lookup = Missing | Expired | Live Entry

definition get_lookup :: "int \<Rightarrow> string \<Rightarrow> Store \<Rightarrow> lookup" where
  "get_lookup now key s =
     (case map_of (data s) key of
        None \<Rightarrow> Missing
      | Some e \<Rightarrow> if isExpired now e then Expired else Live e)"

definition store_Get :: "int \<Rightarrow> string \<Rightarrow> Store \<Rightarrow> string option \<times> Store" where
  "store_Get now key s =
     (case get_lookup now key s of
        Missing \<Rightarrow> (None, s)
      | Expired \<Rightarrow> (None, deleteExpiredLocked key s)
      | Live e \<Rightarrow> (Some (Value e), s))"

definition Del_key :: "string \<Rightarrow> Store \<Rightarrow> bool \<times> Store" where
  "Del_key k s =
     (let found1 = (map_of (data s) k \<noteq> None);
          s1 = (if found1 then s\<lparr>data := AList.delete k (data s),
                                 expiryKeys := AList.delete k (expiryKeys s)\<rparr> else s);
          found2 = (map_of (lists s1) k \<noteq> None);
          s2 = (if found2 then s1\<lparr>lists := AList.delete k (lists s1)\<rparr> else s1);
          found3 = (map_of (hashes s2) k \<noteq> None);
          s3 = (if found3 then s2\<lparr>hashes := AList.delete k (hashes s2)\<rparr> else s2)
      in (found1 \<or> found2 \<or> found3, s3))"

fun Del_loop :: "string list \<Rightarrow> int \<Rightarrow> Store \<Rightarrow> int \<times> Store" where
  "Del_loop [] n s = (n, s)"
| "Del_loop (k # keys) n s =
     (let (found, s1) = Del_key k s in Del_loop keys (if found then n + 1 else n) s1)"

definition store_Del :: "string list \<Rightarrow> Store \<Rightarrow> int \<times> Store" where
  "store_Del keys s = Del_loop keys 0 s"

text \<open>\<open>Exists\<close> calls \<open>Get\<close> per key; \<open>clk i\<close> is the clock reading of the call for key \<open>i\<close>.\<close>

fun Exists_loop ::
  "(nat \<Rightarrow> int) \<Rightarrow> nat \<Rightarrow> string list \<Rightarrow> int \<Rightarrow> Store \<Rightarrow> int \<times> Store" where
  "Exists_loop clk i [] n s = (n, s)"
| "Exists_loop clk i (k # keys) n s =
     (let (v, s1) = store_Get (clk i) k s
      in if v \<noteq> None then Exists_loop clk (Suc i) keys (n + 1) s1
         else if map_of (lists s1) k \<noteq> None \<or> map_of (hashes s1) k \<noteq> None
              then Exists_loop clk (Suc i) keys (n + 1) s1
              else Exists_loop clk (Suc i) keys n s1)"

definition store_Exists :: "(nat \<Rightarrow> int) \<Rightarrow> string list \<Rightarrow> Store \<Rightarrow> int \<times> Store" where
  "store_Exists clk keys s = Exists_loop clk 0 keys 0 s"

text \<open>\<open>time.Duration(n) * time.Second\<close>: a 64-bit product.\<close>

definition second :: int where "second = 1000000000"
definition millisecond :: int where "millisecond = 1000000"

definition store_Expire :: "int \<Rightarrow> string \<Rightarrow> int \<Rightarrow> Store \<Rightarrow> bool \<times> Store" where
  "store_Expire now key seconds s =
     (case map_of (data s) key of
        None \<Rightarrow> (False, s)
      | Some e \<Rightarrow>
          (True, s\<lparr>data := AList.update key
                     (e\<lparr>ExpiresAt := UnixNano (now + wrap64 (seconds * second))\<rparr>) (data s),
                   expiryKeys := AList.update key () (expiryKeys s)\<rparr>))"

text \<open>
  \<open>time.Until\<close> saturates at the ends of \<open>Duration\<close>; \<open>Seconds\<close> adds the whole seconds
  and the rounded fraction, in floating point.
\<close>

definition Until :: "int \<Rightarrow> int \<Rightarrow> int" where
  "Until now t = max (- (2 ^ 63)) (min (2 ^ 63 - 1) (t - now))"

definition roundedSeconds :: "int \<Rightarrow> int" where
  "roundedSeconds d =
     \<lfloor>fl64 (fl64 (of_int (d div second) + fl64 (of_int (d mod second) / of_int second)) + 1 / 2)\<rfloor>"

definition store_TTL :: "int \<Rightarrow> int \<Rightarrow> string \<Rightarrow> Store \<Rightarrow> int \<times> Store" where
  "store_TTL now1 now2 key s =
     (case get_lookup now1 key s of
        Missing \<Rightarrow> (-2, s)
      | Expired \<Rightarrow> (-2, deleteExpiredLocked key s)
      | Live e \<Rightarrow>
          (case ExpiresAt e of
             ZeroTime \<Rightarrow> (-1, s)
           | UnixNano t \<Rightarrow>
               (if Until now2 t < 0 then (-2, s) else (roundedSeconds (Until now2 t), s))))"

section \<open>Enumeration\<close>

definition store_Keys :: "int \<Rightarrow> string \<Rightarrow> Store \<Rightarrow> string list" where
  "store_Keys now pattern s =
     filter (matchGlob pattern)
       (map fst (filter (\<lambda>(k, e). \<not> (\<not> IsZero (ExpiresAt e) \<and> UnixNano now > ExpiresAt e)) (data s)))
     @ filter (matchGlob pattern) (map fst (lists s))
     @ filter (matchGlob pattern) (map fst (hashes s))"

text \<open>A slice expression \<open>xs[lo:hi]\<close> panics unless the bounds are in order and in range.\<close>

definition goslice :: "'a list \<Rightarrow> int \<Rightarrow> int \<Rightarrow> 'a list outcome" where
  "goslice xs lo hi =
     (if 0 \<le> lo \<and> lo \<le> hi \<and> hi \<le> int (length xs)
      then Returns (take (nat hi - nat lo) (drop (nat lo) xs)) else Panics)"

definition scan_all :: "int \<Rightarrow> Store \<Rightarrow> string list" where
  "scan_all now s =
     map fst (filter (\<lambda>(k, e). IsZero (ExpiresAt e) \<or> UnixNano now < ExpiresAt e) (data s))
     @ map fst (lists s) @ map fst (hashes s)"

definition store_Scan ::
  "int \<Rightarrow> int \<Rightarrow> string \<Rightarrow> int \<Rightarrow> Store \<Rightarrow> (int \<times> string list) outcome" where
  "store_Scan now cursor pattern cnt s =
     (let count1 = (if cnt \<le> 0 then 10 else cnt);
          all = sort (scan_all now s)
      in if cursor < 0 \<or> cursor \<ge> int (length all) then Returns (0, [])
         else let end0 = wrap64 (cursor + count1);
                  end = (if end0 > int (length all) then int (length all) else end0)
              in case goslice all cursor end of
                   Panics \<Rightarrow> Panics
                 | Returns page \<Rightarrow>
                     (let next = (if end \<ge> int (length all) then 0 else end)
                      in Returns (next, filter (matchGlob pattern) page)))"

definition store_FlushAll :: "Store \<Rightarrow> Store" where
  "store_FlushAll s = s\<lparr>data := [], lists := [], hashes := [], expiryKeys := []\<rparr>"

section \<open>Counters\<close>

definition store_IncrBy :: "int \<Rightarrow> string \<Rightarrow> int \<Rightarrow> Store \<Rightarrow> store_err + int \<times> Store" where
  "store_IncrBy now key delta s =
     (let entry = (case map_of (data s) key of
                     None \<Rightarrow> \<lparr>Value = [], ExpiresAt = ZeroTime\<rparr> | Some e \<Rightarrow> e);
          ok = (map_of (data s) key \<noteq> None \<and> \<not> isExpired now entry)
      in case (if ok then atoi (Value entry) else Some 0) of
           None \<Rightarrow> Inl ErrNotInteger
         | Some n \<Rightarrow>
             (let cur = wrap64 (n + delta); newVal = itoa cur
              in case checkMemoryLocked (int (length key + length newVal)) s of
                   Some err \<Rightarrow> Inl err
                 | None \<Rightarrow>
                     Inr (cur, s\<lparr>data := AList.update key
                            \<lparr>Value = newVal, ExpiresAt = ExpiresAt entry\<rparr> (data s)\<rparr>)))"

section \<open>Lists\<close>

text \<open>A missing key reads as the zero value of the map's value type.\<close>

definition get_list :: "string \<Rightarrow> Store \<Rightarrow> string list" where
  "get_list key s = (case map_of (lists s) key of None \<Rightarrow> [] | Some l \<Rightarrow> l)"

fun LPush_loop :: "string list \<Rightarrow> string list \<Rightarrow> string list" where
  "LPush_loop [] lst = lst"
| "LPush_loop (v # vals) lst = LPush_loop vals ([v] @ lst)"

definition store_LPush :: "string \<Rightarrow> string list \<Rightarrow> Store \<Rightarrow> store_err + int \<times> Store" where
  "store_LPush key vals s =
     (case checkMemoryLocked (int (length key) + sumLen vals) s of
        Some err \<Rightarrow> Inl err
      | None \<Rightarrow>
          (let lst = LPush_loop vals (get_list key s)
           in Inr (int (length lst), s\<lparr>lists := AList.update key lst (lists s)\<rparr>)))"

definition store_RPush :: "string \<Rightarrow> string list \<Rightarrow> Store \<Rightarrow> store_err + int \<times> Store" where
  "store_RPush key vals s =
     (case checkMemoryLocked (int (length key) + sumLen vals) s of
        Some err \<Rightarrow> Inl err
      | None \<Rightarrow>
          (let lst = get_list key s @ vals
           in Inr (int (length lst), s\<lparr>lists := AList.update key lst (lists s)\<rparr>)))"

definition normalizeIndex :: "int \<Rightarrow> int \<Rightarrow> int" where
  "normalizeIndex idx n = (if idx < 0 then n + idx else idx)"

definition store_LRange :: "string \<Rightarrow> int \<Rightarrow> int \<Rightarrow> Store \<Rightarrow> string list outcome" where
  "store_LRange key start0 stop0 s =
     (let lst = get_list key s; n = int (length lst)
      in if n = 0 then Returns []
         else let start1 = normalizeIndex start0 n;
                  stop1 = normalizeIndex stop0 n;
                  start = (if start1 < 0 then 0 else start1);
                  stop = (if stop1 \<ge> n then n - 1 else stop1)
              in if start > stop \<or> start \<ge> n then Returns []
                 else goslice lst start (stop + 1))"

section \<open>Hashes\<close>

fun HSet_loop :: "string list \<Rightarrow> int \<Rightarrow> hash \<Rightarrow> int \<times> hash" where
  "HSet_loop (field # val # pairs) added h =
     HSet_loop pairs (if map_of h field = None then added + 1 else added)
       (AList.update field val h)"
| "HSet_loop _ added h = (added, h)"

definition store_HSet :: "string \<Rightarrow> string list \<Rightarrow> Store \<Rightarrow> store_err + int \<times> Store" where
  "store_HSet key pairs s =
     (case checkMemoryLocked (int (length key) + sumLen pairs) s of
        Some err \<Rightarrow> Inl err
      | None \<Rightarrow>
          (let h = (case map_of (hashes s) key of None \<Rightarrow> [] | Some h \<Rightarrow> h);
               (added, h') = HSet_loop pairs 0 h
           in Inr (added, s\<lparr>hashes := AList.update key h' (hashes s)\<rparr>)))"

definition store_HGet :: "string \<Rightarrow> string \<Rightarrow> Store \<Rightarrow> string option" where
  "store_HGet key field s =
     (case map_of (hashes s) key of None \<Rightarrow> None | Some h \<Rightarrow> map_of h field)"

fun HDel_loop :: "string list \<Rightarrow> int \<Rightarrow> hash \<Rightarrow> int \<times> hash" where
  "HDel_loop [] n h = (n, h)"
| "HDel_loop (f # fs) n h =
     (if map_of h f \<noteq> None then HDel_loop fs (n + 1) (AList.delete f h)
      else HDel_loop fs n h)"

definition store_HDel :: "string \<Rightarrow> string list \<Rightarrow> Store \<Rightarrow> int \<times> Store" where
  "store_HDel key fs s =
     (case map_of (hashes s) key of
        None \<Rightarrow> (0, s)
      | Some h \<Rightarrow>
          (let (n, h') = HDel_loop fs 0 h
           in (n, if length h' = 0 then s\<lparr>hashes := AList.delete key (hashes s)\<rparr>
                      else s\<lparr>hashes := AList.update key h' (hashes s)\<rparr>)))"

section \<open>Counts, snapshot, active expiry\<close>

definition store_KeyCount :: "Store \<Rightarrow> int" where
  "store_KeyCount s = int (length (data s) + length (lists s) + length (hashes s))"

definition store_ExpiryCount :: "Store \<Rightarrow> int" where
  "store_ExpiryCount s = int (length (expiryKeys s))"

definition store_Snapshot :: "Store \<Rightarrow> Snapshot" where
  "store_Snapshot s = \<lparr>Strings = data s, Lists = lists s, Hashes = hashes s\<rparr>"

definition sampleSize :: int where "sampleSize = 20"
definition maxRoundsPerTick :: nat where "maxRoundsPerTick = 10"
definition expiredRatioToRepeat :: rat where "expiredRatioToRepeat = 1 / 4"

text \<open>
  One round of the sampler: \<open>keys\<close> is the enumeration of \<open>expiryKeys\<close> that the
  \<open>range\<close> loop of this round happens to make.
\<close>

fun sample_loop :: "int \<Rightarrow> string list \<Rightarrow> int \<Rightarrow> int \<Rightarrow> Store \<Rightarrow> int \<times> int \<times> Store" where
  "sample_loop now [] sampled expired s = (sampled, expired, s)"
| "sample_loop now (k # keys) sampled expired s =
     (if sampled \<ge> sampleSize then (sampled, expired, s)
      else case map_of (data s) k of
             Some e \<Rightarrow>
               (if \<not> IsZero (ExpiresAt e) \<and> UnixNano now > ExpiresAt e
                then sample_loop now keys (sampled + 1) (expired + 1) (deleteExpiredLocked k s)
                else sample_loop now keys (sampled + 1) expired s)
           | None \<Rightarrow>
               sample_loop now keys (sampled + 1) expired
                 (s\<lparr>expiryKeys := AList.delete k (expiryKeys s)\<rparr>))"

text \<open>
  The rounds: \<open>clk r\<close> is the clock reading of round \<open>r\<close> and \<open>ord r\<close> the order its
  \<open>range\<close> loop visits the keys in.  A round is repeated unless the quotient of the two counts, as
  a double, is below 0.25; for the at most 20 samples of a round that is the integer test
  \<open>4 * expired < sampled\<close> (\<open>ratio_test_exact\<close>).
\<close>

fun sampleExpire_rounds ::
  "(nat \<Rightarrow> int) \<Rightarrow> (nat \<Rightarrow> string list \<Rightarrow> string list) \<Rightarrow> nat \<Rightarrow> nat \<Rightarrow> Store \<Rightarrow> Store" where
  "sampleExpire_rounds clk ord 0 rnd s = s"
| "sampleExpire_rounds clk ord (Suc fuel) rnd s =
     (if length (expiryKeys s) = 0 then s
      else let (sampled, expired, s1) =
                 sample_loop (clk rnd) (ord rnd (map fst (expiryKeys s))) 0 0 s
           in if sampled = 0 \<or> fl64 (of_int expired / of_int sampled) < expiredRatioToRepeat then s1
              else sampleExpire_rounds clk ord fuel (Suc rnd) s1)"

definition store_sampleExpire ::
  "(nat \<Rightarrow> int) \<Rightarrow> (nat \<Rightarrow> string list \<Rightarrow> string list) \<Rightarrow> Store \<Rightarrow> Store" where
  "store_sampleExpire clk ord s = sampleExpire_rounds clk ord maxRoundsPerTick 0 s"

text \<open>The ticks of the background loop until it is cancelled, when nothing else runs.\<close>

fun store_StartExpiry :: "((nat \<Rightarrow> int) \<times> (nat \<Rightarrow> string list \<Rightarrow> string list)) list \<Rightarrow> Store \<Rightarrow> Store" where
  "store_StartExpiry [] s = s"
| "store_StartExpiry ((clk, ord) # ticks) s = store_StartExpiry ticks (store_sampleExpire clk ord s)"

end
