(* ===== verification/Kv_Invariant.thy ===== *)
theory Kv_Invariant
  imports Kv_Store
begin

text \<open>
  The two invariants of the store and that every operation keeps them: \<open>store_ok\<close> (the
  maps are maps, no list or hash is empty, and the expiry index holds exactly the string
  keys that have an expiry) and \<open>mem_ok\<close> (with a ceiling set, the estimate stays under it).
\<close>

section \<open>The invariants\<close>

definition store_ok :: "Store \<Rightarrow> bool" where
  "store_ok s \<longleftrightarrow>
     okmap (data s) \<and> okmap (lists s) \<and> okmap (hashes s) \<and> okmap (expiryKeys s)
     \<and> (\<forall>k l. map_of (lists s) k = Some l \<longrightarrow> l \<noteq> [])
     \<and> (\<forall>k h. map_of (hashes s) k = Some h \<longrightarrow> okmap h \<and> h \<noteq> [])
     \<and> (\<forall>k. map_of (expiryKeys s) k \<noteq> None
            \<longleftrightarrow> (\<exists>e. map_of (data s) k = Some e \<and> \<not> IsZero (ExpiresAt e)))"

definition mem_ok :: "Store \<Rightarrow> bool" where
  "mem_ok s \<longleftrightarrow> maxMemoryBytes s \<le> 0 \<or> approxMemoryBytesLocked s \<le> maxMemoryBytes s"

definition store_inv :: "Store \<Rightarrow> bool" where
  "store_inv s \<longleftrightarrow> store_ok s \<and> mem_ok s"

lemma store_okD:
  assumes "store_ok s"
  shows "okmap (data s)" "okmap (lists s)" "okmap (hashes s)" "okmap (expiryKeys s)"
    "map_of (lists s) k = Some l \<Longrightarrow> l \<noteq> []"
    "map_of (hashes s) k = Some h \<Longrightarrow> okmap h"
    "map_of (hashes s) k = Some h \<Longrightarrow> h \<noteq> []"
    "map_of (expiryKeys s) k \<noteq> None
       \<longleftrightarrow> (\<exists>e. map_of (data s) k = Some e \<and> \<not> IsZero (ExpiresAt e))"
  using assms by (auto simp: store_ok_def)

lemma store_ok_New [simp]: "store_ok store_New" "mem_ok store_New"
  by (simp_all add: store_ok_def mem_ok_def store_New_def)

section \<open>Byte counts\<close>

lemma sumLen_nonneg [simp]: "0 \<le> sumLen vs"
  by (induction vs) auto

lemma sumLen_append [mem_simps]: "sumLen (xs @ ys) = sumLen xs + sumLen ys"
  by (induction xs) auto

lemma sumLen_rev [mem_simps]: "sumLen (rev xs) = sumLen xs"
  by (induction xs) (auto simp: sumLen_append)

lemma bytes_nonneg [simp]:
  "0 \<le> entry_bytes k e" "0 \<le> list_bytes k l" "0 \<le> field_bytes f v" "0 \<le> hash_bytes k h"
  by (simp_all add: entry_bytes_def list_bytes_def field_bytes_def hash_bytes_def wsum_nonneg)

lemma wopt_nonneg_bytes [simp]:
  "0 \<le> wopt entry_bytes m k" "0 \<le> wopt list_bytes m' k" "0 \<le> wopt hash_bytes m'' k"
  "0 \<le> wopt field_bytes h k"
  by (simp_all add: wopt_nonneg)

lemma approx_nonneg: "0 \<le> approxMemoryBytesLocked s"
  by (simp add: approxMemoryBytesLocked_def wsum_nonneg)

lemma checkMemory_None:
  "checkMemoryLocked n s = None \<longleftrightarrow>
     maxMemoryBytes s \<le> 0 \<or> approxMemoryBytesLocked s + n \<le> maxMemoryBytes s"
  by (auto simp: checkMemoryLocked_def)

lemma checkMemory_Some:
  "checkMemoryLocked n s = Some err \<longleftrightarrow>
     err = ErrOOM \<and> 0 < maxMemoryBytes s \<and> maxMemoryBytes s < approxMemoryBytesLocked s + n"
  by (auto simp: checkMemoryLocked_def)

text \<open>A write that replaced one entry fits if what it added was checked.\<close>

lemma mem_ok_grow:
  assumes "checkMemoryLocked n s = None" "maxMemoryBytes s' = maxMemoryBytes s"
    "approxMemoryBytesLocked s' \<le> approxMemoryBytesLocked s + n"
  shows "mem_ok s'"
  using assms by (auto simp: mem_ok_def checkMemory_None)

lemma mem_ok_shrink:
  assumes "mem_ok s" "maxMemoryBytes s' = maxMemoryBytes s"
    "approxMemoryBytesLocked s' \<le> approxMemoryBytesLocked s"
  shows "mem_ok s'"
  using assms by (auto simp: mem_ok_def)

section \<open>Loops\<close>

lemma LPush_loop_eq [simp]: "LPush_loop vs l = rev vs @ l"
  by (induction vs arbitrary: l) auto

text \<open>The field/value pairs the loop of \<open>HSet\<close> takes off its argument list.\<close>

fun pairsOf :: "string list \<Rightarrow> (string \<times> string) list" where
  "pairsOf (f # v # r) = (f, v) # pairsOf r"
| "pairsOf _ = []"

lemma HSet_loop_map: "snd (HSet_loop ps n h) = fold (\<lambda>(f, v). AList.update f v) (pairsOf ps) h"
  by (induction ps n h rule: HSet_loop.induct) auto

lemma HSet_loop_ok: "okmap h \<Longrightarrow> okmap (snd (HSet_loop ps n h))"
  by (simp add: HSet_loop_map gm.ok_puts)

lemma HSet_loop_nonempty: "2 \<le> length ps \<or> h \<noteq> [] \<Longrightarrow> snd (HSet_loop ps n h) \<noteq> []"
proof (induction ps n h rule: HSet_loop.induct)
  case (1 f v ps n h)
  have "AList.update f v h \<noteq> []" by (cases h) auto
  with 1 show ?case by simp
qed auto

lemma HSet_loop_bytes:
  "okmap h \<Longrightarrow> wsum field_bytes (snd (HSet_loop ps n h)) \<le> wsum field_bytes h + sumLen ps"
proof (induction ps n h rule: HSet_loop.induct)
  case (1 f v ps n h)
  have "wsum field_bytes (snd (HSet_loop (f # v # ps) n h))
        \<le> wsum field_bytes (AList.update f v h) + sumLen ps"
    using 1 by simp
  also have "\<dots> \<le> wsum field_bytes h + field_bytes f v + sumLen ps"
    using 1(2) by (simp add: mem_simps)
  finally have "wsum field_bytes (snd (HSet_loop (f # v # ps) n h))
      \<le> wsum field_bytes h + (int (length f + length v) + sumLen ps)"
    unfolding field_bytes_def [of f v] by simp
  then show ?case by (simp del: HSet_loop.simps)
qed auto

lemma HDel_loop_map: "snd (HDel_loop fs n h) = fold AList.delete fs h"
proof (induction fs n h rule: HDel_loop.induct)
  case (2 f fs n h)
  then show ?case by (auto simp: delete_id map_of_None_fst)
qed simp

lemma HDel_loop_ok: "okmap h \<Longrightarrow> okmap (snd (HDel_loop fs n h))"
  by (simp add: HDel_loop_map gm.ok_dels)

lemma HDel_loop_bytes:
  "okmap h \<Longrightarrow> wsum field_bytes (snd (HDel_loop fs n h)) \<le> wsum field_bytes h"
proof (induction fs n h rule: HDel_loop.induct)
  case (2 f fs n h)
  show ?case
  proof (cases "map_of h f = None")
    case False
    with 2 have "wsum field_bytes (snd (HDel_loop (f # fs) n h))
        \<le> wsum field_bytes (AList.delete f h)" by simp
    also have "\<dots> \<le> wsum field_bytes h"
      using 2(3) by (simp add: mem_simps)
    finally show ?thesis .
  qed (use 2 in simp)
qed simp

section \<open>Each operation keeps both invariants\<close>

lemma store_inv_Set [inv_intros]:
  assumes "store_inv s" "store_Set now key val ttl s = Inr s'"
  shows "store_inv s'"
proof -
  let ?e = "\<lparr>Value = val, ExpiresAt = if ttl > 0 then UnixNano (now + ttl) else ZeroTime\<rparr>"
  have chk: "checkMemoryLocked (int (length key + length val)) s = None"
    and s': "s' = s\<lparr>data := AList.update key ?e (data s),
      expiryKeys := if ttl > 0 then AList.update key () (expiryKeys s)
                    else AList.delete key (expiryKeys s)\<rparr>"
    using assms(2) by (auto simp: store_Set_def Let_def split: option.splits if_splits)
  have ok: "store_ok s" using assms(1) by (simp add: store_inv_def)
  then have "store_ok s'" by (auto simp: store_ok_def s' split: if_splits)
  moreover have "mem_ok s'"
    using chk ok by (intro mem_ok_grow) (auto simp: s' approxMemoryBytesLocked_def mem_simps
        store_okD entry_bytes_def wopt_nonneg)
  ultimately show ?thesis by (simp add: store_inv_def)
qed

lemma store_inv_deleteExpired [inv_intros]: "store_inv s \<Longrightarrow> store_inv (deleteExpiredLocked key s)"
  unfolding store_inv_def
proof (elim conjE, intro conjI)
  assume ok: "store_ok s" and m: "mem_ok s"
  show "store_ok (deleteExpiredLocked key s)"
    using ok by (auto simp: store_ok_def deleteExpiredLocked_def)
  show "mem_ok (deleteExpiredLocked key s)"
    using ok by (intro mem_ok_shrink [OF m])
      (auto simp: deleteExpiredLocked_def approxMemoryBytesLocked_def mem_simps store_okD)
qed

lemma store_inv_Get [inv_intros]: "store_inv s \<Longrightarrow> store_inv (snd (store_Get now key s))"
  by (auto simp: store_Get_def split: lookup.splits intro: inv_intros)

lemma store_inv_TTL [inv_intros]: "store_inv s \<Longrightarrow> store_inv (snd (store_TTL n1 n2 key s))"
  by (auto simp: store_TTL_def split: lookup.splits gotime.splits intro: inv_intros)

lemma delete_missing: "map_of m k = None \<Longrightarrow> AList.delete k m = m"
  by (simp add: delete_id map_of_None_fst)

text \<open>Deleting a key the store does not hold changes nothing, so \<open>Del\<close> need not ask.\<close>

lemma snd_Del_key:
  assumes "store_ok s"
  shows "snd (Del_key k s) =
     s\<lparr>data := AList.delete k (data s), lists := AList.delete k (lists s),
       hashes := AList.delete k (hashes s), expiryKeys := AList.delete k (expiryKeys s)\<rparr>"
proof -
  have "map_of (data s) k = None \<Longrightarrow> map_of (expiryKeys s) k = None"
    using store_okD(8) [OF assms, of k] by (cases "map_of (expiryKeys s) k") simp_all
  then show ?thesis
    by (cases s) (simp add: Del_key_def Let_def delete_missing)
qed

lemma store_inv_Del_key:
  assumes "store_inv s" shows "store_inv (snd (Del_key k s))"
proof -
  have ok: "store_ok s" and m: "mem_ok s" using assms by (simp_all add: store_inv_def)
  have "store_ok (snd (Del_key k s))"
    using ok unfolding snd_Del_key [OF ok] by (auto simp: store_ok_def split: if_splits)
  moreover have "mem_ok (snd (Del_key k s))"
    using ok by (intro mem_ok_shrink [OF m])
      (simp_all add: snd_Del_key approxMemoryBytesLocked_def mem_simps store_okD add_mono)
  ultimately show ?thesis by (simp add: store_inv_def)
qed

lemma store_inv_Del [inv_intros]: "store_inv s \<Longrightarrow> store_inv (snd (store_Del keys s))"
proof -
  have "store_inv s \<Longrightarrow> store_inv (snd (Del_loop keys n s))" for n
  proof (induction keys n s rule: Del_loop.induct)
    case (2 k keys n s)
    then show ?case using store_inv_Del_key [of s k] by (auto split: prod.splits)
  qed simp
  then show "store_inv s \<Longrightarrow> store_inv (snd (store_Del keys s))"
    by (simp add: store_Del_def)
qed

lemma store_inv_Exists [inv_intros]: "store_inv s \<Longrightarrow> store_inv (snd (store_Exists clk keys s))"
proof -
  have "store_inv s \<Longrightarrow> store_inv (snd (Exists_loop clk i keys n s))" for i n
  proof (induction clk i keys n s rule: Exists_loop.induct)
    case (2 clk i k keys n s)
    then show ?case using store_inv_Get [of s "clk i" k] by (auto split: prod.splits)
  qed simp
  then show "store_inv s \<Longrightarrow> store_inv (snd (store_Exists clk keys s))"
    by (simp add: store_Exists_def)
qed

lemma store_inv_Expire [inv_intros]:
  "store_inv s \<Longrightarrow> store_inv (snd (store_Expire now key secs s))"
proof (cases "map_of (data s) key")
  case (Some e)
  assume inv: "store_inv s"
  then have ok: "store_ok s" and m: "mem_ok s" by (auto simp: store_inv_def)
  show ?thesis
    unfolding store_inv_def
  proof
    show "store_ok (snd (store_Expire now key secs s))"
      using ok Some by (auto simp: store_ok_def store_Expire_def)
    show "mem_ok (snd (store_Expire now key secs s))"
      using ok Some by (intro mem_ok_shrink [OF m])
        (auto simp: store_Expire_def approxMemoryBytesLocked_def mem_simps store_okD wopt_def
          entry_bytes_def)
  qed
qed (simp add: store_Expire_def)

lemma store_inv_FlushAll [inv_intros]: "store_inv s \<Longrightarrow> store_inv (store_FlushAll s)"
  using approx_nonneg [of s]
  by (auto simp: store_inv_def store_ok_def mem_ok_def store_FlushAll_def approxMemoryBytesLocked_def)

lemma store_inv_IncrBy [inv_intros]:
  assumes "store_inv s" "store_IncrBy now key delta s = Inr (n, s')"
  shows "store_inv s'"
proof -
  have ok: "store_ok s" using assms(1) by (simp add: store_inv_def)
  obtain x where chk: "checkMemoryLocked (int (length key + length (itoa n))) s = None"
    and s': "s' = s\<lparr>data := AList.update key \<lparr>Value = itoa n, ExpiresAt = x\<rparr> (data s)\<rparr>"
    and x: "x = (case map_of (data s) key of None \<Rightarrow> ZeroTime | Some e \<Rightarrow> ExpiresAt e)"
    using assms(2) by (auto simp: store_IncrBy_def Let_def split: option.splits if_splits)
  have "store_ok s'"
    using ok by (auto simp: store_ok_def s' x split: option.splits)
  moreover have "mem_ok s'"
    using chk ok by (intro mem_ok_grow) (auto simp: s' approxMemoryBytesLocked_def mem_simps
        store_okD entry_bytes_def wopt_nonneg)
  ultimately show ?thesis by (simp add: store_inv_def)
qed

lemma get_list_bytes:
  "sumLen (get_list key s) + (if map_of (lists s) key = None then 0 else int (length key))
     = wopt list_bytes (lists s) key"
  by (auto simp: get_list_def wopt_def list_bytes_def split: option.splits)

text \<open>Both pushes store a list that holds the old elements and the new ones.\<close>

lemma store_inv_push:
  assumes "store_inv s" "vals \<noteq> []" "checkMemoryLocked (int (length key) + sumLen vals) s = None"
    "sumLen lst = sumLen vals + sumLen (get_list key s)" "lst \<noteq> []"
  shows "store_inv (s\<lparr>lists := AList.update key lst (lists s)\<rparr>)" (is "store_inv ?s'")
proof -
  have ok: "store_ok s" using assms(1) by (simp add: store_inv_def)
  have "store_ok ?s'" using ok assms(5) by (auto simp: store_ok_def)
  moreover have "mem_ok ?s'"
    using get_list_bytes [of key s] ok assms(4)
    by (intro mem_ok_grow [OF assms(3)])
      (auto simp: approxMemoryBytesLocked_def mem_simps store_okD list_bytes_def split: if_splits)
  ultimately show ?thesis by (simp add: store_inv_def)
qed

lemma store_inv_LPush [inv_intros]:
  "store_inv s \<Longrightarrow> vals \<noteq> [] \<Longrightarrow> store_LPush key vals s = Inr (n, s') \<Longrightarrow> store_inv s'"
  by (auto simp: store_LPush_def Let_def mem_simps split: option.splits intro!: store_inv_push)

lemma store_inv_RPush [inv_intros]:
  "store_inv s \<Longrightarrow> vals \<noteq> [] \<Longrightarrow> store_RPush key vals s = Inr (n, s') \<Longrightarrow> store_inv s'"
  by (auto simp: store_RPush_def Let_def mem_simps split: option.splits intro!: store_inv_push)

lemma store_inv_HSet [inv_intros]:
  assumes "store_inv s" "2 \<le> length pairs" "store_HSet key pairs s = Inr (n, s')"
  shows "store_inv s'"
proof -
  have ok: "store_ok s" using assms(1) by (simp add: store_inv_def)
  define h where "h = (case map_of (hashes s) key of None \<Rightarrow> [] | Some h \<Rightarrow> h)"
  have okh: "okmap h" using store_okD(6) [OF ok] by (auto simp: h_def split: option.splits)
  have chk: "checkMemoryLocked (int (length key) + sumLen pairs) s = None"
    and s': "s' = s\<lparr>hashes := AList.update key (snd (HSet_loop pairs 0 h)) (hashes s)\<rparr>"
    using assms(3) by (auto simp: store_HSet_def h_def split: option.splits prod.splits)
  have "store_ok s'"
    using ok assms(2) okh by (auto simp: store_ok_def s' HSet_loop_ok HSet_loop_nonempty)
  moreover have "wsum field_bytes h \<le> wopt hash_bytes (hashes s) key"
    by (auto simp: h_def wopt_def hash_bytes_def split: option.splits)
  then have "mem_ok s'"
    using HSet_loop_bytes [OF okh, of pairs 0] ok
    by (intro mem_ok_grow [OF chk])
      (auto simp: s' approxMemoryBytesLocked_def mem_simps store_okD hash_bytes_def)
  ultimately show ?thesis by (simp add: store_inv_def)
qed

lemma store_inv_HDel [inv_intros]: "store_inv s \<Longrightarrow> store_inv (snd (store_HDel key fs s))"
proof (cases "map_of (hashes s) key")
  case (Some h)
  assume "store_inv s"
  then have ok: "store_ok s" and m: "mem_ok s" by (auto simp: store_inv_def)
  have okh: "okmap h" using ok Some by (rule store_okD)
  define h' where "h' = snd (HDel_loop fs 0 h)"
  have h': "okmap h'" "wsum field_bytes h' \<le> wsum field_bytes h"
    using okh by (simp_all add: h'_def HDel_loop_ok HDel_loop_bytes)
  have eq: "snd (store_HDel key fs s) =
      (if h' = [] then s\<lparr>hashes := AList.delete key (hashes s)\<rparr>
       else s\<lparr>hashes := AList.update key h' (hashes s)\<rparr>)"
    using Some by (simp add: store_HDel_def h'_def split: prod.splits)
  have "\<And>g f. map_of (AList.delete key (hashes s)) f = Some g \<Longrightarrow> map_of (hashes s) f = Some g"
    by (auto split: if_splits)
  then have "store_ok (snd (store_HDel key fs s))"
    using ok h' by (auto simp: store_ok_def eq)
  moreover have "mem_ok (snd (store_HDel key fs s))"
    using ok h' Some by (intro mem_ok_shrink [OF m])
      (auto simp: eq approxMemoryBytesLocked_def mem_simps store_okD wopt_def hash_bytes_def)
  ultimately show ?thesis by (simp add: store_inv_def)
qed (simp add: store_HDel_def)

section \<open>Active expiry\<close>

lemma store_inv_untrack:
  "store_inv s \<Longrightarrow> map_of (data s) k = None
   \<Longrightarrow> store_inv (s\<lparr>expiryKeys := AList.delete k (expiryKeys s)\<rparr>)"
  by (auto simp: store_inv_def store_ok_def mem_ok_def approxMemoryBytesLocked_def)

text \<open>
  What one round does, whatever the order: each visited key is either left alone or was
  expired and is deleted.  Stated as a rule, so that any property the two store changes
  keep is kept by a round.
\<close>

lemma sample_loop_induct:
  assumes "P s"
    and del: "\<And>s k e. P s \<Longrightarrow> map_of (data s) k = Some e \<Longrightarrow> isExpired now e
                  \<Longrightarrow> P (deleteExpiredLocked k s)"
    and unt: "\<And>s k. P s \<Longrightarrow> map_of (data s) k = None
                  \<Longrightarrow> P (s\<lparr>expiryKeys := AList.delete k (expiryKeys s)\<rparr>)"
  shows "P (snd (snd (sample_loop now keys m x s)))"
  using assms(1)
proof (induction keys arbitrary: m x s)
  case (Cons k keys)
  have "P (deleteExpiredLocked k s)"
    if "map_of (data s) k = Some e" "\<not> IsZero (ExpiresAt e)" "UnixNano now > ExpiresAt e" for e
    using that by (intro del [OF Cons.prems that(1)]) (auto simp: isExpired_def)
  then show ?case
    using Cons unt [of s k] by (auto split: option.splits)
qed simp

lemma sampleExpire_induct:
  assumes "P s"
    and "\<And>s k e r. P s \<Longrightarrow> map_of (data s) k = Some e \<Longrightarrow> isExpired (clk r) e
                  \<Longrightarrow> P (deleteExpiredLocked k s)"
    and "\<And>s k. P s \<Longrightarrow> map_of (data s) k = None
                  \<Longrightarrow> P (s\<lparr>expiryKeys := AList.delete k (expiryKeys s)\<rparr>)"
  shows "P (store_sampleExpire clk ord s)"
proof -
  have "P s \<Longrightarrow> P (sampleExpire_rounds clk ord n r s)" for n r
  proof (induction n arbitrary: r s)
    case (Suc n)
    have "P (snd (snd (sample_loop (clk r) (ord r (map fst (expiryKeys s))) 0 0 s)))"
      by (rule sample_loop_induct) (use Suc.prems assms(2,3) in blast)+
    with Suc show ?case by (auto split: prod.splits)
  qed simp
  with assms(1) show ?thesis by (simp add: store_sampleExpire_def)
qed

lemma store_inv_sampleExpire [inv_intros]:
  "store_inv s \<Longrightarrow> store_inv (store_sampleExpire clk ord s)"
  by (rule sampleExpire_induct) (auto intro: inv_intros store_inv_untrack)

section \<open>Runs of the store\<close>

text \<open>The operations that can change the store, with the clock readings they make.\<close>

datatype store_op =
    OpSet int string string int
  | OpGet int string
  | OpDel "string list"
  | OpExists "nat \<Rightarrow> int" "string list"
  | OpExpire int string int
  | OpTTL int int string
  | OpFlushAll
  | OpIncrBy int string int
  | OpLPush string "string list"
  | OpRPush string "string list"
  | OpHSet string "string list"
  | OpHDel string "string list"
  | OpSampleExpire "nat \<Rightarrow> int" "nat \<Rightarrow> string list \<Rightarrow> string list"

text \<open>A refused operation leaves the store as it was.\<close>

fun kept :: "Store \<Rightarrow> 'e + 'a \<times> Store \<Rightarrow> Store" where
  "kept s (Inl _) = s"
| "kept s (Inr (_, s')) = s'"

fun store_step :: "store_op \<Rightarrow> Store \<Rightarrow> Store" where
  "store_step (OpSet now k v ttl) s = (case store_Set now k v ttl s of Inl _ \<Rightarrow> s | Inr s' \<Rightarrow> s')"
| "store_step (OpGet now k) s = snd (store_Get now k s)"
| "store_step (OpDel ks) s = snd (store_Del ks s)"
| "store_step (OpExists clk ks) s = snd (store_Exists clk ks s)"
| "store_step (OpExpire now k secs) s = snd (store_Expire now k secs s)"
| "store_step (OpTTL n1 n2 k) s = snd (store_TTL n1 n2 k s)"
| "store_step OpFlushAll s = store_FlushAll s"
| "store_step (OpIncrBy now k d) s = kept s (store_IncrBy now k d s)"
| "store_step (OpLPush k vs) s = kept s (store_LPush k vs s)"
| "store_step (OpRPush k vs) s = kept s (store_RPush k vs s)"
| "store_step (OpHSet k ps) s = kept s (store_HSet k ps s)"
| "store_step (OpHDel k fs) s = snd (store_HDel k fs s)"
| "store_step (OpSampleExpire clk ord) s = store_sampleExpire clk ord s"

text \<open>The command layer never pushes nothing and never sets an empty list of fields.\<close>

fun wf_op :: "store_op \<Rightarrow> bool" where
  "wf_op (OpLPush k vs) \<longleftrightarrow> vs \<noteq> []"
| "wf_op (OpRPush k vs) \<longleftrightarrow> vs \<noteq> []"
| "wf_op (OpHSet k ps) \<longleftrightarrow> 2 \<le> length ps"
| "wf_op _ \<longleftrightarrow> True"

lemma kept_inv: "store_inv s \<Longrightarrow> (\<And>n s'. r = Inr (n, s') \<Longrightarrow> store_inv s') \<Longrightarrow> store_inv (kept s r)"
  by (cases "(s, r)" rule: kept.cases) auto

lemma store_step_inv: "store_inv s \<Longrightarrow> wf_op x \<Longrightarrow> store_inv (store_step x s)"
  by (cases x) (auto intro: inv_intros kept_inv split: sum.splits)

lemma store_inv_empty: "store_inv (store_SetMaxMemory m store_New)"
  by (auto simp: store_inv_def store_ok_def mem_ok_def store_New_def store_SetMaxMemory_def
      approxMemoryBytesLocked_def)

interpretation kv: initialised_system store_step store_inv wf_op "store_SetMaxMemory m store_New"
  for m
  by unfold_locales (auto intro: store_step_inv store_inv_empty)

lemma maxMemory_ops [simp]:
  "store_Set now k v ttl s = Inr s' \<Longrightarrow> maxMemoryBytes s' = maxMemoryBytes s"
  "maxMemoryBytes (deleteExpiredLocked k s) = maxMemoryBytes s"
  "maxMemoryBytes (snd (store_Get now k s)) = maxMemoryBytes s"
  "maxMemoryBytes (snd (store_TTL n1 n2 k s)) = maxMemoryBytes s"
  "maxMemoryBytes (snd (Del_key k s)) = maxMemoryBytes s"
  "maxMemoryBytes (snd (store_Expire now k secs s)) = maxMemoryBytes s"
  "maxMemoryBytes (store_FlushAll s) = maxMemoryBytes s"
  "maxMemoryBytes (snd (store_HDel k fs s)) = maxMemoryBytes s"
  by (auto simp: store_Set_def store_Get_def deleteExpiredLocked_def store_TTL_def Del_key_def
      store_Expire_def store_FlushAll_def store_HDel_def Let_def
      split: option.splits if_splits lookup.splits gotime.splits prod.splits)

lemma maxMemory_writes [simp]:
  "maxMemoryBytes (kept s (store_IncrBy now k d s)) = maxMemoryBytes s"
  "maxMemoryBytes (kept s (store_LPush k vs s)) = maxMemoryBytes s"
  "maxMemoryBytes (kept s (store_RPush k vs s)) = maxMemoryBytes s"
  "maxMemoryBytes (kept s (store_HSet k vs s)) = maxMemoryBytes s"
  by (auto simp: store_IncrBy_def store_LPush_def store_RPush_def store_HSet_def Let_def
      split: option.splits prod.splits)

lemma maxMemory_loops [simp]:
  "maxMemoryBytes (snd (Del_loop ks n s)) = maxMemoryBytes s"
  "maxMemoryBytes (snd (Exists_loop clk i ks n s)) = maxMemoryBytes s"
proof (induction ks arbitrary: n i s)
  case (Cons k ks)
  { case 1 then show ?case
      by (simp add: Cons.IH(1) case_prod_beta)
  next
    case 2 then show ?case
      by (simp add: Cons.IH(2) case_prod_beta) }
qed simp_all

lemma maxMemory_Del [simp]: "maxMemoryBytes (snd (store_Del ks s)) = maxMemoryBytes s"
  by (simp add: store_Del_def)

lemma maxMemory_step [simp]: "maxMemoryBytes (store_step x s) = maxMemoryBytes s"
proof (cases x)
  case (OpSampleExpire clk ord)
  then show ?thesis
    by (simp, intro sampleExpire_induct [where P = "\<lambda>t. maxMemoryBytes t = maxMemoryBytes s"]) auto
qed (auto simp: store_Del_def store_Exists_def split: sum.splits)

end
