(* ===== verification/Kv_View.thy ===== *)
theory Kv_View
  imports Kv_Invariant
begin

text \<open>
  The abstract keyspace the store implements (three finite maps) and, operation by
  operation, that the code's effect on its state is the specified effect on the keyspace.
\<close>

section \<open>The abstraction\<close>

record keyspace =
  ks_str :: "string \<Rightarrow> (string \<times> gotime) option"
  ks_list :: "string \<Rightarrow> string list option"
  ks_hash :: "string \<Rightarrow> (string \<Rightarrow> string option) option"

definition view :: "Store \<Rightarrow> keyspace" where
  "view s = \<lparr>ks_str = (\<lambda>k. map_option (\<lambda>e. (Value e, ExpiresAt e)) (map_of (data s) k)),
            ks_list = map_of (lists s),
            ks_hash = (\<lambda>k. map_option map_of (map_of (hashes s) k))\<rparr>"

definition expiry :: "int \<Rightarrow> int \<Rightarrow> gotime" where
  "expiry now ttl = (if 0 < ttl then UnixNano (now + ttl) else ZeroTime)"

definition alive :: "int \<Rightarrow> gotime \<Rightarrow> bool" where
  "alive now x \<longleftrightarrow> IsZero x \<or> UnixNano now \<le> x"

text \<open>The keys a store holds, of any type, expired ones included.\<close>

definition held :: "Store \<Rightarrow> string set" where
  "held s = dom (map_of (data s)) \<union> dom (map_of (lists s)) \<union> dom (map_of (hashes s))"

lemma isExpired_alive: "isExpired now e \<longleftrightarrow> \<not> alive now (ExpiresAt e)"
  by (auto simp: isExpired_def alive_def not_le)

lemma keyspace_eqI:
  "ks_str a = ks_str b \<Longrightarrow> ks_list a = ks_list b \<Longrightarrow> ks_hash a = ks_hash b \<Longrightarrow> a = (b :: keyspace)"
  by simp

section \<open>Strings\<close>

lemma Set_eq:
  "store_Set now key val ttl s =
     (case checkMemoryLocked (int (length key + length val)) s of Some err \<Rightarrow> Inl err
      | None \<Rightarrow> Inr (s\<lparr>data := AList.update key \<lparr>Value = val, ExpiresAt = expiry now ttl\<rparr> (data s),
                 expiryKeys := (if 0 < ttl then AList.update key () (expiryKeys s)
                                else AList.delete key (expiryKeys s))\<rparr>))"
  by (simp add: store_Set_def Let_def expiry_def split: option.splits)

lemma Set_unlimited: "maxMemoryBytes s \<le> 0 \<Longrightarrow> \<exists>s'. store_Set now key val ttl s = Inr s'"
proof -
  assume "maxMemoryBytes s \<le> 0"
  then have "checkMemoryLocked n s = None" for n by (simp add: checkMemoryLocked_def)
  then show ?thesis unfolding Set_eq by (simp only: option.case) blast
qed

lemma view_Set [view_simps]:
  "store_Set now key val ttl s = Inr s'
   \<Longrightarrow> view s' = (view s)\<lparr>ks_str := (ks_str (view s))(key \<mapsto> (val, expiry now ttl))\<rparr>"
  by (auto simp: Set_eq view_def fun_eq_iff split: option.splits)

lemma view_deleteExpired [view_simps]:
  "view (deleteExpiredLocked key s) = (view s)\<lparr>ks_str := (ks_str (view s))(key := None)\<rparr>"
  by (auto simp: deleteExpiredLocked_def view_def fun_eq_iff)

text \<open>What \<open>Get\<close> answers, in terms of the keyspace.\<close>

lemma Get_result:
  "fst (store_Get now key s) =
     (case ks_str (view s) key of None \<Rightarrow> None
      | Some (v, x) \<Rightarrow> if alive now x then Some v else None)"
  by (auto simp: store_Get_def get_lookup_def view_def isExpired_alive split: option.splits)

lemma Get_view:
  "view (snd (store_Get now key s)) =
     (if (\<exists>v x. ks_str (view s) key = Some (v, x) \<and> \<not> alive now x)
      then (view s)\<lparr>ks_str := (ks_str (view s))(key := None)\<rparr> else view s)"
  by (auto simp: store_Get_def get_lookup_def view_simps isExpired_alive split: option.splits)
    (auto simp: view_def)

text \<open>
  C12: SET then GET. After a successful \<open>Set\<close> a \<open>Get\<close> of the same key answers the stored
  value until the expiry has passed and nothing afterwards, and a \<open>Get\<close> of any other key
  answers what it would have answered without the \<open>Set\<close>.
\<close>

theorem set_then_get:
  assumes "store_Set t0 key val ttl s = Inr s'"
  shows "fst (store_Get t key' s') =
     (if key' = key then (if 0 < ttl \<and> t0 + ttl < t then None else Some val)
      else fst (store_Get t key' s))"
  using view_Set [OF assms] by (auto simp: Get_result alive_def expiry_def)

theorem set_then_get_witness:
  "fst (store_Get 40 ''a'' (store_step (OpSet 5 ''a'' ''x'' 30) store_New)) = None"
  using set_then_get [of 5 "''a''" "''x''" 30 store_New
      "store_step (OpSet 5 ''a'' ''x'' 30) store_New" 40 "''a''"]
  by (simp add: store_Set_def store_New_def checkMemoryLocked_def)

section \<open>Deletion\<close>

lemma Del_key_fst: "fst (Del_key k s) \<longleftrightarrow> k \<in> held s"
  by (auto simp: Del_key_def Let_def held_def)

lemma Del_key_view:
  "view (snd (Del_key k s)) =
     \<lparr>ks_str = (ks_str (view s))(k := None), ks_list = (ks_list (view s))(k := None),
      ks_hash = (ks_hash (view s))(k := None)\<rparr>"
  by (auto simp: Del_key_def Let_def view_def fun_eq_iff)

lemma held_view:
  "held s = dom (ks_str (view s)) \<union> dom (ks_list (view s)) \<union> dom (ks_hash (view s))"
  by (auto simp: held_def view_def)

lemma Del_key_held: "held (snd (Del_key k s)) = held s - {k}"
  by (auto simp: held_view Del_key_view)

lemma Del_loop_count:
  "fst (Del_loop keys n s) = n + int (card (set keys \<inter> held s))"
proof (induction keys arbitrary: n s)
  case (Cons k keys)
  define s1 where "s1 = snd (Del_key k s)"
  have "held s1 = held s - {k}" by (simp add: s1_def Del_key_held)
  then have "set keys \<inter> held s1 = set keys \<inter> held s - {k}" by auto
  moreover have "set (k # keys) \<inter> held s =
      (if k \<in> held s then insert k (set keys \<inter> held s - {k}) else set keys \<inter> held s - {k})"
    by auto
  moreover have "fst (Del_loop (k # keys) n s) =
      (if k \<in> held s then n + 1 else n) + int (card (set keys \<inter> held s1))"
    using Cons.IH by (simp add: case_prod_beta Del_key_fst s1_def)
  ultimately show ?case by (simp add: card.insert_remove)
qed simp

lemma Del_loop_view:
  "view (snd (Del_loop keys n s)) =
     \<lparr>ks_str = ks_str (view s) |` (- set keys), ks_list = ks_list (view s) |` (- set keys),
      ks_hash = ks_hash (view s) |` (- set keys)\<rparr>"
proof (induction keys arbitrary: n s)
  case (Cons k keys)
  then show ?case
    by (auto simp: case_prod_beta Del_key_view restrict_map_def fun_eq_iff intro!: keyspace_eqI)
qed (auto simp: restrict_map_def intro!: keyspace_eqI)

text \<open>
  C29: DEL. \<open>Del\<close> removes exactly the named keys, whatever their type, touches no other
  key, and returns the number of different keys it removed (a key named twice counts once).
\<close>

theorem del_correct:
  "fst (store_Del keys s) = int (card (set keys \<inter> held s))
   \<and> view (snd (store_Del keys s)) =
       \<lparr>ks_str = ks_str (view s) |` (- set keys), ks_list = ks_list (view s) |` (- set keys),
        ks_hash = ks_hash (view s) |` (- set keys)\<rparr>"
  by (simp add: store_Del_def Del_loop_count Del_loop_view)

section \<open>Existence\<close>

definition visible :: "int \<Rightarrow> Store \<Rightarrow> string \<Rightarrow> bool" where
  "visible now s k \<longleftrightarrow> (\<exists>v x. ks_str (view s) k = Some (v, x) \<and> alive now x)
     \<or> ks_list (view s) k \<noteq> None \<or> ks_hash (view s) k \<noteq> None"

lemma Get_keeps_lists: "lists (snd (store_Get now k s)) = lists s"
  "hashes (snd (store_Get now k s)) = hashes s"
  by (auto simp: store_Get_def deleteExpiredLocked_def split: lookup.splits)

text \<open>Removing an expired key does not change what is visible, at that instant or later.\<close>

lemma alive_mono: "t \<le> t' \<Longrightarrow> alive t' x \<Longrightarrow> alive t x"
  by (cases x) (auto simp: alive_def)

lemma Get_visible: "t \<le> t' \<Longrightarrow> visible t' (snd (store_Get t k s)) k' \<longleftrightarrow> visible t' s k'"
  by (auto simp: visible_def Get_view dest: alive_mono)

lemma Exists_step:
  "fst (store_Get t k s) \<noteq> None \<or> map_of (lists (snd (store_Get t k s))) k \<noteq> None
     \<or> map_of (hashes (snd (store_Get t k s))) k \<noteq> None \<longleftrightarrow> visible t s k"
  by (auto simp: visible_def Get_result Get_keeps_lists view_def split: option.splits)

lemma Exists_loop_eq:
  "Exists_loop clk i (k # keys) n s =
     Exists_loop clk (Suc i) keys (if visible (clk i) s k then n + 1 else n)
       (snd (store_Get (clk i) k s))"
  unfolding Exists_step [symmetric] by (auto simp: case_prod_beta)

text \<open>
  EXISTS. With a clock that does not run backwards, \<open>Exists\<close> counts the arguments (with
  repetition) that are visible at the moment each is looked up; expired string keys met on
  the way are dropped, which hides nothing from a later lookup.
\<close>

lemma exists_counts:
  assumes "mono clk"
  shows "fst (store_Exists clk keys s)
         = int (card {i. i < length keys \<and> visible (clk i) s (keys ! i)})"
proof -
  have "fst (Exists_loop clk i keys n s) =
      n + int (card {j. j < length keys \<and> visible (clk (i + j)) s (keys ! j)})" for i n s
  proof (induction keys arbitrary: i n s)
    case (Cons k keys)
    let ?s1 = "snd (store_Get (clk i) k s)"
    let ?B = "{j. j < length keys \<and> visible (clk (Suc i + j)) s (keys ! j)}"
    have v: "visible (clk (Suc (i + j))) ?s1 k' = visible (clk (Suc (i + j))) s k'" for j k'
      using assms by (intro Get_visible) (auto simp: mono_def)
    have "{j. j < length (k # keys) \<and> visible (clk (i + j)) s ((k # keys) ! j)} =
        (if visible (clk i) s k then {0} else {}) \<union> Suc ` ?B"
      by (auto simp: image_iff less_Suc_eq_0_disj)
    moreover have "card ((if visible (clk i) s k then {0} else {}) \<union> Suc ` ?B)
        = (if visible (clk i) s k then 1 else 0) + card ?B"
      by (subst card_Un_disjoint) (auto simp: card_image)
    ultimately show ?case
      using Cons.IH [of "Suc i" _ ?s1] by (simp add: Exists_loop_eq v del: Exists_loop.simps)
  qed simp
  then show ?thesis by (simp add: store_Exists_def)
qed

lemma exists_counts_witness:
  "fst (store_Exists int [''a'', ''b'', ''a''] (store_step (OpSet 0 ''a'' ''x'' 0) store_New)) = 2"
  using exists_counts [of int "[''a'', ''b'', ''a'']" "store_step (OpSet 0 ''a'' ''x'' 0) store_New"]
  by (simp add: mono_def store_Exists_def store_Set_def store_New_def checkMemoryLocked_def
      store_Get_def get_lookup_def isExpired_def)

end
