(* ===== verification/Kv_Contracts.thy ===== *)
theory Kv_Contracts
  imports Kv_View
begin

text \<open>
  What counters, lists and hashes promise: the effect of each write on the abstract
  keyspace with its reply, and the reads \<open>LRange\<close> and \<open>HGet\<close>.
\<close>

text \<open>A write of \<open>n\<close> more bytes that the memory ceiling forbids; 0 is no ceiling.\<close>

definition over_ceiling :: "int \<Rightarrow> Store \<Rightarrow> bool" where
  "over_ceiling n s \<longleftrightarrow> 0 < maxMemoryBytes s \<and> maxMemoryBytes s < approxMemoryBytesLocked s + n"

lemma check_over: "checkMemoryLocked n s = (if over_ceiling n s then Some ErrOOM else None)"
  by (auto simp: checkMemoryLocked_def over_ceiling_def)

section \<open>Counters\<close>

text \<open>The number a counter operation starts from: 0 for a key that is missing or expired.\<close>

definition counter_base :: "int \<Rightarrow> string \<Rightarrow> Store \<Rightarrow> int option" where
  "counter_base now key s =
     (case ks_str (view s) key of
        None \<Rightarrow> Some 0
      | Some (v, x) \<Rightarrow> if alive now x then atoi v else Some 0)"

definition old_expiry :: "string \<Rightarrow> Store \<Rightarrow> gotime" where
  "old_expiry key s = (case ks_str (view s) key of None \<Rightarrow> ZeroTime | Some (v, x) \<Rightarrow> x)"

lemma IncrBy_eq:
  "store_IncrBy now key delta s =
     (case counter_base now key s of
        None \<Rightarrow> Inl ErrNotInteger
      | Some n \<Rightarrow>
          (case checkMemoryLocked (int (length key + length (itoa (wrap64 (n + delta))))) s of
             Some err \<Rightarrow> Inl err
           | None \<Rightarrow> Inr (wrap64 (n + delta), s\<lparr>data := AList.update key
                 \<lparr>Value = itoa (wrap64 (n + delta)), ExpiresAt = old_expiry key s\<rparr> (data s)\<rparr>)))"
  by (auto simp: store_IncrBy_def counter_base_def old_expiry_def view_def Let_def
      isExpired_alive split: option.splits)

lemma view_IncrBy [view_simps]:
  "store_IncrBy now key delta s = Inr (n, s') \<Longrightarrow>
     view s' = (view s)\<lparr>ks_str := (ks_str (view s))(key \<mapsto> (itoa n, old_expiry key s))\<rparr>"
  by (auto simp: IncrBy_eq view_def fun_eq_iff split: option.splits)

lemma IncrBy_base: "store_IncrBy now key delta s = Inr (n, s') \<Longrightarrow>
    \<exists>b. counter_base now key s = Some b \<and> n = wrap64 (b + delta)"
  by (auto simp: IncrBy_eq split: option.splits)

text \<open>
  C28: INCRBY, every branch. The counter starts from the integer stored at the key, or from
  0 if there is none or it has expired; a value that is not a 64-bit integer is refused, a
  write over the memory ceiling is refused, and otherwise the reply is the 64-bit wrapped sum
  and the key holds its decimal digits, with the expiry it had before.
\<close>

theorem incrBy_correct:
  "case store_IncrBy now key delta s of
     Inl ErrNotInteger \<Rightarrow> counter_base now key s = None
   | Inl ErrOOM \<Rightarrow> (\<exists>b. counter_base now key s = Some b
       \<and> over_ceiling (int (length key + length (itoa (wrap64 (b + delta))))) s)
   | Inr (n, s') \<Rightarrow> (\<exists>b. counter_base now key s = Some b \<and> n = wrap64 (b + delta) \<and> int64 n
       \<and> \<not> over_ceiling (int (length key + length (itoa n))) s
       \<and> view s' = (view s)\<lparr>ks_str := (ks_str (view s))(key \<mapsto> (itoa n, old_expiry key s))\<rparr>)"
proof (cases "counter_base now key s")
  case None
  then show ?thesis by (simp add: IncrBy_eq)
next
  case (Some b)
  show ?thesis
  proof (cases "store_IncrBy now key delta s")
    case (Inl e)
    with Some show ?thesis by (auto simp: IncrBy_eq check_over split: option.splits if_splits)
  next
    case (Inr p)
    obtain n s' where p: "p = (n, s')" by (cases p)
    have "\<not> over_ceiling (int (length key + length (itoa n))) s"
      using Inr p Some by (auto simp: IncrBy_eq check_over split: if_splits)
    with Inr p view_IncrBy IncrBy_base show ?thesis by fastforce
  qed
qed

fun incr_all :: "int \<Rightarrow> string \<Rightarrow> int list \<Rightarrow> Store \<Rightarrow> Store" where
  "incr_all now key [] s = s"
| "incr_all now key (d # ds) s = incr_all now key ds (store_step (OpIncrBy now key d) s)"

lemma counter_base_after:
  assumes "store_IncrBy now key delta s = Inr (n, s')" "alive now (old_expiry key s)"
  shows "counter_base now key s' = Some n" "old_expiry key s' = old_expiry key s"
proof -
  have "int64 n" using IncrBy_base [OF assms(1)] by auto
  with view_IncrBy [OF assms(1)] assms(2)
  show "counter_base now key s' = Some n" "old_expiry key s' = old_expiry key s"
    by (auto simp: counter_base_def old_expiry_def)
qed

text \<open>
  A counter adds up. With no memory ceiling, any sequence of increments and decrements
  of a live counter leaves it at the start value plus their sum, wrapped to 64 bits; the
  order of the operations does not matter and no update is lost.
\<close>

lemma counter_adds_up:
  assumes "maxMemoryBytes s \<le> 0" "alive now (old_expiry key s)" "counter_base now key s = Some b"
    "int64 b"
  shows "counter_base now key (incr_all now key ds s) = Some (wrap64 (b + sum_list ds))"
  using assms
proof (induction ds arbitrary: s b)
  case (Cons d ds)
  obtain s' where s': "store_IncrBy now key d s = Inr (wrap64 (b + d), s')"
    using Cons.prems by (auto simp: IncrBy_eq checkMemoryLocked_def)
  then have step: "store_step (OpIncrBy now key d) s = s'" by simp
  have "maxMemoryBytes s' \<le> 0"
    using maxMemory_step [of "OpIncrBy now key d" s] Cons.prems(1)
    by (simp add: step del: maxMemory_step store_step.simps)
  then have "counter_base now key (incr_all now key ds s')
      = Some (wrap64 (wrap64 (b + d) + sum_list ds))"
    using counter_base_after [OF s'] Cons.prems(2) by (intro Cons.IH) auto
  then show ?case
    unfolding incr_all.simps step using wrap64_add_right [of "sum_list ds" "b + d"]
    by (simp add: algebra_simps)
qed simp

lemma counter_adds_up_witness:
  "counter_base 0 ''c'' (incr_all 0 ''c'' [5, -2, 40] store_New) = Some 43"
  using counter_adds_up [of store_New 0 "''c''" 0 "[5, -2, 40]"]
  by (simp add: store_New_def old_expiry_def counter_base_def view_def alive_def int64_def)

text \<open>
  An increment of an expired key is lost. The reply is the delta, as for a fresh
  counter, but the new value is stored with the old expiry, so the very next \<open>Get\<close> answers
  that the key does not exist.
\<close>

lemma incr_of_expired_is_lost:
  assumes "maxMemoryBytes s \<le> 0" "map_of (data s) key = Some e" "isExpired now e" "now \<le> now'"
  shows "\<exists>s'. store_IncrBy now key delta s = Inr (wrap64 delta, s')
              \<and> fst (store_Get now' key s') = None"
proof -
  have x: "\<not> alive now (ExpiresAt e)" "\<not> alive now' (ExpiresAt e)"
    using assms(3,4) alive_mono by (auto simp: isExpired_alive)
  then have "counter_base now key s = Some 0" and o: "old_expiry key s = ExpiresAt e"
    using assms(2) by (auto simp: counter_base_def view_def old_expiry_def)
  then obtain s' where s': "store_IncrBy now key delta s = Inr (wrap64 delta, s')"
    using assms(1) by (auto simp: IncrBy_eq checkMemoryLocked_def)
  then have "fst (store_Get now' key s') = None"
    using x o by (simp add: Get_result view_IncrBy)
  with s' show ?thesis by blast
qed

lemma incr_of_expired_is_lost_witness:
  "\<exists>s'. store_IncrBy 100 ''c'' 1 (store_step (OpSet 0 ''c'' ''7'' 50) store_New) = Inr (1, s')
        \<and> fst (store_Get 100 ''c'' s') = None"
  using incr_of_expired_is_lost [of "store_step (OpSet 0 ''c'' ''7'' 50) store_New" "''c''"
      "\<lparr>Value = ''7'', ExpiresAt = UnixNano 50\<rparr>" 100 100 1]
  by (simp add: store_Set_def store_New_def checkMemoryLocked_def isExpired_def int64_def)

section \<open>Lists\<close>

lemma LPush_eq:
  "store_LPush key vals s =
     (case checkMemoryLocked (int (length key) + sumLen vals) s of Some err \<Rightarrow> Inl err
      | None \<Rightarrow> Inr (int (length (rev vals @ get_list key s)),
                  s\<lparr>lists := AList.update key (rev vals @ get_list key s) (lists s)\<rparr>))"
  by (simp add: store_LPush_def Let_def split: option.splits)

lemma view_lists: "view (s\<lparr>lists := AList.update key l (lists s)\<rparr>)
    = (view s)\<lparr>ks_list := (ks_list (view s))(key \<mapsto> l)\<rparr>"
  by (simp add: view_def)

lemma get_list_update [simp]:
  "get_list k (s\<lparr>lists := AList.update key l (lists s)\<rparr>) = (if k = key then l else get_list k s)"
  by (simp add: get_list_def)

text \<open>
  C30: LPUSH and RPUSH. A push is refused exactly if it would lift the memory estimate over the ceiling; otherwise it stores the old list with the new values in
  front (each value pushed in turn, so in reverse order) or behind (in order), replies with
  the new length, and changes nothing else of the keyspace.
\<close>

theorem push_correct:
  "(case store_LPush key vals s of Inl e \<Rightarrow> e = ErrOOM \<and> over_ceiling (int (length key) + sumLen vals) s
    | Inr (n, s') \<Rightarrow> \<not> over_ceiling (int (length key) + sumLen vals) s \<and> n = int (length (get_list key s) + length vals)
        \<and> view s' = (view s)\<lparr>ks_list := (ks_list (view s))(key \<mapsto> rev vals @ get_list key s)\<rparr>)
   \<and> (case store_RPush key vals s of Inl e \<Rightarrow> e = ErrOOM \<and> over_ceiling (int (length key) + sumLen vals) s
    | Inr (n, s') \<Rightarrow> \<not> over_ceiling (int (length key) + sumLen vals) s \<and> n = int (length (get_list key s) + length vals)
        \<and> view s' = (view s)\<lparr>ks_list := (ks_list (view s))(key \<mapsto> get_list key s @ vals)\<rparr>)"
  by (auto simp: LPush_eq store_RPush_def Let_def view_lists check_over)

lemma goslice_ok:
  "0 \<le> lo \<Longrightarrow> lo \<le> hi \<Longrightarrow> hi \<le> int (length xs) \<Longrightarrow>
     goslice xs lo hi = Returns (take (nat hi - nat lo) (drop (nat lo) xs))"
  by (simp add: goslice_def)

lemma take_drop_filter:
  "hi \<le> length xs \<Longrightarrow> take (hi - lo) (drop lo xs) = map ((!) xs) (filter (\<lambda>i. lo \<le> i \<and> i < hi) [0..<length xs])"
proof -
  assume hi: "hi \<le> length xs"
  have "filter (\<lambda>i. lo \<le> i \<and> i < hi) [0..<length xs] = [lo..<hi]"
  proof (rule sorted_distinct_set_unique)
    show "set (filter (\<lambda>i. lo \<le> i \<and> i < hi) [0..<length xs]) = set [lo..<hi]"
      using hi by auto
  qed (simp_all add: sorted_wrt_filter)
  moreover have "take (hi - lo) (drop lo xs) = map ((!) xs) [lo..<hi]"
    using hi by (intro nth_equalityI) auto
  ultimately show ?thesis by simp
qed

lemma LRange_filter:
  "store_LRange key start stop s =
     (let l = get_list key s; n = int (length l)
      in Returns (map ((!) l)
           (filter (\<lambda>i. (if start < 0 then n + start else start) \<le> int i
                      \<and> int i \<le> (if stop < 0 then n + stop else stop)) [0..<length l])))"
proof -
  define l n a b where "l = get_list key s" and "n = int (length l)"
    and "a = normalizeIndex start n" and "b = normalizeIndex stop n"
  define lo hi where "lo = max a 0" and "hi = min b (n - 1)"
  let ?R = "map ((!) l) (filter (\<lambda>i. a \<le> int i \<and> int i \<le> b) [0..<length l])"
  have eq: "(a \<le> int i \<and> int i \<le> b) \<longleftrightarrow> nat lo \<le> i \<and> i < nat (hi + 1)"
    if "i < length l" for i
    using that by (auto simp: lo_def hi_def n_def)
  have R: "?R = map ((!) l) (filter (\<lambda>i. nat lo \<le> i \<and> i < nat (hi + 1)) [0..<length l])"
    by (rule arg_cong [where f = "map ((!) l)"], rule filter_cong) (auto simp: eq)
  have "store_LRange key start stop s =
      (if n = 0 then Returns [] else if lo > hi \<or> lo \<ge> n then Returns []
       else goslice l lo (hi + 1))"
    by (auto simp: store_LRange_def Let_def l_def n_def a_def b_def lo_def hi_def)
  also have "\<dots> = Returns ?R"
  proof (cases "n = 0 \<or> lo > hi \<or> lo \<ge> n")
    case True
    have "filter (\<lambda>i. nat lo \<le> i \<and> i < nat (hi + 1)) [0..<length l] = []"
      using True by (auto simp: filter_empty_conv n_def lo_def hi_def)
    with True R show ?thesis by auto
  next
    case False
    then have "0 \<le> lo" "lo \<le> hi + 1" "hi + 1 \<le> n" by (auto simp: lo_def hi_def)
    moreover from this have "nat (hi + 1) \<le> length l" by (simp add: n_def)
    ultimately show ?thesis
      using False R take_drop_filter [of "nat (hi + 1)" l "nat lo"]
      by (simp add: goslice_ok n_def)
  qed
  finally show ?thesis by (simp only: Let_def l_def n_def a_def b_def normalizeIndex_def)
qed

text \<open>
  C31: LRANGE never panics and returns, in order, exactly the elements whose index lies
  between the two bounds, a negative bound counting from the end of the list.
\<close>

theorem lrange_correct:
  "store_LRange key start stop s =
     (let l = get_list key s; n = int (length l)
      in Returns (map ((!) l)
           (filter (\<lambda>i. (if start < 0 then n + start else start) \<le> int i
                      \<and> int i \<le> (if stop < 0 then n + stop else stop)) [0..<length l])))"
  by (rule LRange_filter)

section \<open>Hashes\<close>

definition get_hash :: "string \<Rightarrow> Store \<Rightarrow> hash" where
  "get_hash key s = (case map_of (hashes s) key of None \<Rightarrow> [] | Some h \<Rightarrow> h)"

definition fields_of :: "string \<Rightarrow> Store \<Rightarrow> string \<Rightarrow> string option" where
  "fields_of key s = (case ks_hash (view s) key of None \<Rightarrow> Map.empty | Some m \<Rightarrow> m)"

lemma fields_of_get_hash: "fields_of key s = map_of (get_hash key s)"
  by (simp add: fields_of_def get_hash_def view_def split: option.splits)

lemma HSet_eq:
  "store_HSet key pairs s =
     (case checkMemoryLocked (int (length key) + sumLen pairs) s of Some err \<Rightarrow> Inl err
      | None \<Rightarrow> Inr (fst (HSet_loop pairs 0 (get_hash key s)),
          s\<lparr>hashes := AList.update key (snd (HSet_loop pairs 0 (get_hash key s))) (hashes s)\<rparr>))"
  by (simp add: store_HSet_def get_hash_def case_prod_beta split: option.splits)

lemma HSet_loop_count:
  "fst (HSet_loop ps n h) = n + int (card (fst ` set (pairsOf ps) - dom (map_of h)))"
proof (induction ps n h rule: HSet_loop.induct)
  case (1 f v ps n h)
  let ?A = "fst ` set (pairsOf ps)"
  have "insert f ?A - dom (map_of h) =
      (if map_of h f = None then insert f (?A - insert f (dom (map_of h)))
       else ?A - insert f (dom (map_of h)))" by auto
  moreover have "finite (?A - insert f (dom (map_of h)))" by simp
  moreover have "dom (map_of (AList.update f v h)) = insert f (dom (map_of h))" by simp
  ultimately show ?case using 1 by (simp del: gm.get_put dom_fun_upd insert_Diff1)
qed auto

lemma HSet_loop_get: "map_of (snd (HSet_loop ps n h)) = map_of h ++ map_of (rev (pairsOf ps))"
  by (simp add: HSet_loop_map gm.get_puts)

lemma view_hashes: "view (s\<lparr>hashes := AList.update key h (hashes s)\<rparr>)
    = (view s)\<lparr>ks_hash := (ks_hash (view s))(key \<mapsto> map_of h)\<rparr>"
  by (auto simp: view_def fun_eq_iff)

lemma view_HSet [view_simps]:
  "store_HSet key pairs s = Inr (n, s') \<Longrightarrow>
     view s' = (view s)\<lparr>ks_hash := (ks_hash (view s))
                 (key \<mapsto> fields_of key s ++ map_of (rev (pairsOf pairs)))\<rparr>"
  by (auto simp: HSet_eq view_hashes HSet_loop_get fields_of_get_hash split: option.splits)

text \<open>
  C32: HSET. A write is refused exactly if it would lift the memory estimate over the ceiling; otherwise it overlays the hash with the field/value pairs, the
  last value given for a field winning, replies with the number of fields the hash did not
  have before, and changes no other key.
\<close>

theorem hset_correct:
  "case store_HSet key pairs s of
     Inl e \<Rightarrow> e = ErrOOM \<and> over_ceiling (int (length key) + sumLen pairs) s
   | Inr (n, s') \<Rightarrow> \<not> over_ceiling (int (length key) + sumLen pairs) s
       \<and> n = int (card (fst ` set (pairsOf pairs) - dom (fields_of key s)))
       \<and> view s' = (view s)\<lparr>ks_hash := (ks_hash (view s))
            (key \<mapsto> fields_of key s ++ map_of (rev (pairsOf pairs)))\<rparr>"
proof (cases "store_HSet key pairs s")
  case (Inl e)
  then show ?thesis by (auto simp: HSet_eq check_over split: if_splits)
next
  case (Inr p)
  obtain n s' where p: "p = (n, s')" by (cases p)
  with Inr have "n = int (card (fst ` set (pairsOf pairs) - dom (fields_of key s)))"
    by (auto simp: HSet_eq HSet_loop_count fields_of_get_hash split: option.splits)
  moreover have "\<not> over_ceiling (int (length key) + sumLen pairs) s"
    using Inr p by (auto simp: HSet_eq check_over split: if_splits)
  ultimately show ?thesis using Inr p view_HSet by simp
qed

lemma HGet_fields: "store_HGet key f s = fields_of key s f"
  by (auto simp: store_HGet_def fields_of_def view_def split: option.splits)

lemma HDel_loop_count: "fst (HDel_loop fs n h) = n + int (card (set fs \<inter> dom (map_of h)))"
proof (induction fs arbitrary: n h)
  case (Cons f fs)
  let ?A = "set fs \<inter> dom (map_of (AList.delete f h))"
  have "set (f # fs) \<inter> dom (map_of h) =
      (if map_of h f = None then set fs \<inter> dom (map_of h) else insert f ?A)" by auto
  moreover have "f \<notin> ?A" "finite ?A" by auto
  ultimately show ?case
    by (simp add: Cons.IH del: set_simps gm.get_del dom_fun_upd)
qed simp

lemma HDel_loop_get: "map_of (snd (HDel_loop fs n h)) = map_of h |` (- set fs)"
  by (simp add: HDel_loop_map gm.get_dels)

lemma HDel_view:
  "view (snd (store_HDel k fs s)) =
     (view s)\<lparr>ks_hash := (ks_hash (view s))(k :=
        (case ks_hash (view s) k of None \<Rightarrow> None
         | Some m \<Rightarrow> if dom m \<subseteq> set fs then None else Some (m |` (- set fs))))\<rparr>"
proof (cases "map_of (hashes s) k")
  case None
  then show ?thesis by (auto simp: store_HDel_def view_def fun_eq_iff)
next
  case (Some h)
  define h' where "h' = snd (HDel_loop fs 0 h)"
  have h': "map_of h' = map_of h |` (- set fs)" by (simp add: h'_def HDel_loop_get)
  have e: "h' = [] \<longleftrightarrow> dom (map_of h) \<subseteq> set fs"
  proof -
    have "h' = [] \<longleftrightarrow> dom (map_of h') = {}" by (cases h') auto
    also have "\<dots> \<longleftrightarrow> dom (map_of h) \<subseteq> set fs" by (auto simp: h')
    finally show ?thesis .
  qed
  have "snd (store_HDel k fs s) =
      (if h' = [] then s\<lparr>hashes := AList.delete k (hashes s)\<rparr>
       else s\<lparr>hashes := AList.update k h' (hashes s)\<rparr>)"
    using Some by (simp add: store_HDel_def h'_def case_prod_beta)
  then show ?thesis using Some e h' by (auto simp: view_def fun_eq_iff)
qed

text \<open>
  HDEL and HGET. \<open>HDel\<close> removes exactly the named fields, replies with the number of
  different fields it removed, drops the key when no field is left, and changes no other key;
  \<open>HGet\<close> reads the field of the hash, and answers nothing for a field just removed.
\<close>

lemma hdel_correct:
  "fst (store_HDel key fs s) = int (card (set fs \<inter> dom (fields_of key s)))
   \<and> view (snd (store_HDel key fs s)) =
       (view s)\<lparr>ks_hash := (ks_hash (view s))(key :=
          (case ks_hash (view s) key of None \<Rightarrow> None
           | Some h \<Rightarrow> if dom h \<subseteq> set fs then None else Some (h |` (- set fs))))\<rparr>
   \<and> store_HGet key' f s = fields_of key' s f
   \<and> store_HGet key' f (snd (store_HDel key fs s)) =
       (if key' = key \<and> f \<in> set fs then None else store_HGet key' f s)"
proof (intro conjI)
  show "fst (store_HDel key fs s) = int (card (set fs \<inter> dom (fields_of key s)))"
    by (simp add: store_HDel_def case_prod_beta HDel_loop_count fields_of_def view_def
        split: option.split)
  show "store_HGet key' f (snd (store_HDel key fs s)) =
      (if key' = key \<and> f \<in> set fs then None else store_HGet key' f s)"
    by (cases "ks_hash (view s) key")
      (auto simp: HGet_fields fields_of_def HDel_view restrict_map_def
        domIff subset_iff eq_commute [of None])
qed (simp_all only: HDel_view HGet_fields)

end
