(* ===== verification/Kv_Enumeration.thy ===== *)
theory Kv_Enumeration
  imports Kv_Contracts "HOL-Library.Multiset"
begin

text \<open>
  \<open>Keys\<close> and \<open>Scan\<close>: what one call returns, that a client which follows the cursor sees
  every visible key, and the one argument on which \<open>Scan\<close> panics.
\<close>

section \<open>Keys\<close>

lemma keys_filter:
  "okmap m \<Longrightarrow> fst ` {x \<in> set m. P x} = {k. \<exists>v. map_of m k = Some v \<and> P (k, v)}"
  by (force simp: okmap_Some)

lemma fst_keys: "fst ` set m = {k. \<exists>v. map_of m k = Some v}"
  by (auto simp flip: dom_map_of_conv_image_fst)

text \<open>
  C33: KEYS. The answer holds exactly the visible keys that match the pattern, whatever
  order the maps are enumerated in; a key held under several types appears once per type.
\<close>

theorem keys_correct:
  assumes "store_ok s"
  shows "set (store_Keys now pattern s) = {k. visible now s k \<and> matchGlob pattern k}"
  using assms by (auto simp: store_Keys_def visible_def view_def alive_def not_less keys_filter
      fst_keys store_okD split: option.splits)

theorem keys_correct_witness:
  "store_ok (store_step (OpRPush ''q'' [''x'']) store_New)
   \<and> set (store_Keys 0 ''*'' (store_step (OpRPush ''q'' [''x'']) store_New)) = {''q''}"
proof -
  let ?s = "store_step (OpRPush ''q'' [''x'']) store_New"
  have ok: "store_ok ?s"
    by (simp add: store_RPush_def store_New_def checkMemoryLocked_def get_list_def store_ok_def
        okmap_def)
  have "{k. visible 0 ?s k \<and> matchGlob ''*'' k} = {''q''}"
    by (auto simp: visible_def view_def matchGlob_def store_RPush_def store_New_def
        checkMemoryLocked_def get_list_def split: if_splits)
  then show ?thesis using ok keys_correct [OF ok, of 0 "''*''"] by simp
qed

section \<open>Scan\<close>

abbreviation scan_keys :: "int \<Rightarrow> Store \<Rightarrow> string list" where
  "scan_keys now s \<equiv> sort (scan_all now s)"

lemma length_sorted_scan [simp]: "length (scan_keys now s) = length (scan_all now s)"
  by simp

text \<open>One page, when the end of the page is representable.\<close>

lemma Scan_page:
  assumes "0 \<le> cursor" "cursor < int (length (scan_all now s))" "0 < cnt"
    "int64 (cursor + cnt)"
  shows "store_Scan now cursor pattern cnt s =
     Returns (if cursor + cnt \<ge> int (length (scan_all now s)) then 0 else cursor + cnt,
              filter (matchGlob pattern) (take (nat cnt) (drop (nat cursor) (scan_keys now s))))"
proof -
  let ?n = "int (length (scan_all now s))"
  define e where "e = (if cursor + cnt > ?n then ?n else cursor + cnt)"
  have e: "cursor \<le> e" "e \<le> ?n" "e \<ge> ?n \<longleftrightarrow> cursor + cnt \<ge> ?n"
    "\<not> e \<ge> ?n \<Longrightarrow> e = cursor + cnt" using assms by (auto simp: e_def)
  have t: "take (nat e - nat cursor) (drop (nat cursor) (scan_keys now s))
      = take (nat cnt) (drop (nat cursor) (scan_keys now s))"
  proof (cases "cursor + cnt > ?n")
    case True
    then have "length (drop (nat cursor) (scan_keys now s)) \<le> nat cnt"
      "length (drop (nat cursor) (scan_keys now s)) \<le> nat e - nat cursor"
      using assms by (auto simp: e_def)
    then show ?thesis by simp
  next
    case False
    then have "nat e - nat cursor = nat cnt" using assms by (simp add: e_def)
    then show ?thesis by simp
  qed
  have g: "goslice (scan_keys now s) cursor e =
      Returns (take (nat cnt) (drop (nat cursor) (scan_keys now s)))"
    using assms(1) e(1,2) t by (simp add: goslice_ok)
  have "store_Scan now cursor pattern cnt s =
      (case goslice (scan_keys now s) cursor e of Panics \<Rightarrow> Panics
       | Returns page \<Rightarrow> Returns (if e \<ge> ?n then 0 else e, filter (matchGlob pattern) page))"
    using assms by (auto simp: store_Scan_def Let_def e_def split: outcome.split)
  then show ?thesis using e by (simp add: g)
qed

text \<open>
  The client's loop: start at cursor 0 and go on with the cursor of each reply until it is 0
  again; \<open>fuel\<close> bounds the number of calls.
\<close>

fun scan_loop :: "nat \<Rightarrow> int \<Rightarrow> int \<Rightarrow> string \<Rightarrow> int \<Rightarrow> Store \<Rightarrow> string list option" where
  "scan_loop 0 now cursor pattern cnt s = None"
| "scan_loop (Suc fuel) now cursor pattern cnt s =
     (case store_Scan now cursor pattern cnt s of
        Panics \<Rightarrow> None
      | Returns (next, keys) \<Rightarrow>
          (if next = 0 then Some keys
           else map_option (\<lambda>ks. keys @ ks) (scan_loop fuel now next pattern cnt s)))"

lemma scan_loop_from:
  assumes "0 < cnt" "int64 (int (length (scan_all now s)) + cnt)"
    "0 \<le> cursor" "cursor < int (length (scan_all now s))"
    "length (scan_all now s) - nat cursor \<le> fuel"
  shows "scan_loop fuel now cursor pattern cnt s
         = Some (filter (matchGlob pattern) (drop (nat cursor) (scan_keys now s)))"
  using assms(3-5)
proof (induction fuel arbitrary: cursor)
  case (Suc fuel)
  let ?n = "int (length (scan_all now s))" and ?all = "scan_keys now s"
  have i: "int64 (cursor + cnt)" using assms(1,2) Suc.prems by (auto simp: int64_def)
  note page = Scan_page [OF Suc.prems(1,2) assms(1) i, of pattern]
  show ?case
  proof (cases "cursor + cnt \<ge> ?n")
    case True
    then have "length (drop (nat cursor) ?all) \<le> nat cnt" using Suc.prems by auto
    with True page show ?thesis by simp
  next
    case False
    have "scan_loop fuel now (cursor + cnt) pattern cnt s
        = Some (filter (matchGlob pattern) (drop (nat (cursor + cnt)) ?all))"
      using False Suc.prems assms(1) by (intro Suc.IH) auto
    moreover have "drop (nat (cursor + cnt)) ?all = drop (nat cnt) (drop (nat cursor) ?all)"
      using Suc.prems assms(1) by (simp add: nat_add_distrib add.commute)
    moreover have "cursor + cnt \<noteq> 0" using Suc.prems assms(1) by simp
    moreover have "take (nat cnt) (drop (nat cursor) ?all) @ drop (nat cnt) (drop (nat cursor) ?all)
        = drop (nat cursor) ?all" by (rule append_take_drop_id)
    ultimately show ?thesis
      using False page by (simp del: drop_drop flip: filter_append)
  qed
qed simp

text \<open>
  Under how many types a key is held: a string counts until just before its expiry, which is a
  nanosecond less than \<open>visible\<close> grants it.
\<close>

definition types_held :: "int \<Rightarrow> Store \<Rightarrow> string \<Rightarrow> nat" where
  "types_held now s k =
     (case ks_str (view s) k of Some (v, ZeroTime) \<Rightarrow> 1 | Some (v, UnixNano t) \<Rightarrow> if now < t then 1 else 0 | None \<Rightarrow> 0)
     + (if ks_list (view s) k = None then 0 else 1) + (if ks_hash (view s) k = None then 0 else 1)"

lemma count_keys: "okmap m \<Longrightarrow> count (mset (map fst m)) k = (if map_of m k = None then 0 else 1)"
  by (auto simp: okmap_def count_mset_0_iff distinct_count_atmost_1 map_of_eq_None_iff simp flip: set_map)

lemma count_alive:
  "okmap m \<Longrightarrow> count (mset (map fst (filter P m))) k =
     (case map_of m k of None \<Rightarrow> 0 | Some v \<Rightarrow> if P (k, v) then 1 else 0)"
proof (induction m)
  case (Cons x m)
  obtain a b where x: "x = (a, b)" by (cases x)
  have "map_of m a = None" using Cons.prems x by (simp add: okmap_def map_of_eq_None_iff)
  with Cons x show ?case by (auto simp: okmap_def split: option.split)
qed simp

lemma count_scan_all:
  assumes "store_ok s"
  shows "count (mset (scan_all now s)) k = types_held now s k"
proof -
  have "count (mset (scan_all now s)) k =
      count (mset (map fst (filter (\<lambda>(k, e). IsZero (ExpiresAt e) \<or> UnixNano now < ExpiresAt e) (data s)))) k
      + count (mset (map fst (lists s))) k + count (mset (map fst (hashes s))) k"
    by (simp add: scan_all_def)
  also have "\<dots> = types_held now s k"
    unfolding count_alive [OF store_okD(1) [OF assms]] count_keys [OF store_okD(2) [OF assms]]
      count_keys [OF store_okD(3) [OF assms]]
    by (auto simp: types_held_def view_def IsZero_iff split: option.split gotime.split)
  finally show ?thesis .
qed

lemma scan_all_KeyCount: "int (length (scan_all now s)) \<le> store_KeyCount s"
  by (simp add: scan_all_def store_KeyCount_def)

lemma scan_loop_default: "cnt \<le> 0 \<Longrightarrow> scan_loop n now c pattern cnt s = scan_loop n now c pattern 10 s"
proof (induction n arbitrary: c)
  case (Suc n)
  have "store_Scan now c pattern cnt s = store_Scan now c pattern 10 s" using Suc.prems by (simp add: store_Scan_def)
  with Suc show ?case by (simp split: outcome.split)
qed simp

lemma scan_loop_all:
  assumes "0 < cnt" "int64 (int (length (scan_all now s)) + cnt)" "length (scan_all now s) < n"
  shows "scan_loop n now 0 pattern cnt s = Some (filter (matchGlob pattern) (sort (scan_all now s)))"
proof (cases "scan_all now s = []")
  case True
  then show ?thesis using assms(3) by (cases n) (simp_all add: store_Scan_def Let_def)
next
  case False
  then show ?thesis using scan_loop_from [OF assms(1,2), of 0 n pattern] assms(3) by simp
qed

text \<open>
  C34: A full SCAN is complete. On a keyspace that does not change meanwhile, following the
  cursors from 0 ends after at most one call more than there are keys, without a panic, and the pages together
  list, in byte order, every key that matches and is held, exactly as often as there are types it is held under
  (a string until just before its expiry): so none is missed, and each comes once unless it is held under several
  types, which the store allows. The page size, 10 if the client gives none or a negative one, only has to leave
  room below the largest 64-bit integer.
\<close>

theorem scan_complete:
  assumes "store_ok s" "int64 (store_KeyCount s + (if cnt \<le> 0 then 10 else cnt))"
  shows "\<exists>ks. scan_loop (Suc (nat (store_KeyCount s))) now 0 pattern cnt s = Some ks \<and> sorted ks
     \<and> (\<forall>k. count (mset ks) k = (if matchGlob pattern k then types_held now s k else 0))
     \<and> ((\<forall>k. types_held now s k \<le> 1) \<longrightarrow> distinct ks)"
proof -
  let ?all = "sort (scan_all now s)" and ?p = "if cnt \<le> 0 then 10 else cnt"
  let ?n = "Suc (nat (store_KeyCount s))"
  have p: "0 < ?p" by simp
  have "int (length (scan_all now s)) + ?p \<le> store_KeyCount s + ?p" "0 \<le> int (length (scan_all now s)) + ?p"
    using scan_all_KeyCount by simp_all
  then have i: "int64 (int (length (scan_all now s)) + ?p)"
    using assms(2) unfolding int64_def by linarith
  have "length (scan_all now s) < ?n" using scan_all_KeyCount [of now s] by linarith
  from scan_loop_all [OF p i this]
  have l: "scan_loop ?n now 0 pattern cnt s = Some (filter (matchGlob pattern) ?all)"
    using scan_loop_default [of cnt ?n now 0 pattern s] by (cases "cnt \<le> 0") (simp_all del: scan_loop.simps)
  have c: "count (mset (filter (matchGlob pattern) ?all)) k = (if matchGlob pattern k then types_held now s k else 0)" for k
    using count_scan_all [OF assms(1), of now k] by simp
  moreover have "distinct (filter (matchGlob pattern) ?all)" if "\<forall>k. types_held now s k \<le> 1"
    unfolding distinct_count_atmost_1
  proof
    fix k
    let ?ks = "filter (matchGlob pattern) ?all"
    have "count (mset ?ks) k \<le> 1" unfolding c using that by simp
    moreover have "k \<in> set ?ks \<longleftrightarrow> 0 < count (mset ?ks) k" by (simp only: count_greater_zero_iff set_mset_mset)
    ultimately show "count (mset ?ks) k = (if k \<in> set ?ks then 1 else 0)" by (cases "count (mset ?ks) k") (auto simp del: mset_filter)
  qed
  moreover have "sorted (filter (matchGlob pattern) ?all)" by (metis sorted_filter list.map_ident sorted_sort)
  ultimately show ?thesis using l by (intro exI [of _ "filter (matchGlob pattern) ?all"]) blast
qed

theorem scan_complete_witness:
  "\<exists>ks. scan_loop 4 0 0 ''a*'' 1 (fold store_step
      [OpSet 0 ''b'' ''1'' 0, OpSet 0 ''a2'' ''2'' 0, OpRPush ''a1'' [''x'']] store_New) = Some ks
    \<and> sorted ks \<and> count (mset ks) ''a1'' = 1 \<and> count (mset ks) ''a2'' = 1 \<and> count (mset ks) ''b'' = 0"
proof -
  let ?s = "fold store_step
      [OpSet 0 ''b'' ''1'' 0, OpSet 0 ''a2'' ''2'' 0, OpRPush ''a1'' [''x'']] store_New"
  have s: "?s = store_New\<lparr>data := [(''b'', \<lparr>Value = ''1'', ExpiresAt = ZeroTime\<rparr>), (''a2'', \<lparr>Value = ''2'', ExpiresAt = ZeroTime\<rparr>)],
      lists := [(''a1'', [''x''])]\<rparr>"
    by (simp add: store_Set_def store_RPush_def store_New_def checkMemoryLocked_def get_list_def)
  have ok: "store_ok ?s" unfolding s by (simp add: store_ok_def okmap_def store_New_def)
  have n: "store_KeyCount ?s = 3" unfolding s by (simp add: store_KeyCount_def store_New_def)
  have "int64 (store_KeyCount ?s + (if (1 :: int) \<le> 0 then 10 else 1))" unfolding n by (simp add: int64_def)
  from scan_complete [OF ok this, of 0 "''a*''"]
  obtain ks where ks: "scan_loop 4 0 0 ''a*'' 1 ?s = Some ks" "sorted ks"
    "\<And>k. count (mset ks) k = (if matchGlob ''a*'' k then types_held 0 ?s k else 0)"
    unfolding n by (auto simp: eval_nat_numeral)
  have g: "matchGlob ''a*'' ''a1''" "matchGlob ''a*'' ''a2''" "\<not> matchGlob ''a*'' ''b''" by code_simp+
  have h: "types_held 0 ?s ''a1'' = 1" "types_held 0 ?s ''a2'' = 1"
    unfolding s by (simp_all add: types_held_def view_def store_New_def)
  have "count (mset ks) ''a1'' = 1" "count (mset ks) ''a2'' = 1" "count (mset ks) ''b'' = 0"
    by (simp_all only: ks(3) g h if_True if_False)
  with ks(1,2) show ?thesis by blast
qed

text \<open>The keys \<open>Scan\<close> enumerates are the visible ones, but for keys that expire just now.\<close>

lemma scan_all_set:
  assumes "store_ok s"
  shows "set (scan_all now s) =
    {k. visible now s k} - {k. ks_list (view s) k = None \<and> ks_hash (view s) k = None
          \<and> (\<exists>v. ks_str (view s) k = Some (v, UnixNano now))}"
  using assms by (auto simp: scan_all_def visible_def view_def alive_def keys_filter fst_keys
      store_okD IsZero_iff less_le split: option.splits)

text \<open>
  SCAN can panic. A page size so large that cursor plus count leaves the 64-bit range
  makes the end of the page negative, and the slice expression panics; this happens for
  every non-zero cursor inside the keyspace, and the client chooses both numbers.
\<close>

lemma scan_panics_on_overflow:
  assumes "0 < cursor" "cursor < int (length (scan_all now s))" "int64 cnt"
    "\<not> int64 (cursor + cnt)" "int64 cursor"
  shows "store_Scan now cursor pattern cnt s = Panics"
proof -
  have c: "0 < cnt" "2 ^ 63 \<le> cursor + cnt" "cursor + cnt < 2 ^ 64"
    using assms by (auto simp: int64_def)
  then have "wrap64 (cursor + cnt) = cursor + cnt - 2 ^ 64"
    unfolding wrap64_def by (subst mod_pos_geq) auto
  with c have "wrap64 (cursor + cnt) < 0" by simp
  then show ?thesis using c assms(1,2) by (simp add: store_Scan_def Let_def goslice_def)
qed

lemma scan_panics_on_overflow_witness:
  "store_Scan 0 1 ''*'' 9223372036854775807 (fold store_step
      [OpSet 0 ''b'' ''1'' 0, OpSet 0 ''a'' ''2'' 0] store_New) = Panics"
proof -
  let ?s = "fold store_step [OpSet 0 ''b'' ''1'' 0, OpSet 0 ''a'' ''2'' 0] store_New"
  have "length (scan_all 0 ?s) = 2"
    by (simp add: scan_all_def store_Set_def store_New_def checkMemoryLocked_def)
  then show ?thesis
    using scan_panics_on_overflow [of 1 0 ?s 9223372036854775807 "''*''"] by (simp add: int64_def)
qed

text \<open>
  The cursor is an offset: a key that is there all the time is skipped when an earlier one is
  deleted between two calls, although \<open>SCAN\<close> promises to return such keys.
\<close>

lemma scan_skips_a_key:
  fixes s :: Store
  assumes s: "s = store_New\<lparr>lists := [(''a'', [''x'']), (''b'', [''x'']), (''c'', [''x''])]\<rparr>"
  shows "store_Scan 0 0 ''*'' 2 s = Returns (2, [''a'', ''b''])"
    "store_Scan 0 2 ''*'' 2 (snd (store_Del [''a''] s)) = Returns (0, [])"
    "visible 0 s ''c'' \<and> visible 0 (snd (store_Del [''a''] s)) ''c''"
proof -
  have d: "snd (store_Del [''a''] s) = store_New\<lparr>lists := [(''b'', [''x'']), (''c'', [''x''])]\<rparr>"
    by (simp add: s store_Del_def Del_key_def store_New_def)
  have sc: "sort [''a'', ''b'', ''c''] = [''a'', ''b'', ''c'']" "sort [''b'', ''c''] = [''b'', ''c'']"
    by code_simp+
  show "store_Scan 0 0 ''*'' 2 s = Returns (2, [''a'', ''b''])"
    "store_Scan 0 2 ''*'' 2 (snd (store_Del [''a''] s)) = Returns (0, [])"
    unfolding d unfolding s
    by (simp_all add: store_Scan_def scan_all_def store_New_def sc Let_def goslice_def int64_def matchGlob_def
        numeral_2_eq_2)
  show "visible 0 s ''c'' \<and> visible 0 (snd (store_Del [''a''] s)) ''c''"
    unfolding d unfolding s by (simp add: visible_def view_def)
qed

end
