(* ===== verification/Codec.thy ===== *)
theory Codec
  imports Go_Prelude
begin

text \<open>
  The interface between a log and the encoding of its records: a decoder that takes one
  record off the front of a byte string and leaves the rest.  A log that is a concatenation
  of encodings decodes to the records that were written, and a tail that does not start
  with a record decodes on its own.
\<close>

function decode_all :: "(string \<Rightarrow> ('a \<times> string) option) \<Rightarrow> string \<Rightarrow> 'a list" where
  "decode_all dec s =
     (case dec s of
        None \<Rightarrow> []
      | Some (x, r) \<Rightarrow> if length r < length s then x # decode_all dec r else [])"
  by pat_completeness auto
termination
  by (relation "measure (\<lambda>(dec, s). length s)") auto

declare decode_all.simps [simp del]

lemma decode_all_none: "dec s = None \<Longrightarrow> decode_all dec s = []"
  by (subst decode_all.simps) simp

locale codec =
  fixes enc :: "'a \<Rightarrow> string"
    and dec :: "string \<Rightarrow> ('a \<times> string) option"
    and fit :: "'a \<Rightarrow> bool"
  assumes dec_enc: "fit x \<Longrightarrow> dec (enc x @ r) = Some (x, r)"
    and dec_shorter: "dec s = Some (x, r) \<Longrightarrow> length r < length s"
begin

lemma enc_nonempty: "fit x \<Longrightarrow> enc x \<noteq> []"
  using dec_enc [of x "[]"] dec_shorter by fastforce

lemma decode_all_Cons: "fit x \<Longrightarrow> decode_all dec (enc x @ r) = x # decode_all dec r"
  using enc_nonempty by (subst decode_all.simps) (simp add: dec_enc)

lemma decode_all_append:
  "list_all fit xs \<Longrightarrow> decode_all dec (concat (map enc xs) @ t) = xs @ decode_all dec t"
  by (induction xs) (simp_all add: decode_all_Cons)

lemma decode_all_enc:
  assumes "list_all fit xs" "dec [] = None"
  shows "decode_all dec (concat (map enc xs)) = xs"
  using decode_all_append [OF assms(1), of "[]"] decode_all_none [of dec "[]", OF assms(2)]
  by (simp only: append_Nil2)

text \<open>A record is never a proper prefix of another one.\<close>

lemma enc_inj_prefix: "fit x \<Longrightarrow> fit y \<Longrightarrow> enc x @ r = enc y @ t \<Longrightarrow> x = y \<and> r = t"
  by (metis dec_enc option.inject prod.inject)

end

end
