(* ===== verification/Resp.thy ===== *)
theory Resp
  imports Go_Strings Codec
begin

text \<open>
  The wire format, \<open>resp/parser.go\<close> and \<open>resp/writer.go\<close>.  A reader is the bytes still to
  come before the end of the stream; a writer is the bytes written so far.
\<close>

section \<open>Values and results\<close>

datatype Value = MkValue (Typ: char) (Str: string) (Num: int) (Array: "Value list")

datatype perr = EOF | Malformed

fun perr_Error :: "perr \<Rightarrow> string" where
  "perr_Error EOF = ''EOF''"
| "perr_Error Malformed = ''malformed RESP input''"

text \<open>
  A parse returns a value and what is left to read, fails, or panics; after a panic the
  connection goes on reading, so what is left matters there too.
\<close>

datatype 'a pres = POk 'a string | PErr perr | PPanic string

definition crlf :: string where
  "crlf = [CHR 0x0D, CHR 0x0A]"

definition bulkValue :: "string \<Rightarrow> Value" where
  "bulkValue s = MkValue (CHR 0x24) s 0 []"

section \<open>The parser\<close>

text \<open>
  \<open>make([]T, n)\<close> panics when the length is negative or the size exceeds the address space
  the runtime allocates from (\<open>2 ^ 48\<close> bytes on the 64-bit targets).  A \<open>Value\<close> takes 56
  bytes.
\<close>

definition maxAlloc :: int where
  "maxAlloc = 2 ^ 48"

definition makeslice_ok :: "int \<Rightarrow> int \<Rightarrow> bool" where
  "makeslice_ok n elem \<longleftrightarrow> 0 \<le> n \<and> n * elem \<le> maxAlloc"

definition sizeofValue :: int where
  "sizeofValue = 56"

definition readLine :: "string \<Rightarrow> perr + string \<times> string" where
  "readLine r =
     (let line = takeWhile (\<lambda>c. c \<noteq> CHR 0x0A) r; rest = dropWhile (\<lambda>c. c \<noteq> CHR 0x0A) r
      in if rest = [] then Inl EOF
         else if line = [] \<or> last line \<noteq> CHR 0x0D then Inl Malformed
         else Inr (butlast line, tl rest))"

definition readFull :: "string \<Rightarrow> nat \<Rightarrow> perr + string \<times> string" where
  "readFull r n =
     (if length r < n then Inl EOF
      else if r ! (n - 2) \<noteq> CHR 0x0D \<or> r ! (n - 1) \<noteq> CHR 0x0A then Inl Malformed
      else Inr (take n r, drop n r))"

text \<open>
  The recursion of \<open>Parse\<close> nests as deep as the input nests arrays; \<open>fuel\<close> bounds that depth
  and \<open>None\<close> is running out of it, which \<open>parse_enough\<close> excludes for more fuel than
  input.  The goroutine's stack and the memory are not bounded below the address space.
\<close>

fun parse_fuel :: "nat \<Rightarrow> string \<Rightarrow> Value pres option"
  and parse_array :: "nat \<Rightarrow> nat \<Rightarrow> string \<Rightarrow> Value list pres option" where
  "parse_fuel 0 r = None"
| "parse_fuel (Suc fuel) r =
     (case readLine r of
        Inl err \<Rightarrow> Some (PErr err)
      | Inr (line, r1) \<Rightarrow>
          (if line = [] then Some (PErr Malformed)
           else let typ = hd line; body = tl line
             in if typ = CHR ''+'' then Some (POk (MkValue typ body 0 []) r1)
                else if typ = CHR ''-'' then Some (POk (MkValue typ body 0 []) r1)
                else if typ = CHR '':'' then
                  (case atoi body of
                     None \<Rightarrow> Some (PErr Malformed)
                   | Some n \<Rightarrow> Some (POk (MkValue typ [] n []) r1))
                else if typ = CHR 0x24 then
                  (case atoi body of
                     None \<Rightarrow> Some (PErr Malformed)
                   | Some n \<Rightarrow>
                       (if n < 0 then Some (POk (MkValue typ [] (-1) []) r1)
                        else if \<not> makeslice_ok (wrap64 (n + 2)) 1 then Some (PPanic r1)
                        else case readFull r1 (nat n + 2) of
                               Inl err \<Rightarrow> Some (PErr err)
                             | Inr (buf, r2) \<Rightarrow>
                                 Some (POk (MkValue typ (take (nat n) buf) 0 []) r2)))
                else if typ = CHR ''*'' then
                  (case atoi body of
                     None \<Rightarrow> Some (PErr Malformed)
                   | Some n \<Rightarrow>
                       (if n < 0 then Some (POk (MkValue typ [] 0 []) r1)
                        else if \<not> makeslice_ok n sizeofValue then Some (PPanic r1)
                        else case parse_array fuel (nat n) r1 of
                               None \<Rightarrow> None
                             | Some (PErr err) \<Rightarrow> Some (PErr err)
                             | Some (PPanic r2) \<Rightarrow> Some (PPanic r2)
                             | Some (POk arr r2) \<Rightarrow> Some (POk (MkValue typ [] 0 arr) r2)))
                else Some (POk (MkValue (CHR ''*'') [] 0 (map bulkValue (fields line))) r1)))"
| "parse_array fuel 0 r = Some (POk [] r)"
| "parse_array fuel (Suc n) r =
     (case parse_fuel fuel r of
        None \<Rightarrow> None
      | Some (PErr err) \<Rightarrow> Some (PErr err)
      | Some (PPanic r1) \<Rightarrow> Some (PPanic r1)
      | Some (POk v r1) \<Rightarrow>
          (case parse_array fuel n r1 of
             None \<Rightarrow> None
           | Some (PErr err) \<Rightarrow> Some (PErr err)
           | Some (PPanic r2) \<Rightarrow> Some (PPanic r2)
           | Some (POk vs r2) \<Rightarrow> Some (POk (v # vs) r2)))"

definition Parse :: "string \<Rightarrow> Value pres" where
  "Parse r = the (parse_fuel (Suc (length r)) r)"

definition ParseArray :: "nat \<Rightarrow> string \<Rightarrow> Value list pres" where
  "ParseArray n r = the (parse_array (Suc (length r)) n r)"

section \<open>The writer\<close>

definition WriteSimpleString :: "string \<Rightarrow> string \<Rightarrow> string" where
  "WriteSimpleString w s = w @ ''+'' @ s @ crlf"

definition WriteError :: "string \<Rightarrow> string \<Rightarrow> string" where
  "WriteError w msg = w @ ''-'' @ msg @ crlf"

definition WriteInteger :: "string \<Rightarrow> int \<Rightarrow> string" where
  "WriteInteger w n = w @ '':'' @ itoa n @ crlf"

definition WriteBulkString :: "string \<Rightarrow> string \<Rightarrow> string" where
  "WriteBulkString w s = w @ [CHR 0x24] @ itoa (int (length s)) @ crlf @ s @ crlf"

definition WriteNullBulk :: "string \<Rightarrow> string" where
  "WriteNullBulk w = w @ [CHR 0x24] @ ''-1'' @ crlf"

fun write_vals :: "string \<Rightarrow> string list \<Rightarrow> string" where
  "write_vals w [] = w"
| "write_vals w (v # vals) = write_vals (WriteBulkString w v) vals"

definition WriteArray :: "string \<Rightarrow> string list \<Rightarrow> string" where
  "WriteArray w vals = write_vals (w @ ''*'' @ itoa (int (length vals)) @ crlf) vals"

section \<open>Progress and termination of the parser\<close>

lemma readLine_length: "readLine r = Inr (line, r1) \<Longrightarrow> length r1 + 2 \<le> length r"
proof -
  assume a: "readLine r = Inr (line, r1)"
  let ?l = "takeWhile (\<lambda>c. c \<noteq> CHR 0x0A) r" and ?d = "dropWhile (\<lambda>c. c \<noteq> CHR 0x0A) r"
  have "length r = length ?l + length ?d" by (metis length_append takeWhile_dropWhile_id)
  moreover from a have "?l \<noteq> []" "?d \<noteq> []" "r1 = tl ?d"
    by (auto simp: readLine_def Let_def split: if_splits)
  then have "0 < length ?l" "0 < length ?d" "length r1 = length ?d - 1" by simp_all
  ultimately show ?thesis by linarith
qed

lemma readFull_length: "readFull r n = Inr (buf, r1) \<Longrightarrow> length r1 + n = length r"
  by (auto simp: readFull_def split: if_splits)

lemma parse_length:
  "parse_fuel fuel r = Some (POk v r1) \<Longrightarrow> length r1 < length r"
  "parse_array fuel n r = Some (POk vs r1) \<Longrightarrow> length r1 \<le> length r"
proof (induction fuel r and fuel n r arbitrary: v r1 and vs r1 rule: parse_fuel_parse_array.induct)
  case (2 fuel r)
  obtain line r0 where l: "readLine r = Inr (line, r0)"
    using 2(2) by (auto split: sum.splits)
  have len: "length r0 + 2 \<le> length r" using l by (rule readLine_length)
  have "length r1 \<le> length r0"
    using 2(2) l 2(1) [OF l refl]
    by (auto simp: Let_def split: if_splits option.splits sum.splits pres.splits prod.splits
        dest: readFull_length)
  with len show ?case by simp
next
  case (4 fuel n r)
  then show ?case
    by (fastforce split: option.splits pres.splits)
qed auto

declare parse_fuel.simps(2) [simp del]

text \<open>One call of the parser up to its recursion: a result, or the elements still to read.\<close>

definition parse_head :: "string \<Rightarrow> Value pres + nat \<times> string" where
  "parse_head r =
     (case readLine r of
        Inl err \<Rightarrow> Inl (PErr err)
      | Inr (line, r1) \<Rightarrow>
          (if line = [] \<or> hd line \<noteq> CHR ''*'' then Inl (the (parse_fuel 1 r))
           else case atoi (tl line) of
                  None \<Rightarrow> Inl (PErr Malformed)
                | Some n \<Rightarrow> (if n < 0 then Inl (POk (MkValue (CHR ''*'') [] 0 []) r1)
                            else if \<not> makeslice_ok n sizeofValue then Inl (PPanic r1)
                            else Inr (nat n, r1))))"

fun arrayResult :: "Value list pres \<Rightarrow> Value pres" where
  "arrayResult (PErr err) = PErr err"
| "arrayResult (PPanic r) = PPanic r"
| "arrayResult (POk arr r) = POk (MkValue (CHR ''*'') [] 0 arr) r"

lemma parse_fuel_Suc:
  "parse_fuel (Suc fuel) r =
     (case parse_head r of Inl x \<Rightarrow> Some x
      | Inr (n, r1) \<Rightarrow> map_option arrayResult (parse_array fuel n r1))"
  by (simp add: parse_fuel.simps(2) parse_head_def Let_def split: sum.split option.split pres.split)

lemma parse_head_length: "parse_head r = Inr (n, r1) \<Longrightarrow> length r1 < length r"
  by (auto simp: parse_head_def split: sum.splits if_splits option.splits dest: readLine_length)

lemma parse_enough:
  "length r < fuel \<Longrightarrow> parse_fuel fuel r \<noteq> None"
  "length r < fuel \<Longrightarrow> parse_array fuel n r \<noteq> None"
proof (induction fuel arbitrary: r n)
  case (Suc fuel)
  have P: "parse_fuel (Suc fuel) r \<noteq> None" if "length r < Suc fuel" for r
    using that Suc.IH(2) parse_head_length
    by (fastforce simp: parse_fuel_Suc split: sum.split)
  { case 1 then show ?case by (rule P)
  next
    case 2 then show ?case
    proof (induction n arbitrary: r)
      case (Suc n)
      from Suc.prems P obtain x where x: "parse_fuel (Suc fuel) r = Some x" by blast
      have "parse_array (Suc fuel) n r1 \<noteq> None" if "x = POk v r1" for v r1
        using parse_length(1) [of "Suc fuel" r v r1] x that Suc.prems by (intro Suc.IH) simp
      with x show ?case by (auto split: pres.split option.split)
    qed simp }
qed simp_all

lemma parse_mono1:
  "parse_fuel fuel r = Some x \<Longrightarrow> parse_fuel (Suc fuel) r = Some x"
  "parse_array fuel n r = Some y \<Longrightarrow> parse_array (Suc fuel) n r = Some y"
proof (induction fuel arbitrary: r n x y)
  case 0
  { case 1 then show ?case by simp
  next
    case 2 then show ?case by (cases n) auto }
next
  case (Suc fuel)
  have P: "parse_fuel (Suc (Suc fuel)) r = Some x" if "parse_fuel (Suc fuel) r = Some x" for r x
    using that Suc.IH(2)
    by (auto simp: parse_fuel_Suc split: sum.splits)
  { case 1 then show ?case by (rule P)
  next
    case 2 then show ?case
    proof (induction n arbitrary: r y)
      case (Suc n)
      then show ?case
        using P by (auto split: pres.splits option.splits)
    qed simp }
qed

lemma parse_mono:
  assumes "fuel \<le> fuel'"
  shows "parse_fuel fuel r = Some x \<Longrightarrow> parse_fuel fuel' r = Some x"
    and "parse_array fuel n r = Some y \<Longrightarrow> parse_array fuel' n r = Some y"
  using assms by (induction fuel' rule: dec_induct) (blast intro: parse_mono1)+

text \<open>Any fuel above the length of the input gives the same, definite result.\<close>

lemma parse_fuel_Parse: "length r < fuel \<Longrightarrow> parse_fuel fuel r = Some (Parse r)"
proof -
  assume f: "length r < fuel"
  obtain x where x: "parse_fuel (Suc (length r)) r = Some x"
    using parse_enough(1) [of r "Suc (length r)"] by auto
  with f show ?thesis using parse_mono(1) [OF _ x, of fuel] by (simp add: Parse_def)
qed

lemma parse_array_ParseArray: "length r < fuel \<Longrightarrow> parse_array fuel n r = Some (ParseArray n r)"
proof -
  assume f: "length r < fuel"
  obtain x where x: "parse_array (Suc (length r)) n r = Some x"
    using parse_enough(2) [of r "Suc (length r)" n] by auto
  with f show ?thesis using parse_mono(2) [OF _ x, of fuel] by (simp add: ParseArray_def)
qed

section \<open>Equations without fuel\<close>

lemma ParseArray_0 [simp]: "ParseArray 0 r = POk [] r"
  by (simp add: ParseArray_def)

lemma ParseArray_Suc:
  "ParseArray (Suc n) r =
     (case Parse r of PErr err \<Rightarrow> PErr err | PPanic r1 \<Rightarrow> PPanic r1
      | POk v r1 \<Rightarrow> (case ParseArray n r1 of PErr err \<Rightarrow> PErr err | PPanic r2 \<Rightarrow> PPanic r2
                    | POk vs r2 \<Rightarrow> POk (v # vs) r2))"
proof -
  have p: "parse_fuel (Suc (length r)) r = Some (Parse r)" by (rule parse_fuel_Parse) simp
  have a: "parse_array (Suc (length r)) n r1 = Some (ParseArray n r1)"
    if "Parse r = POk v r1" for v r1
    using parse_length(1) [of "Suc (length r)" r v r1] p that by (intro parse_array_ParseArray) simp
  show ?thesis
    using a unfolding ParseArray_def [of "Suc n"] by (simp add: p split: pres.split)
qed

lemma Parse_unfold:
  "Parse r =
     (case readLine r of
        Inl err \<Rightarrow> PErr err
      | Inr (line, r1) \<Rightarrow>
          (if line = [] then PErr Malformed
           else let typ = hd line; body = tl line
             in if typ = CHR ''+'' then POk (MkValue typ body 0 []) r1
                else if typ = CHR ''-'' then POk (MkValue typ body 0 []) r1
                else if typ = CHR '':'' then
                  (case atoi body of None \<Rightarrow> PErr Malformed
                   | Some n \<Rightarrow> POk (MkValue typ [] n []) r1)
                else if typ = CHR 0x24 then
                  (case atoi body of None \<Rightarrow> PErr Malformed
                   | Some n \<Rightarrow>
                       (if n < 0 then POk (MkValue typ [] (-1) []) r1
                        else if \<not> makeslice_ok (wrap64 (n + 2)) 1 then PPanic r1
                        else case readFull r1 (nat n + 2) of Inl err \<Rightarrow> PErr err
                             | Inr (buf, r2) \<Rightarrow> POk (MkValue typ (take (nat n) buf) 0 []) r2))
                else if typ = CHR ''*'' then
                  (case atoi body of None \<Rightarrow> PErr Malformed
                   | Some n \<Rightarrow>
                       (if n < 0 then POk (MkValue typ [] 0 []) r1
                        else if \<not> makeslice_ok n sizeofValue then PPanic r1
                        else case ParseArray (nat n) r1 of PErr err \<Rightarrow> PErr err
                             | PPanic r2 \<Rightarrow> PPanic r2
                             | POk arr r2 \<Rightarrow> POk (MkValue typ [] 0 arr) r2))
                else POk (MkValue (CHR ''*'') [] 0 (map bulkValue (fields line))) r1))"
proof (cases "readLine r")
  case (Inl e)
  then show ?thesis by (simp add: Parse_def parse_fuel.simps(2))
next
  case (Inr p)
  obtain line r1 where p: "p = (line, r1)" by (cases p)
  have a: "parse_array (length r) n r1 = Some (ParseArray n r1)" for n
    using readLine_length [of r line r1] Inr p by (intro parse_array_ParseArray) simp
  show ?thesis
    unfolding Parse_def parse_fuel.simps(2) Inr p sum.case prod.case Let_def a
    by (auto split: if_splits option.splits sum.splits pres.splits)
qed

lemma Parse_shorter: "Parse r = POk v r1 \<Longrightarrow> length r1 < length r"
  using parse_length(1) [of "Suc (length r)" r v r1] parse_fuel_Parse [of r "Suc (length r)"] by simp

end
