(* ===== verification/Resp_Roundtrip.thy ===== *)
theory Resp_Roundtrip
  imports Resp
begin

text \<open>
  The parser against the writer: what the server writes a client (and the append-only file's
  replay) reads back, one value at a time, whatever follows; and how the parser behaves on
  hostile headers.
\<close>

section \<open>Lines\<close>

lemma readLine_crlf [simp]:
  assumes "CHR 0x0A \<notin> set l"
  shows "readLine (l @ crlf @ r) = Inr (l, r)"
proof -
  have "takeWhile (\<lambda>c. c \<noteq> CHR 0x0A) (l @ crlf @ r) = l @ [CHR 0x0D]"
    using assms by (subst takeWhile_append2) (auto simp: crlf_def)
  moreover have "dropWhile (\<lambda>c. c \<noteq> CHR 0x0A) (l @ crlf @ r) = CHR 0x0A # r"
    using assms by (subst dropWhile_append2) (auto simp: crlf_def)
  ultimately show ?thesis by (simp add: readLine_def)
qed

lemma readFull_crlf [simp]: "readFull (s @ crlf @ r) (length s + 2) = Inr (s @ crlf, r)"
  by (simp add: readFull_def crlf_def nth_append)

lemma itoa_no_lf [simp]: "CHR 0x0A \<notin> set (itoa n)"
  using itoa_no_crlf by blast

section \<open>Reading back what is written\<close>

definition small :: "string \<Rightarrow> bool" where
  "small s \<longleftrightarrow> int (length s) + 2 \<le> maxAlloc"

definition fits :: "string list \<Rightarrow> bool" where
  "fits ss \<longleftrightarrow> int (length ss) * sizeofValue \<le> maxAlloc \<and> list_all small ss"

lemma small_int64: "small s \<Longrightarrow> int64 (int (length s)) \<and> int64 (int (length s) + 2)"
  by (simp add: small_def maxAlloc_def int64_def)

lemma readLine_typ:
  "CHR 0x0A \<notin> set body \<Longrightarrow> typ \<noteq> CHR 0x0A \<Longrightarrow>
     readLine (typ # body @ crlf @ r) = Inr (typ # body, r)"
  using readLine_crlf [of "typ # body" r] by (simp only: append_Cons set_simps insert_iff) auto

lemma Parse_simple:
  assumes "CHR 0x0A \<notin> set s"
  shows "Parse (CHR ''+'' # s @ crlf @ r) = POk (MkValue (CHR ''+'') s 0 []) r"
    and "Parse (CHR ''-'' # s @ crlf @ r) = POk (MkValue (CHR ''-'') s 0 []) r"
  using assms by (simp_all add: Parse_unfold readLine_typ)

lemma Parse_integer:
  "int64 n \<Longrightarrow> Parse (CHR '':'' # itoa n @ crlf @ r) = POk (MkValue (CHR '':'') [] n []) r"
  by (simp add: Parse_unfold readLine_typ)

lemma Parse_bulk:
  assumes "small s"
  shows "Parse (CHR 0x24 # itoa (int (length s)) @ crlf @ s @ crlf @ r) = POk (bulkValue s) r"
proof -
  have "wrap64 (int (length s) + 2) = int (length s) + 2" "int64 (int (length s))"
    using small_int64 [OF assms] by simp_all
  moreover have "makeslice_ok (int (length s) + 2) 1"
    using assms by (simp add: small_def makeslice_ok_def)
  moreover have "readFull (s @ crlf @ r) (Suc (Suc (length s))) = Inr (s @ crlf, r)"
    using readFull_crlf [of s r] by simp
  ultimately show ?thesis
    by (simp add: Parse_unfold readLine_typ bulkValue_def)
qed

lemma Parse_null: "Parse (CHR 0x24 # ''-1'' @ crlf @ r) = POk (MkValue (CHR 0x24) [] (-1) []) r"
proof -
  have "''-1'' = itoa (-1)" by code_simp
  then show ?thesis
    by (simp only:) (simp add: Parse_unfold readLine_typ int64_def)
qed

definition bulkBytes :: "string \<Rightarrow> string" where
  "bulkBytes s = CHR 0x24 # itoa (int (length s)) @ crlf @ s @ crlf"

definition arrayBytes :: "string list \<Rightarrow> string" where
  "arrayBytes ss = CHR ''*'' # itoa (int (length ss)) @ crlf @ concat (map bulkBytes ss)"

lemma WriteBulkString_bytes: "WriteBulkString w s = w @ bulkBytes s"
  by (simp add: WriteBulkString_def bulkBytes_def)

lemma WriteArray_bytes: "WriteArray w ss = w @ arrayBytes ss"
proof -
  have "write_vals w ss = w @ concat (map bulkBytes ss)" for w
    by (induction ss arbitrary: w) (auto simp: WriteBulkString_bytes)
  then show ?thesis by (simp add: WriteArray_def arrayBytes_def)
qed

lemma ParseArray_bulks:
  "list_all small ss \<Longrightarrow>
     ParseArray (length ss) (concat (map bulkBytes ss) @ r) = POk (map bulkValue ss) r"
  by (induction ss) (simp_all add: ParseArray_Suc bulkBytes_def Parse_bulk)

lemma fits_int64: "fits ss \<Longrightarrow> int64 (int (length ss)) \<and> makeslice_ok (int (length ss)) sizeofValue"
  by (simp add: fits_def sizeofValue_def maxAlloc_def int64_def makeslice_ok_def)

lemma Parse_array:
  "fits ss \<Longrightarrow> Parse (arrayBytes ss @ r) = POk (MkValue (CHR ''*'') [] 0 (map bulkValue ss)) r"
  using fits_int64 [of ss]
  by (simp add: arrayBytes_def Parse_unfold readLine_typ ParseArray_bulks fits_def)

text \<open>
  C7: Write, then parse. An array of bulk strings that the writer produces parses back to
  exactly those strings, binary content included, and leaves what follows it untouched; the
  only condition is that lengths stay below what the parser can allocate.
\<close>

theorem array_roundtrip:
  assumes "fits ss"
  shows "WriteArray w ss = w @ WriteArray [] ss
    \<and> Parse (WriteArray [] ss @ r) = POk (MkValue (CHR ''*'') [] 0 (map bulkValue ss)) r"
  using Parse_array [OF assms] by (simp add: WriteArray_bytes)

theorem array_roundtrip_witness:
  "Parse (WriteArray [] [''SET'', ''k'', crlf] @ ''rest'')
     = POk (MkValue (CHR ''*'') [] 0 (map bulkValue [''SET'', ''k'', crlf])) ''rest''"
  using array_roundtrip [of "[''SET'', ''k'', crlf]" "[]" "''rest''"]
  by (simp add: fits_def small_def sizeofValue_def maxAlloc_def crlf_def)

text \<open>
  Every kind of reply is read back as exactly one value: a simple string or error without
  line feed, a 64-bit integer, a bulk string, and the null reply as a bulk string marked
  with -1.
\<close>

lemma reply_roundtrip:
  assumes "CHR 0x0A \<notin> set msg" "int64 n" "small s"
  shows "Parse (WriteSimpleString [] msg @ r) = POk (MkValue (CHR ''+'') msg 0 []) r
    \<and> Parse (WriteError [] msg @ r) = POk (MkValue (CHR ''-'') msg 0 []) r
    \<and> Parse (WriteInteger [] n @ r) = POk (MkValue (CHR '':'') [] n []) r
    \<and> Parse (WriteBulkString [] s @ r) = POk (bulkValue s) r
    \<and> Parse (WriteNullBulk [] @ r) = POk (MkValue (CHR 0x24) [] (-1) []) r"
  using Parse_simple [OF assms(1), of r] Parse_integer [OF assms(2), of r] Parse_bulk [OF assms(3), of r]
    Parse_null [of r]
  by (simp add: WriteSimpleString_def WriteError_def WriteInteger_def WriteBulkString_def
      WriteNullBulk_def)

lemma reply_roundtrip_witness:
  "Parse (WriteError [] ''ERR syntax error'' @ ''x'')
     = POk (MkValue (CHR ''-'') ''ERR syntax error'' 0 []) ''x''"
  using reply_roundtrip [of "''ERR syntax error''" 0 "[]" "''x''"]
  by (simp add: int64_def small_def maxAlloc_def)

section \<open>The command codec\<close>

definition dec_cmd :: "string \<Rightarrow> (string list \<times> string) option" where
  "dec_cmd s = (case Parse s of POk v r \<Rightarrow> Some (map Str (Array v), r) | _ \<Rightarrow> None)"

lemma Str_bulkValue [simp]: "Str (bulkValue s) = s" "map (Str \<circ> bulkValue) ss = ss"
  by (simp_all add: bulkValue_def comp_def)

interpretation cmds: codec arrayBytes dec_cmd fits
  by unfold_locales (auto simp: dec_cmd_def Parse_array dest: Parse_shorter split: pres.splits)

section \<open>Streaming\<close>

lemma readLine_append: "readLine r = Inr (l, r1) \<Longrightarrow> readLine (r @ t) = Inr (l, r1 @ t)"
proof -
  assume a: "readLine r = Inr (l, r1)"
  let ?P = "\<lambda>c. c \<noteq> CHR 0x0A"
  have d: "dropWhile ?P r \<noteq> []" using a by (auto simp: readLine_def Let_def split: if_splits)
  then obtain x where "x \<in> set r" "\<not> ?P x" by (auto simp: dropWhile_eq_Nil_conv)
  then have "takeWhile ?P (r @ t) = takeWhile ?P r" "dropWhile ?P (r @ t) = dropWhile ?P r @ t"
    by (auto intro: takeWhile_append1 dropWhile_append1)
  with a d show ?thesis by (auto simp: readLine_def Let_def split: if_splits)
qed

lemma readFull_append: "readFull r n = Inr (b, r1) \<Longrightarrow> 2 \<le> n \<Longrightarrow> readFull (r @ t) n = Inr (b, r1 @ t)"
  by (auto simp: readFull_def nth_append split: if_splits)

lemma parse_append:
  "parse_fuel fuel r = Some (POk v r1) \<Longrightarrow> parse_fuel fuel (r @ t) = Some (POk v (r1 @ t))"
  "parse_array fuel n r = Some (POk vs r1) \<Longrightarrow> parse_array fuel n (r @ t) = Some (POk vs (r1 @ t))"
proof (induction fuel arbitrary: r n v vs r1)
  case 0
  { case 1 then show ?case by simp
  next
    case 2 then show ?case by (cases n) auto }
next
  case (Suc fuel)
  have P: "parse_fuel (Suc fuel) (r @ t) = Some (POk v (r1 @ t))"
    if a: "parse_fuel (Suc fuel) r = Some (POk v r1)" for r v r1
  proof -
    obtain line r0 where l: "readLine r = Inr (line, r0)"
      using a by (auto simp: parse_fuel.simps(2) split: sum.splits)
    show ?thesis
      using a unfolding parse_fuel.simps(2) l readLine_append [OF l] sum.case prod.case Let_def
      by (auto split: if_splits option.splits sum.splits pres.splits
          simp: readFull_append Suc.IH(2))
  qed
  { case 1 then show ?case by (rule P)
  next
    case 2 then show ?case
    proof (induction n arbitrary: r vs r1)
      case (Suc n)
      then show ?case by (fastforce simp: P split: pres.splits option.splits)
    qed simp }
qed

text \<open>
  A complete value is recognised without looking past its end. Whatever bytes arrive
  after it, the same value is returned and those bytes are left in the stream, so splitting
  the stream differently never changes what is parsed; and a value always consumes input.
\<close>

lemma parse_streaming:
  assumes "Parse r = POk v r1"
  shows "Parse (r @ t) = POk v (r1 @ t) \<and> length r1 < length r"
proof -
  have "parse_fuel (Suc (length r + length t)) r = Some (POk v r1)"
    using parse_fuel_Parse [of r] assms by simp
  then have "parse_fuel (Suc (length r + length t)) (r @ t) = Some (POk v (r1 @ t))"
    by (rule parse_append)
  then have "Parse (r @ t) = POk v (r1 @ t)"
    using parse_fuel_Parse [of "r @ t" "Suc (length r + length t)"] by simp
  with Parse_shorter [OF assms] show ?thesis by simp
qed

lemma parse_streaming_witness:
  "Parse ((CHR ''+'' # ''OK'' @ crlf @ []) @ ''more'') = POk (MkValue (CHR ''+'') ''OK'' 0 []) ([] @ ''more'')"
  using parse_streaming [OF Parse_simple(1) [of "''OK''" "[]"], of "''more''"] by simp

section \<open>Hostile headers\<close>

text \<open>
  A length header can panic the server. A bulk length or an array count that the
  runtime cannot allocate panics the parser right after the header line, and the bytes that
  were meant as payload stay in the stream, where the connection loop (which recovers) reads
  them as the next commands.
\<close>

lemma oversized_header_panics:
  assumes "int64 n"
  shows "(maxAlloc < n + 2 \<longrightarrow> Parse (CHR 0x24 # itoa n @ crlf @ r) = PPanic r)
    \<and> (maxAlloc < n * sizeofValue \<longrightarrow> Parse (CHR ''*'' # itoa n @ crlf @ r) = PPanic r)"
proof (intro conjI impI)
  assume big: "maxAlloc < n + 2"
  have "\<not> makeslice_ok (wrap64 (n + 2)) 1"
  proof (cases "int64 (n + 2)")
    case True
    with big show ?thesis by (simp add: makeslice_ok_def)
  next
    case False
    then have "wrap64 (n + 2) = n + 2 - 2 ^ 64"
      using assms big unfolding wrap64_def
      by (subst mod_pos_geq) (auto simp: int64_def maxAlloc_def)
    then show ?thesis using assms by (simp add: makeslice_ok_def int64_def)
  qed
  then show "Parse (CHR 0x24 # itoa n @ crlf @ r) = PPanic r"
    using assms big by (simp add: Parse_unfold readLine_typ maxAlloc_def)
next
  assume "maxAlloc < n * sizeofValue"
  then show "Parse (CHR ''*'' # itoa n @ crlf @ r) = PPanic r"
    using assms by (simp add: Parse_unfold readLine_typ makeslice_ok_def maxAlloc_def sizeofValue_def)
qed

lemma oversized_header_panics_witness:
  "Parse (CHR 0x24 # itoa 9223372036854775807 @ crlf @ ''FLUSHALL'' @ crlf)
     = PPanic (''FLUSHALL'' @ crlf)"
  using oversized_header_panics [of 9223372036854775807 "''FLUSHALL'' @ crlf"]
  by (simp add: int64_def maxAlloc_def)

end
