(* ===== verification/Aof.thy ===== *)
theory Aof
  imports Kv_Contracts Resp_Roundtrip
begin

text \<open>
  The append-only file, \<open>store/aof.go\<close>: logging, rewriting, replay.

  The file is its contents and how many of its bytes have been forced to disk; what the
  operating system answers to a write, a sync or a step of a rewrite is an argument.  The
  mutex is not a field: each definition is one critical section, except for \<open>Rewrite\<close>,
  which is two (\<open>Rewrite_begin\<close>, \<open>Rewrite_finish\<close>) with other clients in between.
\<close>

section \<open>State\<close>

datatype FsyncPolicy = FsyncEverySec | FsyncAlways | FsyncNo

definition ParseFsyncPolicy :: "string \<Rightarrow> FsyncPolicy" where
  "ParseFsyncPolicy s =
     (let t = toLower (trimSpace s)
      in if t = ''always'' then FsyncAlways else if t = ''no'' then FsyncNo else FsyncEverySec)"

datatype aof_err = ErrRewriteAlreadyInProgress | ErrIO string

fun aof_err_Error :: "aof_err \<Rightarrow> string" where
  "aof_err_Error ErrRewriteAlreadyInProgress = ''aof rewrite already in progress''"
| "aof_err_Error (ErrIO e) = e"

text \<open>
  \<open>writer_err\<close> is the error a \<open>bufio.Writer\<close> keeps once a write has failed (or once the
  file under it is closed): every later write returns it and does nothing.
\<close>

record AOF =
  aof_file :: string
  synced :: nat
  writer_err :: "string option"
  fsync :: FsyncPolicy
  rewriteThreshold :: int
  rewriting :: bool
  rewriteBuf :: string
  rewriteRunning :: bool

datatype os_write = WriteOk | WriteFails nat string
datatype os_sync = SyncOk | SyncFails string

record osenv =
  os_w :: os_write
  os_s :: os_sync

definition NewAOF :: "string \<Rightarrow> FsyncPolicy \<Rightarrow> AOF" where
  "NewAOF contents policy =
     \<lparr>aof_file = contents, synced = length contents, writer_err = None, fsync = policy,
      rewriteThreshold = 0, rewriting = False, rewriteBuf = [], rewriteRunning = False\<rparr>"

definition aof_SetRewriteThreshold :: "int \<Rightarrow> AOF \<Rightarrow> AOF" where
  "aof_SetRewriteThreshold bytes a = a\<lparr>rewriteThreshold := bytes\<rparr>"

section \<open>Logging\<close>

fun resp_args :: "string \<Rightarrow> string list \<Rightarrow> string" where
  "resp_args buf [] = buf"
| "resp_args buf (s # ss) =
     resp_args (buf @ [CHR 0x24] @ itoa (int (length s)) @ crlf @ s @ crlf) ss"

definition writeLocked :: "osenv \<Rightarrow> string \<Rightarrow> string list \<Rightarrow> AOF \<Rightarrow> aof_err option \<times> AOF" where
  "writeLocked os cmd args a =
     (let all = [cmd] @ args;
          buf = resp_args (''*'' @ itoa (int (length all)) @ crlf) all
      in case writer_err a of
           Some e \<Rightarrow> (Some (ErrIO e), a)
         | None \<Rightarrow>
             (case os_w os of
                WriteFails n e \<Rightarrow>
                  (Some (ErrIO e), a\<lparr>aof_file := aof_file a @ take n buf, writer_err := Some e\<rparr>)
              | WriteOk \<Rightarrow>
                  (let a1 = a\<lparr>aof_file := aof_file a @ buf\<rparr>;
                       a2 = (if rewriting a then a1\<lparr>rewriteBuf := rewriteBuf a @ buf\<rparr> else a1)
                   in if fsync a = FsyncAlways
                      then case os_s os of
                             SyncFails e \<Rightarrow> (Some (ErrIO e), a1)
                           | SyncOk \<Rightarrow> (None, a2\<lparr>synced := length (aof_file a1)\<rparr>)
                      else (None, a2))))"

definition aof_Write :: "osenv \<Rightarrow> string \<Rightarrow> string list \<Rightarrow> AOF \<Rightarrow> aof_err option \<times> AOF" where
  "aof_Write os cmd args a = writeLocked os cmd args a"

definition aof_Flush :: "AOF \<Rightarrow> aof_err option" where
  "aof_Flush a = map_option ErrIO (writer_err a)"

definition aof_Sync :: "osenv \<Rightarrow> AOF \<Rightarrow> aof_err option \<times> AOF" where
  "aof_Sync os a =
     (case writer_err a of
        Some e \<Rightarrow> (Some (ErrIO e), a)
      | None \<Rightarrow> (case os_s os of
                   SyncFails e \<Rightarrow> (Some (ErrIO e), a)
                 | SyncOk \<Rightarrow> (None, a\<lparr>synced := length (aof_file a)\<rparr>)))"

definition aof_Close :: "AOF \<Rightarrow> aof_err option \<times> AOF" where
  "aof_Close a =
     (case writer_err a of
        Some e \<Rightarrow> (Some (ErrIO e), a)
      | None \<Rightarrow> (None, a\<lparr>writer_err := Some ''file already closed''\<rparr>))"

text \<open>One tick of \<open>StartFsyncLoop\<close>, and the test one tick of \<open>StartAutoRewrite\<close> makes.\<close>

definition fsyncLoop_tick :: "osenv \<Rightarrow> AOF \<Rightarrow> AOF" where
  "fsyncLoop_tick os a = (if fsync a \<noteq> FsyncEverySec then a else snd (aof_Sync os a))"

definition autoRewrite_due :: "AOF \<Rightarrow> bool" where
  "autoRewrite_due a \<longleftrightarrow>
     \<not> rewriteThreshold a \<le> 0 \<and> int (length (aof_file a)) \<ge> rewriteThreshold a"

section \<open>Rewriting\<close>

definition chunkSize :: nat where
  "chunkSize = 500"

definition writeRESPCommand :: "string \<Rightarrow> string \<Rightarrow> string list \<Rightarrow> string" where
  "writeRESPCommand w cmd args =
     (let all = [cmd] @ args in resp_args (w @ ''*'' @ itoa (int (length all)) @ crlf) all)"

definition Sub :: "int \<Rightarrow> int \<Rightarrow> int" where
  "Sub t now = max (- (2 ^ 63)) (min (2 ^ 63 - 1) (t - now))"

fun write_strings :: "string \<Rightarrow> int \<Rightarrow> (string \<times> Entry) list \<Rightarrow> string" where
  "write_strings w now [] = w"
| "write_strings w now ((key, entry) # m) =
     (case ExpiresAt entry of
        ZeroTime \<Rightarrow> write_strings (writeRESPCommand w ''SET'' [key, Value entry]) now m
      | UnixNano t \<Rightarrow>
          (let remaining = Sub t now
           in if remaining \<le> 0 then write_strings w now m
              else write_strings
                (writeRESPCommand w ''SET''
                  [key, Value entry, ''PX'', itoa (remaining div millisecond)]) now m))"

function write_chunks :: "string \<Rightarrow> string \<Rightarrow> nat \<Rightarrow> string \<Rightarrow> string list \<Rightarrow> string" where
  "write_chunks w cmd n key elems =
     (if elems = [] \<or> n = 0 then w
      else write_chunks (writeRESPCommand w cmd (key # take n elems)) cmd n key (drop n elems))"
  by pat_completeness auto
termination
  by (relation "measure (\<lambda>(w, cmd, n, key, elems). length elems)") auto

declare write_chunks.simps [simp del]

fun write_lists :: "string \<Rightarrow> (string \<times> string list) list \<Rightarrow> string" where
  "write_lists w [] = w"
| "write_lists w ((key, elems) # m) = write_lists (write_chunks w ''RPUSH'' chunkSize key elems) m"

fun flat_pairs :: "hash \<Rightarrow> string list" where
  "flat_pairs [] = []"
| "flat_pairs ((f, v) # h) = f # v # flat_pairs h"

fun write_hashes :: "string \<Rightarrow> (string \<times> hash) list \<Rightarrow> string" where
  "write_hashes w [] = w"
| "write_hashes w ((key, flds) # m) =
     write_hashes (write_chunks w ''HSET'' (chunkSize * 2) key (flat_pairs flds)) m"

definition writeSnapshot :: "string \<Rightarrow> int \<Rightarrow> Snapshot \<Rightarrow> string" where
  "writeSnapshot w now snap =
     write_hashes (write_lists (write_strings w now (Strings snap)) (Lists snap)) (Hashes snap)"

text \<open>
  The first critical section of \<open>Rewrite\<close>, after its check that no other rewrite runs: raise
  the flag, empty the buffer, take the snapshot.
\<close>

definition Rewrite_begin :: "Store \<Rightarrow> AOF \<Rightarrow> aof_err + Snapshot \<times> AOF" where
  "Rewrite_begin s a =
     (if rewriteRunning a then Inl ErrRewriteAlreadyInProgress
      else Inr (store_Snapshot s,
                a\<lparr>rewriteRunning := True, rewriting := True, rewriteBuf := []\<rparr>))"

text \<open>How the file operations of a rewrite turn out: the first that fails, or none.\<close>

datatype rewrite_io =
    RwOk
  | RwOpenTemp string | RwWriteTemp string | RwAppendBuffer string
  | RwFlushTemp string | RwSyncTemp string | RwCloseTemp string
  | RwCloseLive string
  | RwRename string bool
  | RwReopen string

definition file_closed :: string where
  "file_closed = ''file already closed''"

definition Rewrite_finish ::
  "int \<Rightarrow> Snapshot \<Rightarrow> rewrite_io \<Rightarrow> AOF \<Rightarrow> aof_err option \<times> AOF" where
  "Rewrite_finish now snap io a =
     (let tmp = writeSnapshot [] now snap @ rewriteBuf a;
          idle = a\<lparr>rewriting := False, rewriteBuf := [], rewriteRunning := False\<rparr>
      in case io of
           RwOpenTemp e \<Rightarrow> (Some (ErrIO (''aof rewrite: open temp file: '' @ e)), idle)
         | RwWriteTemp e \<Rightarrow> (Some (ErrIO (''aof rewrite: write temp file: '' @ e)), idle)
         | RwAppendBuffer e \<Rightarrow> (Some (ErrIO (''aof rewrite: append buffered writes: '' @ e)), idle)
         | RwFlushTemp e \<Rightarrow> (Some (ErrIO (''aof rewrite: flush temp file: '' @ e)), idle)
         | RwSyncTemp e \<Rightarrow> (Some (ErrIO (''aof rewrite: sync temp file: '' @ e)), idle)
         | RwCloseTemp e \<Rightarrow> (Some (ErrIO (''aof rewrite: close temp file: '' @ e)), idle)
         | RwCloseLive e \<Rightarrow>
             (Some (ErrIO (''aof rewrite: close live file: '' @ e)),
              idle\<lparr>writer_err := Some file_closed\<rparr>)
         | RwRename e reopened \<Rightarrow>
             (Some (ErrIO (''aof rewrite: rename temp file into place: '' @ e)),
              idle\<lparr>writer_err := (if reopened then None else Some file_closed)\<rparr>)
         | RwReopen e \<Rightarrow>
             (Some (ErrIO (''aof rewrite: reopen rewritten file: '' @ e)),
              idle\<lparr>aof_file := tmp, synced := length tmp, writer_err := Some file_closed\<rparr>)
         | RwOk \<Rightarrow>
             (None, idle\<lparr>aof_file := tmp, synced := length tmp, writer_err := None\<rparr>))"

section \<open>Replay\<close>

datatype replay_err =
  WrongArgs | SyntaxErr | NotANumber | Unsupported | Refused store_err

text \<open>\<open>parseSetTTL\<close>: the option words after key and value of a logged \<open>SET\<close>.\<close>

fun parseSetTTL_loop :: "string list \<Rightarrow> int \<Rightarrow> replay_err + int" where
  "parseSetTTL_loop [] ttl = Inr ttl"
| "parseSetTTL_loop (x # rest) ttl =
     (if toUpper x = ''EX'' then
        (case rest of [] \<Rightarrow> Inl SyntaxErr
         | y # rest' \<Rightarrow> (case atoi y of None \<Rightarrow> Inl NotANumber
              | Some seconds \<Rightarrow> parseSetTTL_loop rest' (wrap64 (seconds * second))))
      else if toUpper x = ''PX'' then
        (case rest of [] \<Rightarrow> Inl SyntaxErr
         | y # rest' \<Rightarrow> (case atoi y of None \<Rightarrow> Inl NotANumber
              | Some ms \<Rightarrow> parseSetTTL_loop rest' (wrap64 (ms * millisecond))))
      else Inl SyntaxErr)"

definition parseSetTTL :: "string list \<Rightarrow> replay_err + int" where
  "parseSetTTL rest = parseSetTTL_loop rest 0"

fun refused :: "store_err + 'a \<times> Store \<Rightarrow> replay_err + Store" where
  "refused (Inl e) = Inl (Refused e)"
| "refused (Inr (_, s)) = Inr s"

definition replayCommand :: "int \<Rightarrow> Store \<Rightarrow> string \<Rightarrow> string list \<Rightarrow> replay_err + Store" where
  "replayCommand now s cmd args =
     (if cmd = ''SET'' then
        (if length args < 2 then Inl WrongArgs
         else case parseSetTTL (drop 2 args) of
                Inl e \<Rightarrow> Inl e
              | Inr ttl \<Rightarrow> (case store_Set now (args ! 0) (args ! 1) ttl s of
                              Inl e \<Rightarrow> Inl (Refused e) | Inr s' \<Rightarrow> Inr s'))
      else if cmd = ''DEL'' then
        (if length args < 1 then Inl WrongArgs else Inr (snd (store_Del args s)))
      else if cmd = ''EXPIRE'' then
        (if length args \<noteq> 2 then Inl WrongArgs
         else case atoi (args ! 1) of None \<Rightarrow> Inl NotANumber
              | Some seconds \<Rightarrow> Inr (snd (store_Expire now (args ! 0) seconds s)))
      else if cmd = ''INCR'' then
        (if length args \<noteq> 1 then Inl WrongArgs else refused (store_IncrBy now (args ! 0) 1 s))
      else if cmd = ''DECR'' then
        (if length args \<noteq> 1 then Inl WrongArgs else refused (store_IncrBy now (args ! 0) (-1) s))
      else if cmd = ''INCRBY'' then
        (if length args \<noteq> 2 then Inl WrongArgs
         else case atoi (args ! 1) of None \<Rightarrow> Inl NotANumber
              | Some n \<Rightarrow> refused (store_IncrBy now (args ! 0) n s))
      else if cmd = ''DECRBY'' then
        (if length args \<noteq> 2 then Inl WrongArgs
         else case atoi (args ! 1) of None \<Rightarrow> Inl NotANumber
              | Some n \<Rightarrow> refused (store_IncrBy now (args ! 0) (wrap64 (- n)) s))
      else if cmd = ''LPUSH'' then
        (if length args < 2 then Inl WrongArgs
         else refused (store_LPush (args ! 0) (drop 1 args) s))
      else if cmd = ''RPUSH'' then
        (if length args < 2 then Inl WrongArgs
         else refused (store_RPush (args ! 0) (drop 1 args) s))
      else if cmd = ''HSET'' then
        (if length args < 3 \<or> length args mod 2 = 0 then Inl WrongArgs
         else refused (store_HSet (args ! 0) (drop 1 args) s))
      else if cmd = ''HDEL'' then
        (if length args < 2 then Inl WrongArgs
         else Inr (snd (store_HDel (args ! 0) (drop 1 args) s)))
      else if cmd = ''FLUSHALL'' then Inr (store_FlushAll s)
      else Inl Unsupported)"

text \<open>
  The replay loop over the bytes of the file; \<open>clk i\<close> is the clock when the \<open>i\<close>-th value is
  executed.  A parse error ends the replay, a command error skips the command.
\<close>

function replay_loop ::
  "(nat \<Rightarrow> int) \<Rightarrow> nat \<Rightarrow> string \<Rightarrow> Store \<Rightarrow> nat \<Rightarrow> (Store \<times> nat) outcome" where
  "replay_loop clk i r s count1 =
     (case Parse r of
        PErr err \<Rightarrow> Returns (s, count1)
      | PPanic r1 \<Rightarrow> Panics
      | POk val r1 \<Rightarrow>
          (if Typ val \<noteq> CHR ''*'' \<or> Array val = [] then replay_loop clk (Suc i) r1 s count1
           else case replayCommand (clk i) s (toUpper (Str (hd (Array val))))
                       (map Str (tl (Array val))) of
                  Inl err \<Rightarrow> replay_loop clk (Suc i) r1 s count1
                | Inr s' \<Rightarrow> replay_loop clk (Suc i) r1 s' (Suc count1)))"
  by pat_completeness auto
termination
  by (relation "measure (\<lambda>(clk, i, r, s, n). length r)") (auto dest: Parse_shorter)

declare replay_loop.simps [simp del]

definition aof_Replay :: "(nat \<Rightarrow> int) \<Rightarrow> AOF \<Rightarrow> Store \<Rightarrow> (Store \<times> nat) outcome" where
  "aof_Replay clk a s = replay_loop clk 0 (aof_file a) s 0"

end
