(* ===== verification/Aof_Replay.thy ===== *)
theory Aof_Replay
  imports Aof
begin

text \<open>
  From bytes to commands: a log the code wrote is the concatenation of encoded commands,
  replaying it executes them one by one, and what a torn last record does to the next start.
\<close>

section \<open>The bytes of a logged command\<close>

lemma resp_args_bytes: "resp_args buf ss = buf @ concat (map bulkBytes ss)"
  by (induction ss arbitrary: buf) (auto simp: bulkBytes_def)

lemma resp_args_array:
  "resp_args (w @ ''*'' @ itoa (int (length ss)) @ crlf) ss = w @ arrayBytes ss"
  by (simp add: resp_args_bytes arrayBytes_def)

lemma writeRESPCommand_bytes: "writeRESPCommand w cmd args = w @ arrayBytes (cmd # args)"
  using resp_args_array [of w "cmd # args"] by (simp add: writeRESPCommand_def)

lemma writeLocked_eq:
  "writeLocked os cmd args a =
     (let buf = arrayBytes (cmd # args) in
      case writer_err a of Some e \<Rightarrow> (Some (ErrIO e), a)
      | None \<Rightarrow>
          (case os_w os of
             WriteFails n e \<Rightarrow>
               (Some (ErrIO e), a\<lparr>aof_file := aof_file a @ take n buf, writer_err := Some e\<rparr>)
           | WriteOk \<Rightarrow>
               (let a1 = a\<lparr>aof_file := aof_file a @ buf\<rparr>;
                    a2 = (if rewriting a then a1\<lparr>rewriteBuf := rewriteBuf a @ buf\<rparr> else a1)
                in if fsync a = FsyncAlways
                   then case os_s os of
                          SyncFails e \<Rightarrow> (Some (ErrIO e), a1)
                        | SyncOk \<Rightarrow> (None, a2\<lparr>synced := length (aof_file a1)\<rparr>)
                   else (None, a2))))"
  using resp_args_array [of "[]" "cmd # args"] by (simp add: writeLocked_def)

lemma writeLocked_ok:
  assumes "writeLocked os cmd args a = (None, a')"
  shows "aof_file a' = aof_file a @ arrayBytes (cmd # args)"
    "rewriteBuf a' = rewriteBuf a @ (if rewriting a then arrayBytes (cmd # args) else [])"
    "rewriting a' = rewriting a" "rewriteRunning a' = rewriteRunning a" "fsync a' = fsync a"
    "fsync a = FsyncAlways \<Longrightarrow> synced a' = length (aof_file a')" "writer_err a' = None"
  using assms
  by (auto simp: writeLocked_eq Let_def split: option.splits os_write.splits os_sync.splits if_splits)

text \<open>
  C15: An acknowledged log entry is complete. When \<open>writeLocked\<close> reports success, the file
  has grown by exactly the encoded command, the rewrite buffer too if a rewrite is running,
  and under the \<open>always\<close> policy every byte of the file has been forced to disk.
\<close>

theorem writeLocked_durable:
  assumes "writeLocked os cmd args a = (None, a')"
  shows "aof_file a' = aof_file a @ arrayBytes (cmd # args)
    \<and> rewriteBuf a' = rewriteBuf a @ (if rewriting a then arrayBytes (cmd # args) else [])
    \<and> rewriting a' = rewriting a \<and> rewriteRunning a' = rewriteRunning a \<and> fsync a' = fsync a
    \<and> (fsync a = FsyncAlways \<longrightarrow> synced a' = length (aof_file a'))
    \<and> writer_err a' = None"
  using writeLocked_ok [OF assms] by simp

theorem writeLocked_durable_witness:
  "aof_file (snd (writeLocked \<lparr>os_w = WriteOk, os_s = SyncOk\<rparr> ''INCR'' [''c''] (NewAOF [] FsyncAlways)))
     = arrayBytes [''INCR'', ''c'']"
proof -
  let ?r = "writeLocked \<lparr>os_w = WriteOk, os_s = SyncOk\<rparr> ''INCR'' [''c''] (NewAOF [] FsyncAlways)"
  have "?r = (None, snd ?r)" by (simp add: writeLocked_eq NewAOF_def Let_def)
  from writeLocked_durable [OF this] show ?thesis by (simp add: NewAOF_def)
qed

section \<open>Replay, command by command\<close>

definition replay_entry :: "int \<Rightarrow> string list \<Rightarrow> Store \<Rightarrow> Store" where
  "replay_entry now c s =
     (if c = [] then s
      else case replayCommand now s (toUpper (hd c)) (tl c) of Inl e \<Rightarrow> s | Inr s' \<Rightarrow> s')"

fun replay_entries :: "(nat \<Rightarrow> int) \<Rightarrow> nat \<Rightarrow> string list list \<Rightarrow> Store \<Rightarrow> Store" where
  "replay_entries clk i [] s = s"
| "replay_entries clk i (c # cs) s = replay_entries clk (Suc i) cs (replay_entry (clk i) c s)"

lemma replay_entries_append:
  "replay_entries clk i (cs @ ds) s =
     replay_entries clk (i + length cs) ds (replay_entries clk i cs s)"
  by (induction cs arbitrary: i s) auto

lemma replay_loop_one:
  assumes "fits c"
  shows "\<exists>n'. replay_loop clk i (arrayBytes c @ t) s n =
     replay_loop clk (Suc i) t (replay_entry (clk i) c s) n'"
proof -
  have "replay_loop clk i (arrayBytes c @ t) s n =
      (if map bulkValue c = [] then replay_loop clk (Suc i) t s n
       else case replayCommand (clk i) s (toUpper (Str (hd (map bulkValue c))))
                   (map Str (tl (map bulkValue c))) of
              Inl err \<Rightarrow> replay_loop clk (Suc i) t s n
            | Inr s' \<Rightarrow> replay_loop clk (Suc i) t s' (Suc n))"
    by (subst replay_loop.simps) (simp add: Parse_array [OF assms])
  then show ?thesis
    by (cases c) (auto simp: replay_entry_def split: sum.split)
qed

lemma replay_loop_entries:
  assumes "list_all fits cs"
  shows "\<exists>n'. replay_loop clk i (concat (map arrayBytes cs) @ t) s n =
     replay_loop clk (i + length cs) t (replay_entries clk i cs s) n'"
  using assms
proof (induction cs arbitrary: i s n)
  case (Cons c cs)
  obtain n1 where "replay_loop clk i (arrayBytes c @ concat (map arrayBytes cs) @ t) s n =
      replay_loop clk (Suc i) (concat (map arrayBytes cs) @ t) (replay_entry (clk i) c s) n1"
    using replay_loop_one Cons.prems by fastforce
  then show ?case
    using Cons.IH [of "Suc i" "replay_entry (clk i) c s" n1] Cons.prems by auto
qed auto

lemma Parse_Nil [simp]: "Parse [] = PErr EOF"
  by (simp add: Parse_unfold readLine_def)

lemma replay_file:
  assumes "list_all fits cs" "aof_file a = concat (map arrayBytes cs)"
  shows "\<exists>n. aof_Replay clk a s = Returns (replay_entries clk 0 cs s, n)"
proof -
  obtain n where "aof_Replay clk a s = replay_loop clk (length cs) [] (replay_entries clk 0 cs s) n"
    using replay_loop_entries [OF assms(1), of clk 0 "[]" s 0] assms(2)
    by (auto simp: aof_Replay_def)
  then show ?thesis by (subst (asm) replay_loop.simps) simp
qed

text \<open>
  C13: Replay of a log. If the file is a concatenation of encoded commands, \<open>Replay\<close> does
  not panic and leaves the store that executing those commands one after the other leaves,
  each at the clock reading of its own execution.
\<close>

theorem replay_of_log:
  assumes "list_all fits cs" "aof_file a = concat (map arrayBytes cs)"
  shows "\<exists>n. aof_Replay clk a s = Returns (replay_entries clk 0 cs s, n)"
  by (rule replay_file [OF assms])

theorem replay_of_log_witness:
  "\<exists>n. aof_Replay int (NewAOF (arrayBytes [''set'', ''k'', ''v''] @ arrayBytes [''FLUSHALL'']) FsyncNo)
        store_New = Returns (replay_entries int 0 [[''set'', ''k'', ''v''], [''FLUSHALL'']] store_New, n)"
  using replay_of_log [of "[[''set'', ''k'', ''v''], [''FLUSHALL'']]"
      "NewAOF (arrayBytes [''set'', ''k'', ''v''] @ arrayBytes [''FLUSHALL'']) FsyncNo" int store_New]
  by (simp add: NewAOF_def fits_def small_def maxAlloc_def sizeofValue_def)

section \<open>Torn records\<close>

text \<open>Errors other than the end of the stream, and panics, do not depend on what follows.\<close>

lemma readLine_append_Malformed: "readLine r = Inl Malformed \<Longrightarrow> readLine (r @ t) = Inl Malformed"
proof -
  assume a: "readLine r = Inl Malformed"
  let ?P = "\<lambda>c. c \<noteq> CHR 0x0A"
  have d: "dropWhile ?P r \<noteq> []" using a by (auto simp: readLine_def Let_def split: if_splits)
  then obtain x where "x \<in> set r" "\<not> ?P x" by (auto simp: dropWhile_eq_Nil_conv)
  then have "takeWhile ?P (r @ t) = takeWhile ?P r" "dropWhile ?P (r @ t) = dropWhile ?P r @ t"
    by (auto intro: takeWhile_append1 dropWhile_append1)
  with a d show ?thesis by (auto simp: readLine_def Let_def split: if_splits)
qed

lemma readFull_append_Malformed:
  "readFull r n = Inl Malformed \<Longrightarrow> 2 \<le> n \<Longrightarrow> readFull (r @ t) n = Inl Malformed"
  by (auto simp: readFull_def nth_append split: if_splits)

definition definite :: "'a pres \<Rightarrow> bool" where
  "definite x \<longleftrightarrow> x \<noteq> PErr EOF"

fun extend :: "string \<Rightarrow> 'a pres \<Rightarrow> 'a pres" where
  "extend t (POk v r) = POk v (r @ t)"
| "extend t (PErr e) = PErr e"
| "extend t (PPanic r) = PPanic (r @ t)"

lemma parse_extend:
  "parse_fuel fuel r = Some x \<Longrightarrow> definite x \<Longrightarrow> parse_fuel fuel (r @ t) = Some (extend t x)"
  "parse_array fuel n r = Some y \<Longrightarrow> definite y \<Longrightarrow> parse_array fuel n (r @ t) = Some (extend t y)"
proof (induction fuel arbitrary: r n x y)
  case 0
  { case 1 then show ?case by simp
  next
    case 2 then show ?case by (cases n) auto }
next
  case (Suc fuel)
  have P: "parse_fuel (Suc fuel) (r @ t) = Some (extend t x)"
    if a: "parse_fuel (Suc fuel) r = Some x" and x: "definite x" for r x
  proof (cases "readLine r")
    case (Inl e)
    with a x have "e = Malformed" "x = PErr Malformed"
      by (cases e; simp add: parse_fuel.simps(2) definite_def)+
    with Inl show ?thesis
      using readLine_append_Malformed [of r t] by (simp add: parse_fuel.simps(2))
  next
    case (Inr p)
    obtain line r0 where l: "readLine r = Inr (line, r0)" using Inr by (cases p) auto
    have m: "readFull r0 n = Inl e \<Longrightarrow> e \<noteq> EOF \<Longrightarrow> 2 \<le> n \<Longrightarrow> readFull (r0 @ t) n = Inl e" for n e
      using readFull_append_Malformed by (cases e) auto
    show ?thesis
      using a x unfolding parse_fuel.simps(2) l readLine_append [OF l] sum.case prod.case Let_def
      by (auto split: if_splits option.splits sum.splits pres.splits
          simp: readFull_append Suc.IH(2) definite_def m)
  qed
  { case 1 then show ?case by (rule P)
  next
    case 2 then show ?case
    proof (induction n arbitrary: r y)
      case (Suc n)
      then show ?case by (fastforce simp: P definite_def split: pres.splits option.splits)
    qed simp }
qed

lemma Parse_extend: "Parse r \<noteq> PErr EOF \<Longrightarrow> Parse (r @ t) = extend t (Parse r)"
proof -
  assume d: "Parse r \<noteq> PErr EOF"
  let ?f = "Suc (length r + length t)"
  have "parse_fuel ?f (r @ t) = Some (extend t (Parse r))"
    using d parse_fuel_Parse [of r ?f] by (intro parse_extend) (auto simp: definite_def)
  then show ?thesis using parse_fuel_Parse [of "r @ t" ?f] by simp
qed

lemma Parse_torn:
  assumes "fits c" "arrayBytes c = t @ u" "u \<noteq> []"
  shows "Parse t = PErr EOF"
proof (rule ccontr)
  assume "Parse t \<noteq> PErr EOF"
  then have "Parse (arrayBytes c) = extend u (Parse t)"
    using Parse_extend [of t u] assms(2) by simp
  moreover have "Parse (arrayBytes c) = POk (MkValue (CHR ''*'') [] 0 (map bulkValue c)) []"
    using Parse_array [OF assms(1), of "[]"] by simp
  ultimately show False using assms(3) by (cases "Parse t") auto
qed

lemma replay_torn:
  assumes "list_all fits cs" "fits c" "arrayBytes c = t @ u" "u \<noteq> []"
    "aof_file a = concat (map arrayBytes cs) @ t"
  shows "\<exists>n. aof_Replay clk a s = Returns (replay_entries clk 0 cs s, n)"
proof -
  obtain n where "aof_Replay clk a s = replay_loop clk (length cs) t (replay_entries clk 0 cs s) n"
    using replay_loop_entries [OF assms(1), of clk 0 t s 0] assms(5) by (auto simp: aof_Replay_def)
  then show ?thesis by (subst (asm) replay_loop.simps) (simp add: Parse_torn [OF assms(2-4)])
qed

text \<open>
  C14: A torn last record. If the process dies while a command is being appended, so that the
  file ends in a proper prefix of its encoding, the next replay executes every command before
  it and stops there: only the torn command is missing.
\<close>

theorem torn_record_is_dropped:
  assumes "list_all fits cs" "fits c" "arrayBytes c = t @ u" "u \<noteq> []"
    "aof_file a = concat (map arrayBytes cs) @ t"
  shows "\<exists>n. aof_Replay clk a s = Returns (replay_entries clk 0 cs s, n)"
  by (rule replay_torn [OF assms])

theorem torn_record_is_dropped_witness:
  "\<exists>n. aof_Replay int (NewAOF (arrayBytes [''SET'', ''k'', ''v''] @ ''*1'') FsyncNo) store_New
     = Returns (replay_entries int 0 [[''SET'', ''k'', ''v'']] store_New, n)"
proof -
  have f: "list_all fits [[''SET'', ''k'', ''v'']]" "fits [''FLUSHALL'']"
    by (simp_all add: fits_def small_def maxAlloc_def sizeofValue_def)
  have "itoa 1 = ''1''" by code_simp
  then have "arrayBytes [''FLUSHALL''] = ''*1'' @ crlf @ bulkBytes ''FLUSHALL''"
    by (simp add: arrayBytes_def)
  then show ?thesis
    using torn_record_is_dropped [OF f, of "''*1''" "crlf @ bulkBytes ''FLUSHALL''"
        "NewAOF (arrayBytes [''SET'', ''k'', ''v''] @ ''*1'') FsyncNo" int store_New]
    by (simp add: NewAOF_def crlf_def)
qed

section \<open>Logging behind a torn record\<close>

text \<open>
  What is left of the record of \<open>c\<close> when it is torn off after its first \<open>k\<close> strings, and commands that are appended
  one after the other, all of them acknowledged.
\<close>

definition torn_at :: "nat \<Rightarrow> string list \<Rightarrow> string" where
  "torn_at k c = CHR ''*'' # itoa (int (length c)) @ crlf @ concat (map bulkBytes (take k c))"

fun log_all :: "(osenv \<times> string \<times> string list) list \<Rightarrow> AOF \<Rightarrow> AOF option" where
  "log_all [] a = Some a"
| "log_all ((os, cmd, args) # ws) a =
     (case writeLocked os cmd args a of (None, a') \<Rightarrow> log_all ws a' | (Some e, a') \<Rightarrow> None)"

definition entries :: "(osenv \<times> string \<times> string list) list \<Rightarrow> string list list" where
  "entries ws = map (\<lambda>(os, cmd, args). cmd # args) ws"

lemma log_all_file:
  "log_all ws a = Some a' \<Longrightarrow> aof_file a' = aof_file a @ concat (map arrayBytes (entries ws))"
proof (induction ws a rule: log_all.induct)
  case (2 os cmd args ws a)
  then show ?case
    using writeLocked_ok(1) by (fastforce simp: entries_def split: prod.splits option.splits)
qed (simp add: entries_def)

lemma torn_prefix: "torn_at k c @ concat (map bulkBytes (drop k c)) = arrayBytes c"
  by (simp add: torn_at_def arrayBytes_def flip: concat_append map_append)

lemma ParseArray_add:
  "ParseArray n r = POk vs r1 \<Longrightarrow> ParseArray (n + m) r =
     (case ParseArray m r1 of PErr err \<Rightarrow> PErr err | PPanic r2 \<Rightarrow> PPanic r2 | POk ws r2 \<Rightarrow> POk (vs @ ws) r2)"
proof (induction n arbitrary: r vs)
  case 0
  then show ?case by (simp split: pres.split)
next
  case (Suc n)
  then show ?case by (fastforce simp: ParseArray_Suc split: pres.splits)
qed

definition arrayValue :: "string list \<Rightarrow> Value" where
  "arrayValue d = MkValue (CHR ''*'') [] 0 (map bulkValue d)"

lemma ParseArray_records:
  "list_all fits ds \<Longrightarrow> ParseArray (length ds) (concat (map arrayBytes ds) @ r) = POk (map arrayValue ds) r"
  by (induction ds) (simp_all add: ParseArray_Suc Parse_array arrayValue_def)

text \<open>The missing strings are taken from the records that follow, one record for each.\<close>

lemma Parse_torn_at:
  assumes "fits c" "k < length c" "list_all fits ds" "length ds = length c - k"
  shows "Parse (torn_at k c @ concat (map arrayBytes ds) @ r) =
    POk (MkValue (CHR ''*'') [] 0 (map bulkValue (take k c) @ map arrayValue ds)) r"
proof -
  have "list_all small (take k c)" using assms(1) by (auto simp: fits_def list_all_iff dest: in_set_takeD)
  from ParseArray_bulks [OF this] assms(2)
  have "ParseArray k (concat (map bulkBytes (take k c)) @ concat (map arrayBytes ds) @ r)
      = POk (map bulkValue (take k c)) (concat (map arrayBytes ds) @ r)" by simp
  from ParseArray_add [OF this, of "length ds"] ParseArray_records [OF assms(3), of r] assms(2,4)
  have "ParseArray (length c) (concat (map bulkBytes (take k c)) @ concat (map arrayBytes ds) @ r)
      = POk (map bulkValue (take k c) @ map arrayValue ds) r" by simp
  then show ?thesis
    using fits_int64 [OF assms(1)] by (simp add: torn_at_def Parse_unfold readLine_typ)
qed

lemma Parse_torn_at_end:
  assumes "fits c" "k < length c" "list_all fits ds" "length ds < length c - k"
  shows "Parse (torn_at k c @ concat (map arrayBytes ds)) = PErr EOF"
proof -
  have "list_all small (take k c)" using assms(1) by (auto simp: fits_def list_all_iff dest: in_set_takeD)
  from ParseArray_bulks [OF this] assms(2)
  have 1: "ParseArray k (concat (map bulkBytes (take k c)) @ concat (map arrayBytes ds))
      = POk (map bulkValue (take k c)) (concat (map arrayBytes ds))" by simp
  obtain m where m: "length c - k = length ds + Suc m" using assms(4) less_iff_Suc_add by auto
  have "ParseArray (length ds) (concat (map arrayBytes ds)) = POk (map arrayValue ds) []"
    using ParseArray_records [OF assms(3), of "[]"] by simp
  from ParseArray_add [OF this, of "Suc m"]
  have "ParseArray (length ds + Suc m) (concat (map arrayBytes ds)) = PErr EOF"
    by (simp add: ParseArray_Suc)
  moreover have "k + (length c - k) = length c" using assms(2) by simp
  ultimately have "ParseArray (length c) (concat (map bulkBytes (take k c)) @ concat (map arrayBytes ds)) = PErr EOF"
    using ParseArray_add [OF 1, of "length c - k"] by (simp add: m)
  then show ?thesis
    using fits_int64 [OF assms(1)] by (simp add: torn_at_def Parse_unfold readLine_typ)
qed

lemma replay_loop_value:
  assumes "Parse r = POk v r1" "Typ v = CHR ''*''" "Array v \<noteq> []"
  shows "\<exists>n'. replay_loop clk i r s n =
     replay_loop clk (Suc i) r1 (replay_entry (clk i) (map Str (Array v)) s) n'"
proof -
  obtain x xs where v: "Array v = x # xs" using assms(3) by (cases "Array v") auto
  show ?thesis
    by (cases "replayCommand (clk i) s (toUpper (Str x)) (map Str xs)")
      (auto simp: replay_loop.simps [of clk i r] assms(1,2) v replay_entry_def)
qed

text \<open>
  C40: A torn record takes the next commands with it. \<open>NewAOF\<close> opens the file for appending and nothing cuts a torn
  record off, so new commands land behind it. Let the record be torn off between two of its strings (inside a length
  it is worse, \<open>torn_length_ends_replay\<close>), with \<open>m\<close> strings missing, and let the reopened log acknowledge any
  commands. Then the next replay reads the first \<open>m\<close> of them as the missing strings: as long as there are fewer, it
  ends before all of them; once there are \<open>m\<close>, it executes the torn command with empty strings in their place, and
  only the commands after them as they were written.
\<close>

theorem torn_record_swallows_next:
  assumes "list_all fits cs" "fits c" "k < length c"
    "log_all ws (NewAOF (concat (map arrayBytes cs) @ torn_at k c) policy) = Some a'"
    "list_all fits (entries ws)"
  defines "m \<equiv> length c - k"
  shows "\<exists>n. aof_Replay clk a' s = Returns
     (if length ws < m then replay_entries clk 0 cs s
      else replay_entries clk 0 (cs @ [take k c @ replicate m []] @ drop m (entries ws)) s, n)"
proof -
  let ?ds = "entries ws" and ?s = "replay_entries clk 0 cs s"
  have len: "length ?ds = length ws" by (simp add: entries_def)
  have "aof_file a' = concat (map arrayBytes cs) @ torn_at k c @ concat (map arrayBytes ?ds)"
    using log_all_file [OF assms(4)] by (simp add: NewAOF_def)
  then obtain n where n: "aof_Replay clk a' s =
      replay_loop clk (length cs) (torn_at k c @ concat (map arrayBytes ?ds)) ?s n"
    using replay_loop_entries [OF assms(1), of clk 0 "torn_at k c @ concat (map arrayBytes ?ds)" s 0]
    by (auto simp: aof_Replay_def)
  show ?thesis
  proof (cases "length ws < m")
    case True
    from Parse_torn_at_end [OF assms(2,3,5)] True len
    have "Parse (torn_at k c @ concat (map arrayBytes ?ds)) = PErr EOF" by (simp add: m_def)
    with n True show ?thesis by (subst (asm) replay_loop.simps) simp
  next
    case False
    have f: "list_all fits (take m ?ds)" "list_all fits (drop m ?ds)"
      using assms(5) by (auto simp: list_all_iff dest: in_set_takeD in_set_dropD)
    have "concat (map arrayBytes ?ds) = concat (map arrayBytes (take m ?ds)) @ concat (map arrayBytes (drop m ?ds))"
      by (metis append_take_drop_id concat_append map_append)
    with Parse_torn_at [OF assms(2,3) f(1)] False len
    have P: "Parse (torn_at k c @ concat (map arrayBytes ?ds)) = POk (MkValue (CHR ''*'') [] 0
        (map bulkValue (take k c) @ map arrayValue (take m ?ds))) (concat (map arrayBytes (drop m ?ds)))"
      by (simp add: m_def)
    let ?h = "take k c @ replicate m []" and ?vs = "map bulkValue (take k c) @ map arrayValue (take m ?ds)"
    have strs: "map Str ?vs = ?h"
      using False len by (simp add: bulkValue_def arrayValue_def comp_def map_replicate_const min_def)
    have "?h \<noteq> []" using assms(3) by (simp add: m_def)
    then have "?vs \<noteq> []" using strs by (metis list.map(1))
    with replay_loop_value [OF P, of clk "length cs" ?s n] obtain n' where
      "replay_loop clk (length cs) (torn_at k c @ concat (map arrayBytes ?ds)) ?s n
      = replay_loop clk (Suc (length cs)) (concat (map arrayBytes (drop m ?ds))) (replay_entry (clk (length cs)) ?h ?s) n'"
      using strs by auto
    moreover obtain n2 where "replay_loop clk (Suc (length cs)) (concat (map arrayBytes (drop m ?ds)))
        (replay_entry (clk (length cs)) ?h ?s) n'
      = replay_loop clk (Suc (length cs) + length (drop m ?ds)) []
          (replay_entries clk (Suc (length cs)) (drop m ?ds) (replay_entry (clk (length cs)) ?h ?s)) n2"
      using replay_loop_entries [OF f(2), of clk "Suc (length cs)" "[]" "replay_entry (clk (length cs)) ?h ?s" n'] by auto
    moreover have "replay_loop clk i [] x n2 = Returns (x, n2)" for i x
      by (subst replay_loop.simps) simp
    ultimately show ?thesis using n False by (simp add: replay_entries_append)
  qed
qed

text \<open>A \<open>SET\<close> that lost its value takes the next \<open>SET\<close> for it: one key is empty and the other is missing.\<close>

theorem torn_record_swallows_next_witness:
  "\<exists>a' n s'. log_all [(\<lparr>os_w = WriteOk, os_s = SyncOk\<rparr>, ''SET'', [''b'', ''y''])]
         (NewAOF (torn_at 2 [''SET'', ''a'', ''x'']) FsyncAlways) = Some a'
     \<and> aof_Replay int a' store_New = Returns (s', n) \<and> s' = replay_entries int 0 [[''SET'', ''a'', []]] store_New"
proof -
  let ?ws = "[(\<lparr>os_w = WriteOk, os_s = SyncOk\<rparr>, ''SET'', [''b'', ''y''])]"
  let ?c = "[''SET'', ''a'', ''x'']" and ?a = "NewAOF (torn_at 2 [''SET'', ''a'', ''x'']) FsyncAlways"
  obtain a' where a': "log_all ?ws ?a = Some a'"
    by (simp add: writeLocked_eq NewAOF_def Let_def)
  have "log_all ?ws (NewAOF (concat (map arrayBytes []) @ torn_at 2 ?c) FsyncAlways) = Some a'" using a' by simp
  from torn_record_swallows_next [OF _ _ _ this, of int store_New] a' show ?thesis
    by (auto simp: entries_def fits_def small_def maxAlloc_def sizeofValue_def numeral_2_eq_2)
qed

text \<open>
  A record that is torn inside a length (of the command, or of one of its strings) is completed by the first
  byte of the next record, which is no digit: the replay ends there, and whatever is logged from then on is lost.
\<close>

lemma digits_val_star: "digits_val n (p @ CHR ''*'' # x) = None"
  by (induction p arbitrary: n) (auto simp: isDigit_def code_def)

lemma atoi_star: "atoi (p @ CHR ''*'' # x) = None"
proof (cases p)
  case Nil
  then show ?thesis using digits_val_star [of 0 "[]" x] by (simp add: atoi_def)
next
  case (Cons c p')
  then show ?thesis
    using digits_val_star [of 0 p' x] digits_val_star [of 0 p x] by (auto simp: atoi_def Let_def)
qed

lemma Parse_torn_length:
  assumes "p @ q = itoa n @ crlf" "q \<noteq> []" "ty = CHR ''*'' \<or> ty = CHR 0x24"
  shows "Parse (ty # p @ arrayBytes d @ r) = PErr Malformed"
proof -
  have "p = butlast (p @ q) \<or> p = take (length p) (butlast (p @ q))"
    using assms(2) by (auto simp: butlast_append)
  then have "set p \<subseteq> set (butlast (itoa n @ crlf))"
    unfolding assms(1) by (metis order.refl set_take_subset)
  then have "CHR 0x0A \<notin> set (p @ CHR ''*'' # itoa (int (length d)))"
    by (auto simp: butlast_append crlf_def)
  from readLine_typ [OF this, of ty] assms(3)
  have "readLine (ty # p @ arrayBytes d @ r)
      = Inr (ty # p @ CHR ''*'' # itoa (int (length d)), concat (map bulkBytes d) @ r)"
    by (auto simp: arrayBytes_def)
  then show ?thesis using assms(3) atoi_star by (auto simp: Parse_unfold)
qed

lemma torn_length_ends_replay:
  assumes "list_all fits cs" "fits c" "p @ q = itoa n @ crlf" "q \<noteq> []"
    "t = CHR ''*'' # p \<or> k < length c \<and> t = torn_at k c @ CHR 0x24 # p"
    "log_all ws (NewAOF (concat (map arrayBytes cs) @ t) policy) = Some a'" "ws \<noteq> []"
  shows "\<exists>m. aof_Replay clk a' s = Returns (replay_entries clk 0 cs s, m)"
proof -
  obtain d ds where d: "entries ws = d # ds" using assms(7) by (cases ws) (auto simp: entries_def)
  let ?r = "concat (map arrayBytes ds)"
  have "aof_file a' = concat (map arrayBytes cs) @ t @ arrayBytes d @ ?r"
    using log_all_file [OF assms(6)] by (simp add: NewAOF_def d)
  then obtain m where m: "aof_Replay clk a' s = replay_loop clk (length cs) (t @ arrayBytes d @ ?r) (replay_entries clk 0 cs s) m"
    using replay_loop_entries [OF assms(1), of clk 0 "t @ arrayBytes d @ ?r" s 0] by (auto simp: aof_Replay_def)
  have "Parse (t @ arrayBytes d @ ?r) = PErr Malformed"
    using assms(5)
  proof
    assume "t = CHR ''*'' # p"
    then show ?thesis using Parse_torn_length [OF assms(3,4)] by simp
  next
    assume t: "k < length c \<and> t = torn_at k c @ CHR 0x24 # p"
    let ?u = "CHR 0x24 # p @ arrayBytes d @ ?r"
    have "list_all small (take k c)" using assms(2) by (auto simp: fits_def list_all_iff dest: in_set_takeD)
    from ParseArray_bulks [OF this, of ?u] t
    have 1: "ParseArray k (concat (map bulkBytes (take k c)) @ ?u) = POk (map bulkValue (take k c)) ?u" by simp
    obtain l where l: "length c = k + Suc l" using t less_iff_Suc_add by auto
    have "Parse ?u = PErr Malformed" using Parse_torn_length [OF assms(3,4)] by simp
    then have "ParseArray (Suc l) ?u = PErr Malformed" by (simp add: ParseArray_Suc)
    with ParseArray_add [OF 1, of "Suc l"]
    have "ParseArray (length c) (concat (map bulkBytes (take k c)) @ ?u) = PErr Malformed" by (simp add: l)
    then show ?thesis
      using fits_int64 [OF assms(2)] t by (simp add: torn_at_def Parse_unfold readLine_typ)
  qed
  with m show ?thesis by (subst (asm) replay_loop.simps) simp
qed

end
