(* ===== verification/Kv_Expiry.thy ===== *)
theory Kv_Expiry
  imports Kv_Contracts
begin

text \<open>
  Everything with a clock: \<open>TTL\<close> and \<open>EXPIRE\<close>, the sampling active-expiry tick, and the
  interleaving of the two critical sections of a lazy expiry with other clients.
\<close>

section \<open>TTL\<close>

lemma roundedSeconds_error:
  assumes "0 \<le> d" "d < 2 ^ 63"
  shows "\<bar>roundedSeconds d * second - d\<bar> \<le> second div 2 + 10000"
proof -
  define q r where "q = (of_int (d div second) :: rat)" and "r = (of_int (d mod second) :: rat)"
  define f1 where "f1 = fl64 (r / of_int second)"
  define f2 where "f2 = fl64 (q + f1)"
  define f3 where "f3 = fl64 (f2 + 1 / 2)"
  have sec: "(of_int second :: rat) = 1000000000" by (simp add: second_def)
  have q: "0 \<le> q" "q \<le> 9223372037"
    using assms by (auto simp: q_def second_def)
  have r: "0 \<le> r" "r < 1000000000"
    by (auto simp: r_def second_def)
  have d: "(of_int d :: rat) = q * 1000000000 + r"
    unfolding q_def r_def
    by (metis div_mult_mod_eq of_int_add of_int_mult sec)
  have 1: "\<bar>f1 - r / 1000000000\<bar> \<le> r / 1000000000 / 2 ^ 53"
    using fl64_error [of "r / of_int second"] r by (simp add: f1_def sec)
  have n1: "0 \<le> f1" by (simp add: f1_def fl64_nonneg)
  have 2: "\<bar>f2 - (q + f1)\<bar> \<le> (q + f1) / 2 ^ 53"
    using fl64_error [of "q + f1"] q n1 by (simp add: f2_def)
  have n2: "0 \<le> f2" by (simp add: f2_def fl64_nonneg)
  have 3: "\<bar>f3 - (f2 + 1 / 2)\<bar> \<le> (f2 + 1 / 2) / 2 ^ 53"
    using fl64_error [of "f2 + 1 / 2"] n2 by (simp add: f3_def)
  have e: "\<bar>f3 * 1000000000 - (of_int d + 500000000)\<bar> \<le> 9000"
  proof -
    have a: "f1 - r / 1000000000 \<le> 1 / 2 ^ 53" "r / 1000000000 - f1 \<le> 1 / 2 ^ 53"
      using order_trans [OF 1, of "1 / 2 ^ 53"] r unfolding abs_le_iff by auto
    then have "f1 \<le> 2" using r by simp
    then have b: "f2 - (q + f1) \<le> 9223372039 / 2 ^ 53" "(q + f1) - f2 \<le> 9223372039 / 2 ^ 53"
      using order_trans [OF 2, of "9223372039 / 2 ^ 53"] q unfolding abs_le_iff by auto
    then have "f2 \<le> 9223372040" using \<open>f1 \<le> 2\<close> q by simp
    then have c: "f3 - (f2 + 1 / 2) \<le> 9223372041 / 2 ^ 53"
      "(f2 + 1 / 2) - f3 \<le> 9223372041 / 2 ^ 53"
      using order_trans [OF 3, of "9223372041 / 2 ^ 53"] unfolding abs_le_iff by auto
    show ?thesis using a b c unfolding d abs_le_iff by simp
  qed
  have rs: "roundedSeconds d = \<lfloor>f3\<rfloor>"
    by (simp add: roundedSeconds_def f3_def f2_def f1_def q_def r_def)
  have "of_int (roundedSeconds d) \<le> f3" "f3 < of_int (roundedSeconds d) + 1"
    unfolding rs by linarith+
  with e have "of_int (roundedSeconds d) * 1000000000 \<le> (of_int d + 500009000 :: rat)"
    "(of_int d - 500009000 :: rat) \<le> of_int (roundedSeconds d) * 1000000000"
    by (auto simp: abs_le_iff)
  then have "of_int (roundedSeconds d * 1000000000) \<le> (of_int (d + 500009000) :: rat)"
    "(of_int (d - 500009000) :: rat) \<le> of_int (roundedSeconds d * 1000000000)"
    by simp_all
  then show ?thesis unfolding of_int_le_iff by (simp add: second_def)
qed

text \<open>
  C35: TTL. The reply is computed from the strings alone: -2 for a key with no string value or an expired one, -1
  for a string without expiry, and otherwise the remaining time to the nearest second: the
  floating-point rounding of the code moves it by at most ten microseconds.  So an existing list or hash, which
  can have no expiry, is reported as -2, the answer documented for a missing key, and not as the documented -1
  (\<open>ttl_of_list_is_missing\<close>).
\<close>

theorem ttl_correct:
  assumes "now1 \<le> now2" "\<And>v t. ks_str (view s) key = Some (v, UnixNano t) \<Longrightarrow> t - now2 < 2 ^ 63"
  shows "case ks_str (view s) key of
      None \<Rightarrow> fst (store_TTL now1 now2 key s) = -2
    | Some (v, ZeroTime) \<Rightarrow> fst (store_TTL now1 now2 key s) = -1
    | Some (v, UnixNano t) \<Rightarrow>
        if t < now2 then fst (store_TTL now1 now2 key s) = -2
        else \<bar>fst (store_TTL now1 now2 key s) * second - (t - now2)\<bar> \<le> second div 2 + 10000"
proof (cases "map_of (data s) key")
  case None
  then show ?thesis by (simp add: view_def store_TTL_def get_lookup_def)
next
  case (Some e)
  show ?thesis
  proof (cases "ExpiresAt e")
    case ZeroTime
    with Some show ?thesis by (simp add: view_def store_TTL_def get_lookup_def isExpired_def)
  next
    case (UnixNano t)
    with Some have v: "ks_str (view s) key = Some (Value e, UnixNano t)" by (simp add: view_def)
    show ?thesis
    proof (cases "t < now2")
      case True
      with Some UnixNano show ?thesis
        by (simp add: v store_TTL_def get_lookup_def isExpired_def Until_def)
    next
      case False
      then have u: "Until now2 t = t - now2" using assms(2) [OF v] by (simp add: Until_def)
      have "fst (store_TTL now1 now2 key s) = roundedSeconds (t - now2)"
        using False assms(1) Some UnixNano u
        by (simp add: store_TTL_def get_lookup_def isExpired_def)
      then show ?thesis
        using False roundedSeconds_error [of "t - now2"] assms(2) [OF v] by (simp add: v)
    qed
  qed
qed

theorem ttl_correct_witness:
  "\<bar>fst (store_TTL 0 0 ''k'' (store_step (OpSet 0 ''k'' ''v'' 90000000000) store_New)) * second
     - 90000000000\<bar> \<le> second div 2 + 10000"
proof -
  let ?s = "store_step (OpSet 0 ''k'' ''v'' 90000000000) store_New"
  have v: "ks_str (view ?s) ''k'' = Some (''v'', UnixNano 90000000000)"
    by (simp add: store_Set_def store_New_def checkMemoryLocked_def view_def)
  show ?thesis using ttl_correct [of 0 0 ?s "''k''"] by (simp add: v del: store_step.simps)
qed

text \<open>
  \<open>TTL\<close> denies lists and hashes. The documentation answers -2 only for keys that do not exist and -1 for those
  without expiry; a key that is visible as a list or hash, and holds no string, is answered -2.
\<close>

lemma ttl_of_list_is_missing:
  assumes "ks_list (view s) key \<noteq> None \<or> ks_hash (view s) key \<noteq> None" "ks_str (view s) key = None"
  shows "visible now1 s key \<and> fst (store_TTL now1 now2 key s) = -2"
  using assms by (auto simp: visible_def view_def store_TTL_def get_lookup_def)

lemma ttl_of_list_is_missing_witness:
  "visible 0 (store_New\<lparr>lists := [(''l'', [''x''])]\<rparr>) ''l''
   \<and> fst (store_TTL 0 0 ''l'' (store_New\<lparr>lists := [(''l'', [''x''])]\<rparr>)) = -2"
  by (rule ttl_of_list_is_missing) (simp_all add: view_def store_New_def)

section \<open>Expire\<close>

lemma expire_view:
  "view (snd (store_Expire now key secs s)) =
      (view s)\<lparr>ks_str := (ks_str (view s))
         (key := map_option (\<lambda>(v, x). (v, UnixNano (now + wrap64 (secs * second))))
                   (ks_str (view s) key))\<rparr>"
  by (auto simp: store_Expire_def view_def fun_eq_iff split: option.splits)

text \<open>
  EXPIRE. The reply says whether the key holds a string, and exactly then the expiry
  becomes the clock plus the 64-bit product of the seconds; value, other keys and other types
  are untouched. Whether the old expiry has already passed is not looked at.
\<close>

lemma expire_correct:
  "fst (store_Expire now key secs s) = (ks_str (view s) key \<noteq> None)
   \<and> view (snd (store_Expire now key secs s)) =
      (view s)\<lparr>ks_str := (ks_str (view s))
         (key := map_option (\<lambda>(v, x). (v, UnixNano (now + wrap64 (secs * second))))
                   (ks_str (view s) key))\<rparr>"
  by (simp add: expire_view) (simp add: store_Expire_def view_def split: option.split)

text \<open>
  EXPIRE revives an expired key. A key that \<open>Get\<close> would report as gone comes back with
  its old value when \<open>EXPIRE\<close> reaches it before the lazy or active expiry does.
\<close>

lemma expire_revives_expired:
  assumes "map_of (data s) key = Some e" "isExpired now e" "0 \<le> secs" "secs \<le> 9223372036"
  shows "fst (store_Get now key s) = None
    \<and> fst (store_Get now key (snd (store_Expire now key secs s))) = Some (Value e)"
  using assms by (auto simp: store_Get_def get_lookup_def store_Expire_def isExpired_def
      second_def int64_def)

lemma expire_revives_expired_witness:
  "fst (store_Get 100 ''k'' (snd (store_Expire 100 ''k'' 10
      (store_step (OpSet 0 ''k'' ''old'' 50) store_New)))) = Some ''old''"
  using expire_revives_expired [of "store_step (OpSet 0 ''k'' ''old'' 50) store_New" "''k''"
      "\<lparr>Value = ''old'', ExpiresAt = UnixNano 50\<rparr>" 100 10]
  by (simp add: store_Set_def store_New_def checkMemoryLocked_def isExpired_def)

section \<open>The active-expiry tick\<close>

lemma deleteExpired_visible:
  assumes "map_of (data s) k = Some e" "isExpired now e" "now \<le> t"
  shows "visible t (deleteExpiredLocked k s) k' \<longleftrightarrow> visible t s k'"
proof -
  have "ks_str (view s) k = Some (Value e, ExpiresAt e)" using assms(1) by (simp add: view_def)
  moreover have "\<not> alive t (ExpiresAt e)"
    using assms(2,3) alive_mono by (auto simp: isExpired_alive)
  ultimately show ?thesis by (auto simp: visible_def view_deleteExpired)
qed

text \<open>One tick, whatever keys it samples and in whatever order.\<close>

lemma sampleExpire_safe:
  assumes "store_inv s" "\<And>r. clk r \<le> t"
  shows "store_inv (store_sampleExpire clk ord s)
    \<and> visible t (store_sampleExpire clk ord s) = visible t s
    \<and> map_of (data (store_sampleExpire clk ord s)) \<subseteq>\<^sub>m map_of (data s)"
proof -
  let ?P = "\<lambda>u. visible t u = visible t s \<and> map_of (data u) \<subseteq>\<^sub>m map_of (data s)"
  have "?P (store_sampleExpire clk ord s)"
  proof (rule sampleExpire_induct)
    fix u k e r
    assume "?P u" "map_of (data u) k = Some e" "isExpired (clk r) e"
    moreover from this have "visible t (deleteExpiredLocked k u) = visible t u"
      using assms(2) by (intro ext deleteExpired_visible)
    ultimately show "?P (deleteExpiredLocked k u)"
      by (auto simp: deleteExpiredLocked_def map_le_def dom_def split: if_splits)
  qed (auto simp: visible_def view_def)
  with assms(1) show ?thesis by (auto intro: inv_intros)
qed

text \<open>
  C36: Active expiry is safe: however often the background loop ticks, whatever keys it samples, in whatever order, a key that
  is visible at the time of its latest clock reading or later stays visible, no key appears,
  and the store's invariants are kept.
\<close>

theorem StartExpiry_safe:
  assumes "store_inv s" "\<And>clk ord r. (clk, ord) \<in> set ticks \<Longrightarrow> clk r \<le> t"
  shows "store_inv (store_StartExpiry ticks s)
    \<and> visible t (store_StartExpiry ticks s) = visible t s
    \<and> map_of (data (store_StartExpiry ticks s)) \<subseteq>\<^sub>m map_of (data s)"
  using assms
proof (induction ticks s rule: store_StartExpiry.induct)
  case (2 clk ord ticks s)
  let ?s = "store_sampleExpire clk ord s"
  have "clk r \<le> t" for r by (rule 2(3) [of clk ord]) simp
  then have tick: "store_inv ?s" "visible t ?s = visible t s" "map_of (data ?s) \<subseteq>\<^sub>m map_of (data s)"
    using sampleExpire_safe [OF 2(2), where clk = clk and ord = ord and t = t] by simp_all
  have "store_inv (store_StartExpiry ticks ?s) \<and> visible t (store_StartExpiry ticks ?s) = visible t ?s
      \<and> map_of (data (store_StartExpiry ticks ?s)) \<subseteq>\<^sub>m map_of (data ?s)"
    by (rule 2(1) [OF tick(1)]) (rule 2(3), rule list.set_intros(2))
  with tick(2,3) show ?case by (auto intro: map_le_trans)
qed simp

theorem StartExpiry_safe_witness:
  "store_inv (store_step (OpSet 0 ''a'' ''x'' 10) store_New)
   \<and> visible 100 (store_StartExpiry [(\<lambda>r. 50, \<lambda>r. rev), (\<lambda>r. 60, \<lambda>r. id)]
        (store_step (OpSet 0 ''a'' ''x'' 10) store_New))
     = visible 100 (store_step (OpSet 0 ''a'' ''x'' 10) store_New)"
proof -
  have i: "store_inv (store_step (OpSet 0 ''a'' ''x'' 10) store_New)"
    by (rule store_step_inv) (simp_all add: store_inv_def)
  have "visible 100 (store_StartExpiry [(\<lambda>r. 50, \<lambda>r. rev), (\<lambda>r. 60, \<lambda>r. id)]
        (store_step (OpSet 0 ''a'' ''x'' 10) store_New))
     = visible 100 (store_step (OpSet 0 ''a'' ''x'' 10) store_New)"
    by (rule StartExpiry_safe [THEN conjunct2, THEN conjunct1, OF i]) auto
  with i show ?thesis by blast
qed

text \<open>The tick's work is bounded: ten rounds of at most twenty keys.\<close>

lemma sample_loop_sampled:
  "sampled \<le> sampleSize \<Longrightarrow> fst (sample_loop now keys sampled x s) \<le> sampleSize"
  by (induction keys arbitrary: sampled x s) (auto split: option.splits)

text \<open>A round that meets expired keys only deletes the first twenty of them.\<close>

lemma sample_loop_all_expired:
  assumes "distinct keys" "0 \<le> m"
    "\<And>k. k \<in> set keys \<Longrightarrow> \<exists>e. map_of (data s) k = Some e \<and> isExpired now e"
  shows "sample_loop now keys m m s =
     (let n = min (length keys) (nat (sampleSize - m))
      in (m + int n, m + int n, fold deleteExpiredLocked (take n keys) s))"
  using assms
proof (induction keys arbitrary: m s)
  case (Cons k keys)
  show ?case
  proof (cases "m \<ge> sampleSize")
    case False
    obtain e where e: "map_of (data s) k = Some e" "isExpired now e" using Cons.prems(3) by auto
    have "\<exists>e. map_of (data (deleteExpiredLocked k s)) k' = Some e \<and> isExpired now e"
      if "k' \<in> set keys" for k'
      using that Cons.prems(1,3) by (auto simp: deleteExpiredLocked_def)
    with Cons have IH: "sample_loop now keys (m + 1) (m + 1) (deleteExpiredLocked k s) =
        (let n = min (length keys) (nat (sampleSize - (m + 1)))
         in (m + 1 + int n, m + 1 + int n, fold deleteExpiredLocked (take n keys)
               (deleteExpiredLocked k s)))" by simp
    have "nat (sampleSize - m) = Suc (nat (sampleSize - (m + 1)))" using False by simp
    with False e IH show ?thesis by (simp add: Let_def isExpired_def)
  qed simp
qed simp

lemma expiryKeys_delete:
  "store_ok s \<Longrightarrow> k \<in> fst ` set (expiryKeys s) \<Longrightarrow>
     length (expiryKeys (deleteExpiredLocked k s)) = length (expiryKeys s) - 1
     \<and> fst ` set (expiryKeys (deleteExpiredLocked k s)) = fst ` set (expiryKeys s) - {k}"
  by (simp add: deleteExpiredLocked_def length_AList_delete store_okD map_of_eq_None_iff
      delete_keys flip: set_map)

text \<open>All tracked keys are expired, by every clock reading of the tick.\<close>

definition all_due :: "(nat \<Rightarrow> int) \<Rightarrow> Store \<Rightarrow> bool" where
  "all_due clk s \<longleftrightarrow> (\<forall>k e r. map_of (data s) k = Some e \<longrightarrow> \<not> IsZero (ExpiresAt e)
                        \<longrightarrow> isExpired (clk r) e)"

lemma deleteExpired_fold:
  assumes "store_inv s" "all_due clk s" "distinct ks" "set ks \<subseteq> fst ` set (expiryKeys s)"
  shows "store_inv (fold deleteExpiredLocked ks s) \<and> all_due clk (fold deleteExpiredLocked ks s)
    \<and> length (expiryKeys (fold deleteExpiredLocked ks s)) = length (expiryKeys s) - length ks"
  using assms
proof (induction ks arbitrary: s)
  case (Cons k ks)
  let ?s1 = "deleteExpiredLocked k s"
  have ok: "store_ok s" using Cons.prems(1) by (simp add: store_inv_def)
  have "all_due clk ?s1"
    using Cons.prems(2) by (auto simp: all_due_def deleteExpiredLocked_def split: if_splits)
  moreover have "set ks \<subseteq> fst ` set (expiryKeys ?s1)"
    using Cons.prems(3,4) expiryKeys_delete [OF ok, of k] by auto
  ultimately show ?case
    using Cons.IH [of ?s1] Cons.prems expiryKeys_delete [OF ok, of k]
    by (auto intro: inv_intros)
qed simp

lemma sampleExpire_rounds_progress:
  assumes "store_inv s" "all_due clk s" "\<And>r ks. mset (ord r ks) = mset ks"
  shows "length (expiryKeys (sampleExpire_rounds clk ord n r s)) = length (expiryKeys s) - 20 * n"
  using assms(1,2)
proof (induction n arbitrary: r s)
  case (Suc n)
  let ?keys = "ord r (map fst (expiryKeys s))"
  define n1 where "n1 = min (length ?keys) 20"
  have ok: "store_ok s" using Suc.prems(1) by (simp add: store_inv_def)
  have set: "set ?keys = fst ` set (expiryKeys s)"
    using arg_cong [OF assms(3) [of r "map fst (expiryKeys s)"], of set_mset] by simp
  have len: "length ?keys = length (expiryKeys s)"
    using arg_cong [OF assms(3) [of r "map fst (expiryKeys s)"], of size] by simp
  have d: "distinct ?keys"
    using store_okD(4) [OF ok] len set by (intro card_distinct)
      (simp add: okmap_def distinct_card flip: set_map)
  have "\<exists>e. map_of (data s) k = Some e \<and> isExpired (clk r) e" if "k \<in> set ?keys" for k
  proof -
    have "map_of (expiryKeys s) k \<noteq> None" using that set by (simp add: map_of_eq_None_iff)
    then show ?thesis using store_okD(8) [OF ok, of k] Suc.prems(2) by (auto simp: all_due_def)
  qed
  then have loop: "sample_loop (clk r) ?keys 0 0 s =
      (int n1, int n1, fold deleteExpiredLocked (take n1 ?keys) s)"
    using sample_loop_all_expired [OF d, of 0 s "clk r"] by (simp add: n1_def sampleSize_def Let_def)
  show ?case
  proof (cases "length (expiryKeys s) = 0")
    case False
    let ?s1 = "fold deleteExpiredLocked (take n1 ?keys) s"
    have s1: "store_inv ?s1" "all_due clk ?s1"
      "length (expiryKeys ?s1) = length (expiryKeys s) - length (take n1 ?keys)"
      using deleteExpired_fold [OF Suc.prems, of "take n1 ?keys"] d set
      by (auto dest: in_set_takeD)
    have "0 < n1" "n1 \<le> 20" using False len by (auto simp: n1_def)
    then have "\<not> fl64 (of_int (int n1) / of_int (int n1)) < expiredRatioToRepeat"
      using ratio_test_exact [of "int n1" "int n1"] by (simp add: expiredRatioToRepeat_def)
    then have "sampleExpire_rounds clk ord (Suc n) r s = sampleExpire_rounds clk ord n (Suc r) ?s1"
      using False \<open>0 < n1\<close> by (simp add: loop)
    then show ?thesis using Suc.IH [OF s1(1,2)] s1(3) len by (simp add: n1_def min_def)
  qed simp
qed simp

text \<open>
  C37: The active-expiry tick makes progress. When every tracked key is due, one tick deletes
  200 of them (ten rounds of twenty), or all if there are fewer, whatever order the keys
  are met in.
\<close>

theorem sampleExpire_progress:
  assumes "store_inv s" "all_due clk s" "\<And>r ks. mset (ord r ks) = mset ks"
  shows "store_ExpiryCount (store_sampleExpire clk ord s) = max 0 (store_ExpiryCount s - 200)"
  using sampleExpire_rounds_progress [OF assms, where n = 10 and r = 0]
  by (simp add: store_ExpiryCount_def store_sampleExpire_def maxRoundsPerTick_def)

theorem sampleExpire_progress_witness:
  "store_ExpiryCount (store_sampleExpire (\<lambda>r. 50) (\<lambda>r. rev)
     (store_step (OpSet 0 ''a'' ''x'' 10) store_New)) = 0"
proof -
  let ?s = "store_step (OpSet 0 ''a'' ''x'' 10) store_New"
  have i: "store_inv ?s" by (rule store_step_inv) (simp_all add: store_inv_def)
  have s: "?s = \<lparr>data = [(''a'', \<lparr>Value = ''x'', ExpiresAt = UnixNano 10\<rparr>)], lists = [],
      hashes = [], expiryKeys = [(''a'', ())], maxMemoryBytes = 0\<rparr>"
    by (simp add: store_Set_def store_New_def checkMemoryLocked_def)
  have "all_due (\<lambda>r. 50) ?s" unfolding s by (auto simp: all_due_def isExpired_def)
  then show ?thesis
    using sampleExpire_progress [OF i, where clk = "\<lambda>r. 50" and ord = "\<lambda>r. rev"] unfolding s
    by (simp add: store_ExpiryCount_def)
qed

section \<open>Lazy expiry among other clients\<close>

text \<open>
  \<open>Get\<close> and \<open>TTL\<close> look the key up under the read lock, release it, and delete an expired key
  under the write lock afterwards.  Between the two, other clients run.  \<open>pending\<close> maps a
  client that has seen an expired key to that key.
\<close>

record conc =
  cstore :: Store
  pending :: "(nat, string) gomap"

datatype crit_section = GetRead nat int string | GetDelete nat | Whole store_op

fun conc_step :: "crit_section \<Rightarrow> conc \<Rightarrow> conc" where
  "conc_step (GetRead c now key) g =
     (case get_lookup now key (cstore g) of
        Expired \<Rightarrow> g\<lparr>pending := AList.update c key (pending g)\<rparr>
      | _ \<Rightarrow> g)"
| "conc_step (GetDelete c) g =
     (case map_of (pending g) c of
        None \<Rightarrow> g
      | Some key \<Rightarrow> g\<lparr>cstore := deleteExpiredLocked key (cstore g),
                      pending := AList.delete c (pending g)\<rparr>)"
| "conc_step (Whole x) g = g\<lparr>cstore := store_step x (cstore g)\<rparr>"

fun wf_section :: "crit_section \<Rightarrow> bool" where
  "wf_section (Whole x) = wf_op x"
| "wf_section _ = True"

lemma conc_step_inv:
  "store_inv (cstore g) \<Longrightarrow> wf_section x \<Longrightarrow> store_inv (cstore (conc_step x g))"
  by (cases x) (auto intro: inv_intros store_step_inv split: option.splits lookup.splits)

interpretation cc: invariant_system conc_step "\<lambda>g. store_inv (cstore g)" wf_section
  by unfold_locales (rule conc_step_inv)

text \<open>Run without interruption, the two sections are \<open>Get\<close>.\<close>

lemma conc_get_sequential:
  "map_of (pending g) c = None \<Longrightarrow>
     cstore (conc_step (GetDelete c) (conc_step (GetRead c now key) g))
     = snd (store_Get now key (cstore g))"
  by (auto simp: store_Get_def split: lookup.splits)

text \<open>
  C10: The store's invariants (maps well formed, expiry index exact, memory under its
  ceiling) hold after every interleaving of whole operations with the critical sections of
  lazy expiries.
\<close>

theorem interleaving_keeps_invariants:
  assumes "list_all wf_section xs"
  shows "store_inv (cstore (fold conc_step xs
           \<lparr>cstore = store_SetMaxMemory m store_New, pending = []\<rparr>))"
  using cc.run_inv [OF _ assms] store_inv_empty by simp

theorem interleaving_keeps_invariants_witness:
  "store_inv (cstore (fold conc_step
     [Whole (OpSet 0 ''k'' ''old'' 10), GetRead 1 50 ''k'', Whole (OpRPush ''q'' [''x'']), GetDelete 1]
     \<lparr>cstore = store_SetMaxMemory 100 store_New, pending = []\<rparr>))"
  by (rule interleaving_keeps_invariants) simp

text \<open>
  C38: A lazy expiry can delete a fresh value. If a client's \<open>Get\<close> finds a key expired and
  another client's \<open>Set\<close> of that key completes before the first one takes the write lock, the
  delayed deletion removes the new, unexpired value: the acknowledged write is gone.
\<close>

theorem lazy_expiry_loses_fresh_set:
  assumes "get_lookup now key (cstore g) = Expired" "maxMemoryBytes (cstore g) \<le> 0"
  shows "fst (store_Get t key (cstore (conc_step (Whole (OpSet now' key val 0)) g))) = Some val
    \<and> fst (store_Get t key (cstore (fold conc_step
           [GetRead c now key, Whole (OpSet now' key val 0), GetDelete c] g))) = None"
proof -
  obtain s1 where s1: "store_Set now' key val 0 (cstore g) = Inr s1"
    using Set_unlimited [OF assms(2)] by blast
  have v: "ks_str (view s1) key = Some (val, ZeroTime)"
    by (simp add: view_Set [OF s1] expiry_def)
  have w: "cstore (conc_step (Whole (OpSet now' key val 0)) g) = s1" by (simp add: s1)
  have f: "cstore (fold conc_step [GetRead c now key, Whole (OpSet now' key val 0), GetDelete c] g)
      = deleteExpiredLocked key s1"
    by (simp add: assms(1) s1)
  show ?thesis unfolding w f by (simp add: Get_result view_deleteExpired v alive_def)
qed

theorem lazy_expiry_loses_fresh_set_witness:
  "fst (store_Get 60 ''k'' (cstore (fold conc_step
     [GetRead 1 50 ''k'', Whole (OpSet 55 ''k'' ''new'' 0), GetDelete 1]
     \<lparr>cstore = store_step (OpSet 0 ''k'' ''old'' 10) store_New, pending = []\<rparr>))) = None"
  using lazy_expiry_loses_fresh_set [of 50 "''k''"
      "\<lparr>cstore = store_step (OpSet 0 ''k'' ''old'' 10) store_New, pending = []\<rparr>" 60 55 "''new''" 1]
  by (simp add: store_Set_def store_New_def checkMemoryLocked_def get_lookup_def isExpired_def)

end
