(* ===== verification/Kv_Equiv.thy ===== *)
theory Kv_Equiv
  imports Kv_Contracts Kv_Expiry
begin

text \<open>
  Two stores that hold the same keyspace are the same store for every write: Go's choice of
  enumeration order (the order of the association lists) changes neither whether a write is
  accepted, nor its reply, nor the keyspace it leaves.
\<close>

section \<open>The memory estimate is a function of the keyspace\<close>

lemma wsum_okmap: "okmap m \<Longrightarrow> wsum w m = (\<Sum>k\<in>dom (map_of m). w k (the (map_of m k)))"
proof (induction m)
  case (Cons p m)
  obtain a b where p: "p = (a, b)" by (cases p)
  have a: "a \<notin> dom (map_of m)" and ok: "okmap m"
    using Cons.prems p by (auto simp: okmap_def dom_map_of_conv_image_fst)
  have "(\<Sum>k\<in>dom (map_of m). w k (the (map_of (p # m) k))) =
      (\<Sum>k\<in>dom (map_of m). w k (the (map_of m k)))"
    using a p by (intro sum.cong) auto
  moreover have "dom (map_of (p # m)) = insert a (dom (map_of m))" using p by auto
  ultimately have "(\<Sum>k\<in>dom (map_of (p # m)). w k (the (map_of (p # m) k)))
      = w a b + (\<Sum>k\<in>dom (map_of m). w k (the (map_of m k)))"
    using a p by (simp add: finite_dom_map_of del: map_of.simps) simp
  then show ?case using Cons.IH [OF ok] p by (simp del: map_of.simps)
qed simp

definition str_bytes :: "keyspace \<Rightarrow> int" where
  "str_bytes v = (\<Sum>k\<in>dom (ks_str v). int (length k + length (fst (the (ks_str v k)))))"

definition lst_bytes :: "keyspace \<Rightarrow> int" where
  "lst_bytes v = (\<Sum>k\<in>dom (ks_list v). list_bytes k (the (ks_list v k)))"

definition hsh_bytes :: "keyspace \<Rightarrow> int" where
  "hsh_bytes v = (\<Sum>k\<in>dom (ks_hash v).
     int (length k) + (\<Sum>f\<in>dom (the (ks_hash v k)). field_bytes f (the (the (ks_hash v k) f))))"

lemma approx_view:
  assumes "store_ok s"
  shows "approxMemoryBytesLocked s = str_bytes (view s) + lst_bytes (view s) + hsh_bytes (view s)"
proof -
  have "wsum entry_bytes (data s) = str_bytes (view s)"
    using store_okD(1) [OF assms]
    by (auto simp: wsum_okmap str_bytes_def view_def entry_bytes_def dom_def intro!: sum.cong)
  moreover have "wsum list_bytes (lists s) = lst_bytes (view s)"
    using store_okD(2) [OF assms] by (simp add: wsum_okmap lst_bytes_def view_def)
  moreover have "wsum hash_bytes (hashes s) = hsh_bytes (view s)"
    using store_okD(3) [OF assms] store_okD(6) [OF assms]
    by (auto simp: wsum_okmap hsh_bytes_def view_def hash_bytes_def dom_def intro!: sum.cong)
  ultimately show ?thesis by (simp add: approxMemoryBytesLocked_def)
qed

section \<open>Equivalence\<close>

definition store_eqv :: "Store \<Rightarrow> Store \<Rightarrow> bool" where
  "store_eqv s t \<longleftrightarrow> store_inv s \<and> store_inv t \<and> view s = view t
     \<and> maxMemoryBytes s = maxMemoryBytes t"

lemma store_eqv_refl: "store_inv s \<Longrightarrow> store_eqv s s"
  by (simp add: store_eqv_def)

lemma store_eqv_sym: "store_eqv s t \<Longrightarrow> store_eqv t s"
  by (simp add: store_eqv_def)

lemma store_eqv_trans: "store_eqv s t \<Longrightarrow> store_eqv t u \<Longrightarrow> store_eqv s u"
  by (simp add: store_eqv_def)

lemma eqv_check: "store_eqv s t \<Longrightarrow> checkMemoryLocked n s = checkMemoryLocked n t"
  by (simp add: store_eqv_def store_inv_def checkMemoryLocked_def approx_view)

lemma eqv_base: "store_eqv s t \<Longrightarrow> counter_base now key s = counter_base now key t"
  "store_eqv s t \<Longrightarrow> old_expiry key s = old_expiry key t"
  by (simp_all add: store_eqv_def counter_base_def old_expiry_def)

lemma get_list_view: "get_list key s = (case ks_list (view s) key of None \<Rightarrow> [] | Some l \<Rightarrow> l)"
  by (simp add: get_list_def view_def)

text \<open>Two results of a write: refused for the same reason, or accepted alike.\<close>

fun res_eqv :: "'e + 'a \<times> Store \<Rightarrow> 'e + 'a \<times> Store \<Rightarrow> bool" where
  "res_eqv (Inl e) (Inl e') \<longleftrightarrow> e = e'"
| "res_eqv (Inr (x, s)) (Inr (y, t)) \<longleftrightarrow> x = y \<and> store_eqv s t"
| "res_eqv _ _ \<longleftrightarrow> False"

lemma eqv_Set:
  assumes "store_eqv s t"
  shows "case (store_Set now k v ttl s, store_Set now k v ttl t) of
     (Inl e, Inl e') \<Rightarrow> e = e' | (Inr s', Inr t') \<Rightarrow> store_eqv s' t' | _ \<Rightarrow> False"
proof (cases "checkMemoryLocked (int (length k + length v)) s")
  case (Some e)
  then show ?thesis using eqv_check [OF assms] by (simp add: Set_eq)
next
  case None
  then obtain s' t' where st: "store_Set now k v ttl s = Inr s'" "store_Set now k v ttl t = Inr t'"
    using eqv_check [OF assms] by (simp only: Set_eq option.case)
  have "store_inv s" "store_inv t" "view s = view t" "maxMemoryBytes s = maxMemoryBytes t"
    using assms by (simp_all add: store_eqv_def)
  with st view_Set [OF st(1)] view_Set [OF st(2)] maxMemory_ops(1) [OF st(1)] maxMemory_ops(1) [OF st(2)]
  have "store_eqv s' t'"
    using store_inv_Set [OF _ st(1)] store_inv_Set [OF _ st(2)] by (simp add: store_eqv_def)
  with st show ?thesis by simp
qed

text \<open>A write that always succeeds: invariant, ceiling and keyspace are all there is to show.\<close>

lemma store_eqvI:
  assumes "store_eqv s t" "\<And>u. store_inv u \<Longrightarrow> store_inv (f u)"
    "\<And>u. maxMemoryBytes (f u) = maxMemoryBytes u" "view (f s) = view (f t)"
  shows "store_eqv (f s) (f t)"
  using assms by (simp add: store_eqv_def)

lemma eqv_Del:
  assumes "store_eqv s t"
  shows "store_eqv (snd (store_Del ks s)) (snd (store_Del ks t))"
proof (rule store_eqvI [where f = "\<lambda>u. snd (store_Del ks u)", OF assms])
  show "view (snd (store_Del ks s)) = view (snd (store_Del ks t))"
    using assms by (simp add: store_eqv_def store_Del_def Del_loop_view)
qed (auto intro: store_inv_Del)

lemma eqv_Expire:
  assumes "store_eqv s t"
  shows "store_eqv (snd (store_Expire now k secs s)) (snd (store_Expire now k secs t))"
proof (rule store_eqvI [where f = "\<lambda>u. snd (store_Expire now k secs u)", OF assms])
  show "view (snd (store_Expire now k secs s)) = view (snd (store_Expire now k secs t))"
    using assms expire_view [of now k secs] by (simp add: store_eqv_def)
qed (auto intro: store_inv_Expire)

lemma view_FlushAll:
  "view (store_FlushAll s) = \<lparr>ks_str = Map.empty, ks_list = Map.empty, ks_hash = Map.empty\<rparr>"
  by (simp add: store_FlushAll_def view_def)

lemma eqv_FlushAll:
  assumes "store_eqv s t"
  shows "store_eqv (store_FlushAll s) (store_FlushAll t)"
  by (rule store_eqvI [OF assms]) (simp_all add: store_inv_FlushAll view_FlushAll)

lemma eqv_IncrBy:
  assumes "store_eqv s t"
  shows "res_eqv (store_IncrBy now k d s) (store_IncrBy now k d t)"
proof (cases "store_IncrBy now k d s")
  case (Inl e)
  then have "store_IncrBy now k d t = Inl e"
    using eqv_check [OF assms] eqv_base [OF assms]
    by (auto simp: IncrBy_eq split: option.splits)
  with Inl show ?thesis by simp
next
  case (Inr p)
  obtain n s' where s': "store_IncrBy now k d s = Inr (n, s')" using Inr by (cases p) auto
  have "store_IncrBy now k d t \<noteq> Inl e" for e
    using s' eqv_check [OF assms] eqv_base [OF assms] by (auto simp: IncrBy_eq split: option.splits)
  then obtain m t' where t': "store_IncrBy now k d t = Inr (m, t')"
    by (cases "store_IncrBy now k d t") auto
  have "m = n"
    using IncrBy_base [OF s'] IncrBy_base [OF t'] eqv_base(1) [OF assms] by auto
  moreover have "maxMemoryBytes s' = maxMemoryBytes s" "maxMemoryBytes t' = maxMemoryBytes t"
    using maxMemory_writes(1) [of s now k d] maxMemory_writes(1) [of t now k d] s' t' by simp_all
  ultimately show ?thesis
    using assms view_IncrBy [OF s'] view_IncrBy [OF t'] eqv_base(2) [OF assms, of k]
      store_inv_IncrBy [OF _ s'] store_inv_IncrBy [OF _ t']
    by (simp add: s' t' store_eqv_def)
qed

lemma eqv_LPush:
  assumes "store_eqv s t" "vs \<noteq> []"
  shows "res_eqv (store_LPush k vs s) (store_LPush k vs t)"
proof -
  have g: "get_list k s = get_list k t" using assms(1) by (simp add: get_list_view store_eqv_def)
  show ?thesis
  proof (cases "checkMemoryLocked (int (length k) + sumLen vs) s")
    case (Some e)
    then show ?thesis using eqv_check [OF assms(1)] by (simp add: LPush_eq)
  next
    case None
    with assms g eqv_check [OF assms(1)] show ?thesis
      by (auto simp: LPush_eq store_eqv_def view_lists mem_simps intro!: store_inv_push)
  qed
qed

lemma eqv_RPush:
  assumes "store_eqv s t" "vs \<noteq> []"
  shows "res_eqv (store_RPush k vs s) (store_RPush k vs t)"
proof -
  have g: "get_list k s = get_list k t" using assms(1) by (simp add: get_list_view store_eqv_def)
  show ?thesis
  proof (cases "checkMemoryLocked (int (length k) + sumLen vs) s")
    case (Some e)
    then show ?thesis using eqv_check [OF assms(1)] by (simp add: store_RPush_def)
  next
    case None
    with assms g eqv_check [OF assms(1)] show ?thesis
      by (auto simp: store_RPush_def Let_def store_eqv_def view_lists mem_simps intro!: store_inv_push)
  qed
qed

lemma eqv_HSet:
  assumes "store_eqv s t" "2 \<le> length ps"
  shows "res_eqv (store_HSet k ps s) (store_HSet k ps t)"
proof (cases "checkMemoryLocked (int (length k) + sumLen ps) s")
  case (Some e)
  then show ?thesis using eqv_check [OF assms(1)] by (simp add: HSet_eq)
next
  case None
  obtain n s' m t' where st: "store_HSet k ps s = Inr (n, s')" "store_HSet k ps t = Inr (m, t')"
    using None eqv_check [OF assms(1)] by (simp only: HSet_eq option.case)
  have f: "fields_of k s = fields_of k t" using assms(1) by (simp add: fields_of_def store_eqv_def)
  have "n = m" using st f None eqv_check [OF assms(1)]
    by (auto simp: HSet_eq HSet_loop_count simp flip: fields_of_get_hash)
  moreover have "maxMemoryBytes s' = maxMemoryBytes s" "maxMemoryBytes t' = maxMemoryBytes t"
    using maxMemory_writes(4) [of s k ps] maxMemory_writes(4) [of t k ps] st by simp_all
  ultimately show ?thesis
    using assms view_HSet [OF st(1)] view_HSet [OF st(2)] f
      store_inv_HSet [OF _ _ st(1)] store_inv_HSet [OF _ _ st(2)]
    by (simp add: st store_eqv_def)
qed

lemma eqv_HDel:
  assumes "store_eqv s t"
  shows "store_eqv (snd (store_HDel k fs s)) (snd (store_HDel k fs t))"
proof -
  have "view s = view t" using assms by (simp add: store_eqv_def)
  then have "view (snd (store_HDel k fs s)) = view (snd (store_HDel k fs t))"
    by (simp only: HDel_view)
  then show ?thesis
    using assms by (intro store_eqvI [where f = "\<lambda>u. snd (store_HDel k fs u)"]) (auto intro: store_inv_HDel)
qed

end
