(* ===== verification/Aof_Snapshot.thy ===== *)
theory Aof_Snapshot
  imports Aof_Replay Kv_Equiv
begin

text \<open>
  The compacted file: which commands \<open>writeSnapshot\<close> writes, and that replaying them into an
  empty store restores the keyspace of the snapshot, with what becomes of the expiries.
\<close>

section \<open>The commands of a snapshot\<close>

definition string_cmds :: "int \<Rightarrow> string \<times> Entry \<Rightarrow> string list list" where
  "string_cmds now p = (let key = fst p; e = snd p in
     case ExpiresAt e of
       ZeroTime \<Rightarrow> [[''SET'', key, Value e]]
     | UnixNano t \<Rightarrow>
         (if Sub t now \<le> 0 then []
          else [[''SET'', key, Value e, ''PX'', itoa (Sub t now div millisecond)]]))"

function chunk_cmds :: "string \<Rightarrow> nat \<Rightarrow> string \<Rightarrow> string list \<Rightarrow> string list list" where
  "chunk_cmds cmd n key elems =
     (if elems = [] \<or> n = 0 then []
      else (cmd # key # take n elems) # chunk_cmds cmd n key (drop n elems))"
  by pat_completeness auto
termination
  by (relation "measure (\<lambda>(cmd, n, key, elems). length elems)") auto

declare chunk_cmds.simps [simp del]

definition list_cmds :: "string \<times> string list \<Rightarrow> string list list" where
  "list_cmds p = chunk_cmds ''RPUSH'' chunkSize (fst p) (snd p)"

definition hash_cmds :: "string \<times> hash \<Rightarrow> string list list" where
  "hash_cmds p = chunk_cmds ''HSET'' (chunkSize * 2) (fst p) (flat_pairs (snd p))"

definition snapshot_cmds :: "int \<Rightarrow> Snapshot \<Rightarrow> string list list" where
  "snapshot_cmds now snap =
     concat (map (string_cmds now) (Strings snap)) @ concat (map list_cmds (Lists snap))
     @ concat (map hash_cmds (Hashes snap))"

abbreviation enc_all :: "string list list \<Rightarrow> string" where
  "enc_all cs \<equiv> concat (map arrayBytes cs)"

lemma write_strings_bytes:
  "write_strings w now m = w @ enc_all (concat (map (string_cmds now) m))"
proof (induction m arbitrary: w)
  case (Cons p m)
  then show ?case
    by (cases p) (auto simp: string_cmds_def writeRESPCommand_bytes Let_def split: gotime.split)
qed simp

lemma write_chunks_bytes: "write_chunks w cmd n key elems = w @ enc_all (chunk_cmds cmd n key elems)"
proof (induction w cmd n key elems rule: write_chunks.induct)
  case (1 w cmd n key elems)
  then show ?case
    by (subst write_chunks.simps, subst chunk_cmds.simps) (simp add: writeRESPCommand_bytes)
qed

lemma write_lists_bytes: "write_lists w m = w @ enc_all (concat (map list_cmds m))"
  by (induction w m rule: write_lists.induct) (auto simp: write_chunks_bytes list_cmds_def)

lemma write_hashes_bytes: "write_hashes w m = w @ enc_all (concat (map hash_cmds m))"
  by (induction w m rule: write_hashes.induct) (auto simp: write_chunks_bytes hash_cmds_def)

lemma writeSnapshot_bytes: "writeSnapshot w now snap = w @ enc_all (snapshot_cmds now snap)"
  by (simp add: writeSnapshot_def write_strings_bytes write_lists_bytes write_hashes_bytes
      snapshot_cmds_def)

section \<open>Replaying single commands without a ceiling\<close>

lemma toUpper_names [simp]:
  "toUpper ''SET'' = ''SET''" "toUpper ''RPUSH'' = ''RPUSH''" "toUpper ''HSET'' = ''HSET''"
  "toUpper ''PX'' = ''PX''" "toUpper ''EX'' = ''EX''"
  by code_simp+

lemma unlimited: "maxMemoryBytes s \<le> 0 \<Longrightarrow> checkMemoryLocked n s = None"
  by (simp add: checkMemoryLocked_def)

lemma replay_SET:
  assumes "maxMemoryBytes s \<le> 0" "parseSetTTL opts = Inr ttl"
  shows "view (replay_entry now (''SET'' # k # v # opts) s)
       = (view s)\<lparr>ks_str := (ks_str (view s))(k \<mapsto> (v, expiry now ttl))\<rparr>
     \<and> maxMemoryBytes (replay_entry now (''SET'' # k # v # opts) s) = maxMemoryBytes s"
proof -
  obtain s' where s': "store_Set now k v ttl s = Inr s'"
    using Set_unlimited [OF assms(1)] by blast
  then have "replay_entry now (''SET'' # k # v # opts) s = s'"
    using assms(2) by (simp add: replay_entry_def replayCommand_def)
  then show ?thesis using view_Set [OF s'] maxMemory_ops(1) [OF s'] by simp
qed

lemma replay_RPUSH:
  assumes "maxMemoryBytes s \<le> 0" "vals \<noteq> []"
  shows "replay_entry now (''RPUSH'' # key # vals) s =
     s\<lparr>lists := AList.update key (get_list key s @ vals) (lists s)\<rparr>"
proof -
  have "store_RPush key vals s = Inr (int (length (get_list key s @ vals)),
      s\<lparr>lists := AList.update key (get_list key s @ vals) (lists s)\<rparr>)"
    unfolding store_RPush_def Let_def unlimited [OF assms(1)] option.case by (rule refl)
  moreover have "1 \<le> length vals" using assms(2) by (cases vals) auto
  ultimately show ?thesis using assms(2) by (simp add: replay_entry_def replayCommand_def)
qed

lemma replay_HSET:
  assumes "maxMemoryBytes s \<le> 0" "even (length ps)" "ps \<noteq> []"
  shows "view (replay_entry now (''HSET'' # key # ps) s) = (view s)\<lparr>ks_hash := (ks_hash (view s))
            (key \<mapsto> fields_of key s ++ map_of (rev (pairsOf ps)))\<rparr>
     \<and> maxMemoryBytes (replay_entry now (''HSET'' # key # ps) s) = maxMemoryBytes s"
proof -
  obtain n s' where s': "store_HSet key ps s = Inr (n, s')"
    using unlimited [OF assms(1)] by (simp only: HSet_eq option.case)
  have "2 \<le> length ps" using assms(2,3) by (cases ps rule: pairsOf.cases) auto
  moreover have "length (key # ps) mod 2 \<noteq> 0" using assms(2) by simp presburger
  ultimately have "replay_entry now (''HSET'' # key # ps) s = s'"
    using s' by (simp add: replay_entry_def replayCommand_def)
  then show ?thesis
    using view_HSet [OF s'] maxMemory_writes(4) [of s key ps] s' by simp
qed

section \<open>Strings\<close>

text \<open>The expiry a string gets when it is written at \<open>now\<close> and replayed at \<open>now'\<close>.\<close>

definition restored :: "int \<Rightarrow> int \<Rightarrow> gotime \<Rightarrow> gotime option" where
  "restored now now' x =
     (case x of
        ZeroTime \<Rightarrow> Some ZeroTime
      | UnixNano t \<Rightarrow> (if Sub t now \<le> 0 then None
                     else Some (expiry now' (Sub t now div millisecond * millisecond))))"

lemma parse_PX:
  assumes "0 < d" "d < 2 ^ 63"
  shows "parseSetTTL [''PX'', itoa (d div millisecond)] = Inr (d div millisecond * millisecond)"
proof -
  have "0 \<le> d div millisecond" "d div millisecond * millisecond \<le> d" "d div millisecond \<le> d"
    "0 \<le> d div millisecond * millisecond"
    using assms by (auto simp: millisecond_def)
  with assms have "int64 (d div millisecond)" "int64 (d div millisecond * millisecond)"
    by (auto simp: int64_def)
  then show ?thesis by (simp add: parseSetTTL_def)
qed

lemma replay_string:
  assumes "maxMemoryBytes s \<le> 0"
  shows "view (replay_entries clk i (string_cmds now (k, e)) s) =
      (case restored now (clk i) (ExpiresAt e) of None \<Rightarrow> view s
       | Some y \<Rightarrow> (view s)\<lparr>ks_str := (ks_str (view s))(k \<mapsto> (Value e, y))\<rparr>)"
    and "maxMemoryBytes (replay_entries clk i (string_cmds now (k, e)) s) = maxMemoryBytes s"
proof -
  have d: "Sub t now < 2 ^ 63" for t by (simp add: Sub_def)
  have p: "parseSetTTL [] = Inr 0" by (simp add: parseSetTTL_def)
  show "view (replay_entries clk i (string_cmds now (k, e)) s) =
      (case restored now (clk i) (ExpiresAt e) of None \<Rightarrow> view s
       | Some y \<Rightarrow> (view s)\<lparr>ks_str := (ks_str (view s))(k \<mapsto> (Value e, y))\<rparr>)"
    "maxMemoryBytes (replay_entries clk i (string_cmds now (k, e)) s) = maxMemoryBytes s"
    using replay_SET [OF assms p, of "clk i" k "Value e"]
      replay_SET [OF assms parse_PX [OF _ d], of _ "clk i" k "Value e"]
    by (auto simp: string_cmds_def restored_def expiry_def split: gotime.split)
qed

lemma replay_strings:
  assumes "okmap m" "maxMemoryBytes s \<le> 0"
  shows "\<exists>pos. view (replay_entries clk i (concat (map (string_cmds now) m)) s) =
      (view s)\<lparr>ks_str := (\<lambda>k. case map_of m k of None \<Rightarrow> ks_str (view s) k
         | Some e \<Rightarrow> (case restored now (clk (pos k)) (ExpiresAt e) of None \<Rightarrow> ks_str (view s) k
                     | Some y \<Rightarrow> Some (Value e, y)))\<rparr>
     \<and> maxMemoryBytes (replay_entries clk i (concat (map (string_cmds now) m)) s) = maxMemoryBytes s"
  using assms
proof (induction m arbitrary: i s)
  case (Cons p m)
  obtain k e where p: "p = (k, e)" by (cases p)
  let ?s1 = "replay_entries clk i (string_cmds now (k, e)) s"
  let ?j = "i + length (string_cmds now (k, e))"
  note s1 = replay_string [OF Cons.prems(2), of clk i now k e]
  have k: "map_of m k = None" "okmap m"
    using Cons.prems p by (auto simp: okmap_def map_of_eq_None_iff)
  obtain pos where pos: "view (replay_entries clk ?j (concat (map (string_cmds now) m)) ?s1) =
      (view ?s1)\<lparr>ks_str := (\<lambda>k. case map_of m k of None \<Rightarrow> ks_str (view ?s1) k
         | Some e \<Rightarrow> (case restored now (clk (pos k)) (ExpiresAt e) of None \<Rightarrow> ks_str (view ?s1) k
                     | Some y \<Rightarrow> Some (Value e, y)))\<rparr>"
    "maxMemoryBytes (replay_entries clk ?j (concat (map (string_cmds now) m)) ?s1) = maxMemoryBytes s"
    using Cons.IH [OF k(2), of ?s1 ?j] Cons.prems(2) s1(2) by auto
  show ?case
    using k(1) pos s1(1)
    by (intro exI [of _ "pos(k := i)"])
      (auto simp: p replay_entries_append fun_eq_iff split: option.split intro!: keyspace_eqI)
qed simp

section \<open>Lists and hashes\<close>

lemma replay_list_chunks:
  assumes "maxMemoryBytes s \<le> 0" "elems \<noteq> []" "0 < n"
  shows "view (replay_entries clk i (chunk_cmds ''RPUSH'' n key elems) s) =
      (view s)\<lparr>ks_list := (ks_list (view s))(key \<mapsto> get_list key s @ elems)\<rparr>
    \<and> maxMemoryBytes (replay_entries clk i (chunk_cmds ''RPUSH'' n key elems) s) = maxMemoryBytes s"
  using assms
proof (induction elems arbitrary: i s rule: length_induct)
  case (1 elems)
  let ?t = "take n elems" and ?d = "drop n elems"
  define s1 where "s1 = replay_entry (clk i) (''RPUSH'' # key # ?t) s"
  have eq: "s1 = s\<lparr>lists := AList.update key (get_list key s @ ?t) (lists s)\<rparr>"
    unfolding s1_def using 1(2-4) by (intro replay_RPUSH) auto
  have s1: "view s1 = (view s)\<lparr>ks_list := (ks_list (view s))(key \<mapsto> get_list key s @ ?t)\<rparr>"
    "maxMemoryBytes s1 = maxMemoryBytes s" "get_list key s1 = get_list key s @ ?t"
    unfolding eq by (rule view_lists, simp_all)
  have unf: "replay_entries clk i (chunk_cmds ''RPUSH'' n key elems) s
      = replay_entries clk (Suc i) (chunk_cmds ''RPUSH'' n key ?d) s1"
    using 1(3,4) by (subst chunk_cmds.simps) (simp add: s1_def)
  show ?case
  proof (cases "?d = []")
    case True
    then show ?thesis unfolding unf using s1
      by (intro conjI keyspace_eqI) (simp_all add: chunk_cmds.simps [of _ _ _ "[]"] fun_eq_iff)
  next
    case False
    then have "length ?d < length elems" using 1(4) by (cases elems) auto
    then have "view (replay_entries clk (Suc i) (chunk_cmds ''RPUSH'' n key ?d) s1)
        = (view s1)\<lparr>ks_list := (ks_list (view s1))(key \<mapsto> get_list key s1 @ ?d)\<rparr>
      \<and> maxMemoryBytes (replay_entries clk (Suc i) (chunk_cmds ''RPUSH'' n key ?d) s1)
        = maxMemoryBytes s1"
      using False 1(2,4) s1(2) by (intro 1(1) [rule_format]) simp_all
    with s1 show ?thesis unfolding unf
      by (intro conjI keyspace_eqI) (simp_all add: fun_eq_iff)
  qed
qed

lemma pairsOf_flat [simp]: "pairsOf (flat_pairs h) = h" "even (length (flat_pairs h))"
  by (induction h rule: flat_pairs.induct) auto

lemma flat_pairs_Nil [simp]: "flat_pairs h = [] \<longleftrightarrow> h = []"
  by (cases h rule: flat_pairs.cases) auto

lemma pairsOf_split:
  "even n \<Longrightarrow> pairsOf ps = pairsOf (take n ps) @ pairsOf (drop n ps)"
proof (induction ps arbitrary: n rule: pairsOf.induct)
  case (1 f v r)
  show ?case
  proof (cases n)
    case (Suc m)
    with "1.prems" obtain m' where "n = Suc (Suc m')" "even m'" by (cases m) auto
    with "1.IH" [of m'] show ?thesis by simp
  qed simp
qed (auto simp: take_Cons' drop_Cons')

lemma replay_hash_chunks:
  assumes "maxMemoryBytes s \<le> 0" "ps \<noteq> []" "0 < n" "even n" "even (length ps)"
  shows "view (replay_entries clk i (chunk_cmds ''HSET'' n key ps) s) =
      (view s)\<lparr>ks_hash := (ks_hash (view s))
         (key \<mapsto> fields_of key s ++ map_of (rev (pairsOf ps)))\<rparr>
    \<and> maxMemoryBytes (replay_entries clk i (chunk_cmds ''HSET'' n key ps) s) = maxMemoryBytes s"
  using assms
proof (induction ps arbitrary: i s rule: length_induct)
  case (1 ps)
  let ?t = "take n ps" and ?d = "drop n ps"
  define s1 where "s1 = replay_entry (clk i) (''HSET'' # key # ?t) s"
  have e: "even (length ?t)" "even (length ?d)" "?t \<noteq> []" using 1(3-6) by (auto simp: min_def)
  have s1: "view s1 = (view s)\<lparr>ks_hash := (ks_hash (view s))
            (key \<mapsto> fields_of key s ++ map_of (rev (pairsOf ?t)))\<rparr>"
    "maxMemoryBytes s1 = maxMemoryBytes s"
    using replay_HSET [OF 1(2) e(1,3), of "clk i" key] by (simp_all add: s1_def)
  then have f: "fields_of key s1 = fields_of key s ++ map_of (rev (pairsOf ?t))"
    by (simp add: fields_of_def)
  have unf: "replay_entries clk i (chunk_cmds ''HSET'' n key ps) s
      = replay_entries clk (Suc i) (chunk_cmds ''HSET'' n key ?d) s1"
    using 1(3,4) by (subst chunk_cmds.simps) (simp add: s1_def)
  show ?case
  proof (cases "?d = []")
    case True
    then show ?thesis unfolding unf using s1
      by (intro conjI keyspace_eqI) (simp_all add: chunk_cmds.simps [of _ _ _ "[]"] fun_eq_iff)
  next
    case False
    then have "length ?d < length ps" using 1(4) by (cases ps) auto
    then have "view (replay_entries clk (Suc i) (chunk_cmds ''HSET'' n key ?d) s1)
        = (view s1)\<lparr>ks_hash := (ks_hash (view s1))
             (key \<mapsto> fields_of key s1 ++ map_of (rev (pairsOf ?d)))\<rparr>
      \<and> maxMemoryBytes (replay_entries clk (Suc i) (chunk_cmds ''HSET'' n key ?d) s1)
        = maxMemoryBytes s1"
      using False 1(2,4,5) e(2) s1(2) by (intro 1(1) [rule_format]) simp_all
    with s1 pairsOf_split [OF 1(5), of ps] show ?thesis
      unfolding unf f by (intro conjI keyspace_eqI) (simp_all add: fun_eq_iff map_add_assoc)
  qed
qed

lemma replay_lists:
  assumes "okmap m" "\<And>k l. map_of m k = Some l \<Longrightarrow> l \<noteq> []" "maxMemoryBytes s \<le> 0"
    "\<And>k. map_of m k \<noteq> None \<Longrightarrow> ks_list (view s) k = None"
  shows "view (replay_entries clk i (concat (map list_cmds m)) s) =
      (view s)\<lparr>ks_list := ks_list (view s) ++ map_of m\<rparr>
    \<and> maxMemoryBytes (replay_entries clk i (concat (map list_cmds m)) s) = maxMemoryBytes s"
  using assms
proof (induction m arbitrary: i s)
  case (Cons p m)
  obtain k l where p: "p = (k, l)" by (cases p)
  have l: "l \<noteq> []" using Cons.prems(2) [of k l] p by simp
  have k: "map_of m k = None" "okmap m"
    using Cons.prems(1) p by (auto simp: okmap_def map_of_eq_None_iff)
  let ?s1 = "replay_entries clk i (list_cmds p) s"
  have "get_list k s = []" using Cons.prems(4) [of k] p by (simp add: get_list_view)
  then have s1: "view ?s1 = (view s)\<lparr>ks_list := (ks_list (view s))(k \<mapsto> l)\<rparr>"
    "maxMemoryBytes ?s1 = maxMemoryBytes s"
    using replay_list_chunks [OF Cons.prems(3) l, of chunkSize clk i k] p
    by (auto simp: list_cmds_def chunkSize_def)
  have "map_of m k' = Some l' \<Longrightarrow> l' \<noteq> []" for k' l'
    using Cons.prems(2) [of k' l'] k(1) p by (cases "k' = k") auto
  moreover have "ks_list (view ?s1) k' = None" if "map_of m k' \<noteq> None" for k'
    using Cons.prems(4) [of k'] that k(1) p s1 by (cases "k' = k") auto
  ultimately have "view (replay_entries clk (i + length (list_cmds p)) (concat (map list_cmds m)) ?s1)
      = (view ?s1)\<lparr>ks_list := ks_list (view ?s1) ++ map_of m\<rparr>
    \<and> maxMemoryBytes (replay_entries clk (i + length (list_cmds p)) (concat (map list_cmds m)) ?s1)
      = maxMemoryBytes ?s1"
    using Cons.prems(3) s1(2) by (intro Cons.IH [OF k(2)]) auto
  then show ?case
    using k(1) s1 by (auto simp: replay_entries_append p map_add_def fun_eq_iff split: option.split
        intro!: keyspace_eqI)
qed simp

lemma replay_hashes:
  assumes "okmap m" "\<And>k h. map_of m k = Some h \<Longrightarrow> okmap h \<and> h \<noteq> []" "maxMemoryBytes s \<le> 0"
    "\<And>k. map_of m k \<noteq> None \<Longrightarrow> ks_hash (view s) k = None"
  shows "view (replay_entries clk i (concat (map hash_cmds m)) s) =
      (view s)\<lparr>ks_hash := ks_hash (view s) ++ (\<lambda>k. map_option map_of (map_of m k))\<rparr>
    \<and> maxMemoryBytes (replay_entries clk i (concat (map hash_cmds m)) s) = maxMemoryBytes s"
  using assms
proof (induction m arbitrary: i s)
  case (Cons p m)
  obtain k h where p: "p = (k, h)" by (cases p)
  have h: "okmap h" "h \<noteq> []" using Cons.prems(2) [of k h] p by auto
  have k: "map_of m k = None" "okmap m"
    using Cons.prems(1) p by (auto simp: okmap_def map_of_eq_None_iff)
  let ?s1 = "replay_entries clk i (hash_cmds p) s"
  have "fields_of k s = Map.empty" using Cons.prems(4) [of k] p by (simp add: fields_of_def)
  moreover have "map_of (rev h) = map_of h"
    using h(1) by (intro map_of_inject_set [THEN iffD2]) (auto simp: okmap_def simp flip: rev_map)
  ultimately have s1: "view ?s1 = (view s)\<lparr>ks_hash := (ks_hash (view s))(k \<mapsto> map_of h)\<rparr>"
    "maxMemoryBytes ?s1 = maxMemoryBytes s"
    using replay_hash_chunks [OF Cons.prems(3), of "flat_pairs h" "chunkSize * 2" clk i k] p h(2)
    by (auto simp: hash_cmds_def chunkSize_def)
  have "map_of m k' = Some h' \<Longrightarrow> okmap h' \<and> h' \<noteq> []" for k' h'
    using Cons.prems(2) [of k' h'] k(1) p by (cases "k' = k") auto
  moreover have "ks_hash (view ?s1) k' = None" if "map_of m k' \<noteq> None" for k'
    using Cons.prems(4) [of k'] that k(1) p s1 by (cases "k' = k") auto
  ultimately have "view (replay_entries clk (i + length (hash_cmds p)) (concat (map hash_cmds m)) ?s1)
      = (view ?s1)\<lparr>ks_hash := ks_hash (view ?s1) ++ (\<lambda>k. map_option map_of (map_of m k))\<rparr>
    \<and> maxMemoryBytes (replay_entries clk (i + length (hash_cmds p)) (concat (map hash_cmds m)) ?s1)
      = maxMemoryBytes ?s1"
    using Cons.prems(3) s1(2) by (intro Cons.IH [OF k(2)]) auto
  then show ?case
    using k(1) s1 by (auto simp: replay_entries_append p map_add_def fun_eq_iff split: option.split
        intro!: keyspace_eqI)
qed simp

section \<open>The whole snapshot\<close>

definition empty_ks :: keyspace where
  "empty_ks = \<lparr>ks_str = Map.empty, ks_list = Map.empty, ks_hash = Map.empty\<rparr>"

lemma view_New [simp]: "view store_New = empty_ks"
  by (simp add: store_New_def view_def empty_ks_def)

lemma snapshot_view:
  assumes "store_ok s" "maxMemoryBytes t \<le> 0" "view t = empty_ks"
  shows "\<exists>pos. view (replay_entries clk i (snapshot_cmds now (store_Snapshot s)) t) =
      (view s)\<lparr>ks_str := (\<lambda>k. case ks_str (view s) k of None \<Rightarrow> None
         | Some (v, x) \<Rightarrow> map_option (Pair v) (restored now (clk (pos k)) x))\<rparr>
     \<and> maxMemoryBytes (replay_entries clk i (snapshot_cmds now (store_Snapshot s)) t)
        = maxMemoryBytes t"
proof -
  note ok = store_okD [OF assms(1)]
  let ?c1 = "concat (map (string_cmds now) (data s))" and ?c2 = "concat (map list_cmds (lists s))"
  let ?c3 = "concat (map hash_cmds (hashes s))"
  define t1 where "t1 = replay_entries clk i ?c1 t"
  define t2 where "t2 = replay_entries clk (i + length ?c1) ?c2 t1"
  define t3 where "t3 = replay_entries clk (i + length ?c1 + length ?c2) ?c3 t2"
  obtain pos where t1: "view t1 = empty_ks\<lparr>ks_str := (\<lambda>k. case map_of (data s) k of None \<Rightarrow> None
         | Some e \<Rightarrow> (case restored now (clk (pos k)) (ExpiresAt e) of None \<Rightarrow> None
                     | Some y \<Rightarrow> Some (Value e, y)))\<rparr>"
    "maxMemoryBytes t1 = maxMemoryBytes t"
    using replay_strings [OF ok(1) assms(2), of clk i now]
    unfolding t1_def assms(3) empty_ks_def keyspace.simps by blast
  have t2: "view t2 = (view t1)\<lparr>ks_list := map_of (lists s)\<rparr>" "maxMemoryBytes t2 = maxMemoryBytes t"
    using replay_lists [OF ok(2,5), where s = t1 and clk = clk and i = "i + length ?c1"] t1 assms(2)
    by (simp_all add: t2_def empty_ks_def)
  have t3: "view t3 = (view t2)\<lparr>ks_hash := (\<lambda>k. map_option map_of (map_of (hashes s) k))\<rparr>"
    "maxMemoryBytes t3 = maxMemoryBytes t"
    using replay_hashes [OF ok(3), where s = t2 and clk = clk and i = "i + length ?c1 + length ?c2"] ok(6,7) t1 t2 assms(2)
    by (simp_all add: t3_def empty_ks_def)
  have r: "replay_entries clk i (snapshot_cmds now (store_Snapshot s)) t = t3"
    by (simp add: snapshot_cmds_def store_Snapshot_def replay_entries_append t1_def t2_def t3_def
        add.assoc)
  have v: "ks_str (view t3) k = (case map_of (data s) k of None \<Rightarrow> None
      | Some e \<Rightarrow> (case restored now (clk (pos k)) (ExpiresAt e) of None \<Rightarrow> None
                  | Some y \<Rightarrow> Some (Value e, y)))" for k
    by (simp add: t1(1) t2(1) t3(1))
  show ?thesis unfolding r
  proof (intro exI [of _ pos] conjI keyspace_eqI)
    show "ks_str (view t3) = ks_str ((view s)\<lparr>ks_str := (\<lambda>k. case ks_str (view s) k of None \<Rightarrow> None
         | Some (v, x) \<Rightarrow> map_option (Pair v) (restored now (clk (pos k)) x))\<rparr>)"
      by (auto simp: v view_def [of s] fun_eq_iff split: option.split)
  qed (simp_all add: t1(1) t2 t3, simp_all add: view_def)
qed

text \<open>
  C6: Writing a snapshot, then reading it back. For a store within its invariant, the compacted file that
  \<open>writeSnapshot\<close> produces at \<open>now\<close>, replayed into a fresh store, restores every list and hash
  exactly, and every string that had not expired; one with an expiry gets the remaining time
  in whole milliseconds, counted from the moment its command is replayed.
\<close>

theorem snapshot_restores:
  assumes "store_inv s" "list_all fits (snapshot_cmds now (store_Snapshot s))"
    "aof_file a = writeSnapshot [] now (store_Snapshot s)"
  shows "\<exists>n pos s'. aof_Replay clk a store_New = Returns (s', n)
     \<and> view s' = (view s)\<lparr>ks_str := (\<lambda>k. case ks_str (view s) k of None \<Rightarrow> None
         | Some (v, x) \<Rightarrow> map_option (Pair v) (restored now (clk (pos k)) x))\<rparr>"
proof -
  have "store_ok s" "maxMemoryBytes store_New \<le> 0"
    using assms(1) by (simp_all add: store_inv_def store_New_def)
  from snapshot_view [OF this view_New, of clk 0 now] show ?thesis
    using replay_file [OF assms(2), of a clk store_New] assms(3)
    by (auto simp: writeSnapshot_bytes)
qed

theorem snapshot_restores_witness:
  "\<exists>n pos s'. aof_Replay int (NewAOF (writeSnapshot [] 7
        (store_Snapshot (store_New\<lparr>lists := [(''l'', [''a'', ''b''])]\<rparr>))) FsyncNo) store_New
       = Returns (s', n) \<and> ks_list (view s') ''l'' = Some [''a'', ''b'']"
proof -
  let ?s = "store_New\<lparr>lists := [(''l'', [''a'', ''b''])]\<rparr>"
  have inv: "store_inv ?s"
    by (simp add: store_inv_def store_ok_def mem_ok_def store_New_def okmap_def)
  have "snapshot_cmds 7 (store_Snapshot ?s) = [[''RPUSH'', ''l'', ''a'', ''b'']]"
    by (simp add: snapshot_cmds_def store_Snapshot_def store_New_def list_cmds_def chunkSize_def
        chunk_cmds.simps)
  then have "list_all fits (snapshot_cmds 7 (store_Snapshot ?s))"
    by (simp add: fits_def small_def maxAlloc_def sizeofValue_def)
  from snapshot_restores [OF inv this, of "NewAOF (writeSnapshot [] 7 (store_Snapshot ?s)) FsyncNo" int]
  show ?thesis by (fastforce simp: NewAOF_def view_def)
qed

end
