(* ===== verification/Aof_Rewrite.thy ===== *)
theory Aof_Rewrite
  imports Aof_Snapshot
begin

text \<open>
  The whole persistence protocol: commands that are logged, rewrites that begin, run beside
  them and finish or fail, and what the file replays to at any moment.
\<close>

section \<open>Executing a logged command again\<close>

text \<open>
  A replayed store is compared by keyspace only, and strings only at the keys of a set \<open>K\<close> that
  never have an expiry: what a logged command does to them, and to lists and hashes, does not
  depend on the clock, nor on the other strings.  With the running store's ceiling, or none, a
  replaying store refuses nothing there that was accepted.
\<close>

definition no_ttl :: "string set \<Rightarrow> keyspace \<Rightarrow> bool" where
  "no_ttl K v \<longleftrightarrow> (\<forall>k\<in>K. \<forall>a x. ks_str v k = Some (a, x) \<longrightarrow> x = ZeroTime)"

definition agree :: "string set \<Rightarrow> keyspace \<Rightarrow> keyspace \<Rightarrow> bool" where
  "agree K v w \<longleftrightarrow> ks_list v = ks_list w \<and> ks_hash v = ks_hash w \<and> (\<forall>k\<in>K. ks_str v k = ks_str w k)"

lemma no_ttlD: "no_ttl K v \<Longrightarrow> k \<in> K \<Longrightarrow> ks_str v k = Some (a, x) \<Longrightarrow> x = ZeroTime"
  by (auto simp: no_ttl_def)

lemma agree_refl [simp]: "agree K v v"
  by (simp add: agree_def)

lemma agree_sym: "agree K v w \<Longrightarrow> agree K w v"
  by (simp add: agree_def)

lemma agree_trans: "agree K u v \<Longrightarrow> agree K v w \<Longrightarrow> agree K u w"
  by (simp add: agree_def)

lemma agree_UNIV [simp]: "agree UNIV v w \<longleftrightarrow> v = w"
  by (auto simp: agree_def intro!: keyspace_eqI)

lemma agreeD:
  assumes "agree K v w"
  shows "ks_list v = ks_list w" "ks_hash v = ks_hash w" "k \<in> K \<Longrightarrow> ks_str v k = ks_str w k"
  using assms by (simp_all add: agree_def)

lemma agree_no_ttl: "agree K v w \<Longrightarrow> no_ttl K w \<Longrightarrow> no_ttl K v"
  by (auto simp: agree_def no_ttl_def)

text \<open>Writing a string outside \<open>K\<close> is not seen.\<close>

lemma agree_elsewhere: "k \<notin> K \<Longrightarrow> agree K (v\<lparr>ks_str := (ks_str v)(k := x)\<rparr>) w \<longleftrightarrow> agree K v w"
  "k \<notin> K \<Longrightarrow> agree K v (w\<lparr>ks_str := (ks_str w)(k := x)\<rparr>) \<longleftrightarrow> agree K v w"
  by (auto simp: agree_def)

lemma refused_Inr: "refused r = Inr s' \<longleftrightarrow> (\<exists>n. r = Inr (n, s'))"
  by (cases r rule: refused.cases) auto

lemma replay_SET_eq:
  "replayCommand now s ''SET'' args =
     (if length args < 2 then Inl WrongArgs
      else case parseSetTTL (drop 2 args) of Inl e \<Rightarrow> Inl e
           | Inr ttl \<Rightarrow> (case store_Set now (args ! 0) (args ! 1) ttl s of
                         Inl e \<Rightarrow> Inl (Refused e) | Inr s' \<Rightarrow> Inr s'))"
  by (simp add: replayCommand_def)

lemma replay_counter_eq:
  "replayCommand now s ''INCR'' args =
     (if length args \<noteq> 1 then Inl WrongArgs else refused (store_IncrBy now (args ! 0) 1 s))"
  "replayCommand now s ''DECR'' args =
     (if length args \<noteq> 1 then Inl WrongArgs else refused (store_IncrBy now (args ! 0) (-1) s))"
  "replayCommand now s ''INCRBY'' args =
     (if length args \<noteq> 2 then Inl WrongArgs
      else case atoi (args ! 1) of None \<Rightarrow> Inl NotANumber
           | Some n \<Rightarrow> refused (store_IncrBy now (args ! 0) n s))"
  "replayCommand now s ''DECRBY'' args =
     (if length args \<noteq> 2 then Inl WrongArgs
      else case atoi (args ! 1) of None \<Rightarrow> Inl NotANumber
           | Some n \<Rightarrow> refused (store_IncrBy now (args ! 0) (wrap64 (- n)) s))"
  by (simp_all add: replayCommand_def)

lemma replay_key_eq:
  "replayCommand now s ''DEL'' args =
     (if length args < 1 then Inl WrongArgs else Inr (snd (store_Del args s)))"
  "replayCommand now s ''EXPIRE'' args =
     (if length args \<noteq> 2 then Inl WrongArgs
      else case atoi (args ! 1) of None \<Rightarrow> Inl NotANumber
           | Some secs \<Rightarrow> Inr (snd (store_Expire now (args ! 0) secs s)))"
  "replayCommand now s ''FLUSHALL'' args = Inr (store_FlushAll s)"
  by (simp_all add: replayCommand_def)

lemma replay_collection_eq:
  "replayCommand now s ''LPUSH'' args =
     (if length args < 2 then Inl WrongArgs
      else refused (store_LPush (args ! 0) (drop 1 args) s))"
  "replayCommand now s ''RPUSH'' args =
     (if length args < 2 then Inl WrongArgs
      else refused (store_RPush (args ! 0) (drop 1 args) s))"
  "replayCommand now s ''HSET'' args =
     (if length args < 3 \<or> length args mod 2 = 0 then Inl WrongArgs
      else refused (store_HSet (args ! 0) (drop 1 args) s))"
  "replayCommand now s ''HDEL'' args =
     (if length args < 2 then Inl WrongArgs
      else Inr (snd (store_HDel (args ! 0) (drop 1 args) s)))"
  by (simp_all add: replayCommand_def)

lemmas replay_eqs = replay_SET_eq replay_counter_eq replay_key_eq replay_collection_eq

lemma replay_supported:
  assumes "replayCommand now s cmd args = Inr s'"
  obtains "cmd = ''SET''" | "cmd = ''DEL''" | "cmd = ''EXPIRE''" | "cmd = ''FLUSHALL''"
    | "cmd \<in> {''INCR'', ''DECR'', ''INCRBY'', ''DECRBY''}"
    | "cmd \<in> {''LPUSH'', ''RPUSH'', ''HSET'', ''HDEL''}"
proof -
  from assms have "cmd = ''SET'' \<or> cmd = ''DEL'' \<or> cmd = ''EXPIRE'' \<or> cmd = ''FLUSHALL''
    \<or> cmd \<in> {''INCR'', ''DECR'', ''INCRBY'', ''DECRBY''}
    \<or> cmd \<in> {''LPUSH'', ''RPUSH'', ''HSET'', ''HDEL''}"
    by (rule contrapos_pp) (simp add: replayCommand_def)
  then show thesis by (elim disjE) (erule that)+
qed

lemma replayCommand_inv:
  assumes r: "replayCommand now s cmd args = Inr s'" and inv: "store_inv s"
  shows "store_inv s'"
  using r
proof (cases rule: replay_supported)
  case 1
  with r show ?thesis
    by (auto simp: replay_SET_eq split: if_splits sum.splits intro: store_inv_Set [OF inv])
next
  case 2
  with r show ?thesis by (auto simp: replay_key_eq split: if_splits intro: store_inv_Del [OF inv])
next
  case 3
  with r show ?thesis
    by (auto simp: replay_key_eq split: if_splits option.splits intro: store_inv_Expire [OF inv])
next
  case 4
  with r show ?thesis by (auto simp: replay_key_eq intro: store_inv_FlushAll [OF inv])
next
  case 5
  with r show ?thesis
    by (auto simp: replay_counter_eq refused_Inr split: if_splits option.splits
        intro: store_inv_IncrBy [OF inv])
next
  case 6
  have l: "drop (Suc 0) args \<noteq> []" if "\<not> length args < 2" using that by (cases args) auto
  have h: "2 \<le> length (drop (Suc 0) args)" if "\<not> length args < 3" using that by simp
  note push = store_inv_LPush [OF inv l] store_inv_RPush [OF inv l]
  note hash = store_inv_HSet [OF inv h]
  from r 6 show ?thesis
    by (auto simp: replay_collection_eq refused_Inr split: if_splits elim: push hash
        intro: store_inv_HDel [OF inv])
qed

lemma maxMemory_results:
  "store_IncrBy now k d s = Inr (n, s') \<Longrightarrow> maxMemoryBytes s' = maxMemoryBytes s"
  "store_LPush k vs s = Inr (n, s') \<Longrightarrow> maxMemoryBytes s' = maxMemoryBytes s"
  "store_RPush k vs s = Inr (n, s') \<Longrightarrow> maxMemoryBytes s' = maxMemoryBytes s"
  "store_HSet k vs s = Inr (n, s') \<Longrightarrow> maxMemoryBytes s' = maxMemoryBytes s"
  using maxMemory_writes(1) [where s = s and now = now and k = k and d = d]
    maxMemory_writes(2-4) [where s = s and k = k and vs = vs] by simp_all

lemma replayCommand_max:
  assumes "replayCommand now s cmd args = Inr s'"
  shows "maxMemoryBytes s' = maxMemoryBytes s"
  using assms
proof (cases rule: replay_supported)
  case 5
  then show ?thesis
    using assms by (auto simp: replay_counter_eq refused_Inr maxMemory_results split: if_splits option.splits)
next
  case 6
  then show ?thesis
    using assms by (auto simp: replay_collection_eq refused_Inr maxMemory_results split: if_splits)
qed (use assms in \<open>auto simp: replay_SET_eq replay_key_eq split: if_splits sum.splits option.splits\<close>)

section \<open>Stores that hold the same\<close>

text \<open>\<open>t\<close> holds the keyspace of \<open>s\<close> and has room for whatever \<open>s\<close> has room for.\<close>

definition admits :: "string set \<Rightarrow> Store \<Rightarrow> Store \<Rightarrow> bool" where
  "admits K s t \<longleftrightarrow> agree K (view t) (view s)
     \<and> (\<forall>n. checkMemoryLocked n s = None \<longrightarrow> checkMemoryLocked n t = None)"

lemma admitsD:
  assumes "admits K s t"
  shows "agree K (view t) (view s)" "checkMemoryLocked n s = None \<Longrightarrow> checkMemoryLocked n t = None"
  using assms by (simp_all add: admits_def)

lemma admits_get_list: "admits K s t \<Longrightarrow> get_list k t = get_list k s"
  using agreeD(1) [OF admitsD(1)] by (simp add: get_list_view)

lemma admits_Set:
  assumes "store_Set now k v ttl s = Inr s'" "no_ttl K (view s')" "admits K s t"
  shows "\<exists>t'. store_Set now' k v ttl t = Inr t' \<and> agree K (view t') (view s')"
proof -
  have "checkMemoryLocked (int (length k + length v)) s = None"
    using assms(1) by (auto simp: Set_eq split: option.splits)
  with admitsD(2) [OF assms(3)] obtain t' where t': "store_Set now' k v ttl t = Inr t'"
    by (simp only: Set_eq option.case)
  have "expiry now' ttl = expiry now ttl" if "k \<in> K"
  proof -
    have "expiry now ttl = ZeroTime"
      using no_ttlD [OF assms(2) that] view_Set [OF assms(1)] by simp
    then show ?thesis by (simp add: expiry_def split: if_splits)
  qed
  with t' view_Set [OF t'] view_Set [OF assms(1)] admitsD(1) [OF assms(3)] show ?thesis
    by (auto simp: agree_def)
qed

text \<open>A counter outside \<open>K\<close> may be refused on replay; then, too, nothing is seen.\<close>

lemma admits_IncrBy:
  assumes "store_IncrBy now k d s = Inr (n, s')" "no_ttl K (view s)" "admits K s t"
  shows "agree K (view (kept t (store_IncrBy now' k d t))) (view s')"
proof (cases "k \<in> K")
  case True
  note t = admitsD [OF assms(3)]
  have str: "ks_str (view t) k = ks_str (view s) k" using agreeD(3) [OF t(1) True] .
  then have "counter_base now' k t = counter_base now k s"
    using assms(2) True
    by (cases "ks_str (view s) k") (auto simp: counter_base_def alive_def dest: no_ttlD)
  moreover have x: "old_expiry k t = old_expiry k s" by (simp add: old_expiry_def str)
  ultimately obtain t' where t': "store_IncrBy now' k d t = Inr (n, t')"
    using assms(1) t(2) by (auto simp: IncrBy_eq split: option.splits)
  with t(1) view_IncrBy [OF t'] view_IncrBy [OF assms(1)] x show ?thesis by (auto simp: agree_def)
next
  case False
  then show ?thesis
    using admitsD(1) [OF assms(3)] view_IncrBy [OF assms(1)]
    by (cases "store_IncrBy now' k d t") (auto simp: agree_elsewhere dest: view_IncrBy)
qed

lemma admits_LPush:
  assumes "store_LPush k vs s = Inr (n, s')" "admits K s t"
  shows "\<exists>m t'. store_LPush k vs t = Inr (m, t') \<and> agree K (view t') (view s')"
  using assms(1) admitsD [OF assms(2)] admits_get_list [OF assms(2)]
  by (auto simp: LPush_eq view_lists agree_def split: option.splits)

lemma admits_RPush:
  assumes "store_RPush k vs s = Inr (n, s')" "admits K s t"
  shows "\<exists>m t'. store_RPush k vs t = Inr (m, t') \<and> agree K (view t') (view s')"
  using assms(1) admitsD [OF assms(2)] admits_get_list [OF assms(2)]
  by (auto simp: store_RPush_def Let_def view_lists agree_def split: option.splits)

lemma admits_HSet:
  assumes "store_HSet k ps s = Inr (n, s')" "admits K s t"
  shows "\<exists>m t'. store_HSet k ps t = Inr (m, t') \<and> agree K (view t') (view s')"
proof -
  note t = admitsD [OF assms(2)]
  have "checkMemoryLocked (int (length k) + sumLen ps) s = None"
    using assms(1) by (auto simp: HSet_eq split: option.splits)
  with t(2) obtain m t' where t': "store_HSet k ps t = Inr (m, t')" by (simp only: HSet_eq option.case)
  have "fields_of k t = fields_of k s" by (simp add: fields_of_def agreeD(2) [OF t(1)])
  then show ?thesis using t' t(1) view_HSet [OF t'] view_HSet [OF assms(1)] by (auto simp: agree_def)
qed

lemma same_always:
  assumes "agree K (view t) (view s)"
  shows "agree K (view (snd (store_Del ks t))) (view (snd (store_Del ks s)))"
    and "agree K (view (snd (store_HDel k fs t))) (view (snd (store_HDel k fs s)))"
    and "agree K (view (store_FlushAll t)) (view (store_FlushAll s))"
  using assms
  by (simp_all add: store_Del_def Del_loop_view HDel_view view_FlushAll agree_def restrict_map_def)

lemma same_Expire:
  assumes "no_ttl K (view (snd (store_Expire now k secs s)))" "agree K (view t) (view s)"
  shows "agree K (view (snd (store_Expire now' k secs t))) (view (snd (store_Expire now k secs s)))"
proof (cases "k \<in> K")
  case True
  have "ks_str (view s) k = None"
    using assms(1) True by (cases "ks_str (view s) k") (auto simp: expire_view no_ttl_def split: if_splits)
  with assms(2) True show ?thesis by (simp add: expire_view agree_def)
qed (use assms(2) in \<open>simp add: expire_view agree_elsewhere\<close>)

text \<open>Executing a logged command again, as the loop of \<open>Replay\<close> does.\<close>

lemma replay_entry_eq:
  "toUpper cmd = name \<Longrightarrow> replay_entry now (cmd # args) t =
     (case replayCommand now t name args of Inl e \<Rightarrow> t | Inr t' \<Rightarrow> t')"
  by (simp add: replay_entry_def)

lemma replay_admits:
  assumes r: "replayCommand now s (toUpper cmd) args = Inr s'"
    and n: "no_ttl K (view s)" "no_ttl K (view s')" and t: "admits K s t"
  shows "agree K (view (replay_entry now' (cmd # args) t)) (view s')"
  using r
proof (cases rule: replay_supported)
  case 1
  with r obtain ttl where l: "\<not> length args < 2" "parseSetTTL (drop 2 args) = Inr ttl"
    and s': "store_Set now (args ! 0) (args ! 1) ttl s = Inr s'"
    by (auto simp: replay_SET_eq split: if_splits sum.splits)
  from admits_Set [OF s' n(2) t, of now'] l 1 show ?thesis
    by (auto simp: replay_entry_eq replay_SET_eq)
next
  case 2
  with r same_always(1) [OF admitsD(1) [OF t]] show ?thesis
    by (auto simp: replay_entry_eq replay_key_eq split: if_splits)
next
  case 3
  with r obtain secs where l: "length args = 2" "atoi (args ! 1) = Some secs"
    and s': "s' = snd (store_Expire now (args ! 0) secs s)"
    by (auto simp: replay_key_eq split: if_splits option.splits)
  from same_Expire [OF n(2) [unfolded s'] admitsD(1) [OF t]] l 3 s' show ?thesis
    by (simp add: replay_entry_eq replay_key_eq)
next
  case 4
  with r same_always(3) [OF admitsD(1) [OF t]] show ?thesis by (auto simp: replay_entry_eq replay_key_eq)
next
  case 5
  have "(case refused x of Inl e \<Rightarrow> t | Inr t' \<Rightarrow> t') = kept t x" for x :: "store_err + int \<times> Store"
    by (cases x rule: refused.cases) auto
  with 5 r show ?thesis
    by (auto simp: replay_entry_eq replay_counter_eq refused_Inr split: if_splits option.splits
        dest!: admits_IncrBy [OF _ n(1) t, where now' = now'])
next
  case 6
  then show ?thesis
    using r same_always(2) [OF admitsD(1) [OF t]]
    by (auto simp: replay_entry_eq replay_collection_eq refused_Inr split: if_splits
        dest!: admits_LPush [OF _ t] admits_RPush [OF _ t] admits_HSet [OF _ t])
qed

text \<open>
  \<open>same K C v t\<close>: a replaying store \<open>t\<close> holds \<open>v\<close>; it has no memory ceiling, or the ceiling \<open>C\<close>,
  and then it holds exactly \<open>v\<close>.  \<open>runs C s\<close>: the running store \<open>s\<close> that it follows has that
  ceiling, if it is one.
\<close>

definition unhindered :: "string set \<Rightarrow> int \<Rightarrow> Store \<Rightarrow> bool" where
  "unhindered K C t \<longleftrightarrow> maxMemoryBytes t \<le> 0 \<or> K = UNIV \<and> maxMemoryBytes t = C \<and> store_inv t"

definition same :: "string set \<Rightarrow> int \<Rightarrow> keyspace \<Rightarrow> Store \<Rightarrow> bool" where
  "same K C v t \<longleftrightarrow> agree K (view t) v \<and> unhindered K C t"

definition runs :: "int \<Rightarrow> Store \<Rightarrow> bool" where
  "runs C s \<longleftrightarrow> store_inv s \<and> (C \<le> 0 \<or> maxMemoryBytes s = C)"

lemma same_admits:
  assumes "runs C s" "same K C (view s) t"
  shows "admits K s t"
proof -
  have "checkMemoryLocked n t = None" if "checkMemoryLocked n s = None" for n
  proof (cases "maxMemoryBytes t \<le> 0")
    case False
    with assms have "store_eqv s t" by (auto simp: runs_def same_def unhindered_def store_eqv_def)
    from eqv_check [OF this] that show ?thesis by simp
  qed (rule unlimited)
  with assms(2) show ?thesis by (auto simp: admits_def same_def)
qed

lemma unhindered_replay: "unhindered K C t \<Longrightarrow> unhindered K C (replay_entry now c t)"
proof (cases "c = []")
  case False
  assume "unhindered K C t"
  then show ?thesis
    using False replayCommand_inv [of now t "toUpper (hd c)" "tl c"] replayCommand_max [of now t "toUpper (hd c)" "tl c"]
    by (auto simp: unhindered_def replay_entry_def split: sum.split)
qed (simp add: replay_entry_def)

lemma unhindered_entries: "unhindered K C t \<Longrightarrow> unhindered K C (replay_entries clk i cs t)"
  by (induction cs arbitrary: i t) (auto intro: unhindered_replay)

lemma replay_same:
  assumes "replayCommand now s (toUpper cmd) args = Inr s'" "no_ttl K (view s)" "no_ttl K (view s')"
    "runs C s" "same K C (view s) t"
  shows "same K C (view s') (replay_entry now' (cmd # args) t)"
  using replay_admits [OF assms(1-3) same_admits [OF assms(4,5)]] assms(5)
  by (simp add: same_def unhindered_replay)

text \<open>
  \<open>leads K C v cs v'\<close>: replaying \<open>cs\<close> takes the keyspace \<open>v\<close> to \<open>v'\<close>, at any clock;
  \<open>restores K C cs v\<close>: it takes an empty store there.
\<close>

definition leads :: "string set \<Rightarrow> int \<Rightarrow> keyspace \<Rightarrow> string list list \<Rightarrow> keyspace \<Rightarrow> bool" where
  "leads K C v cs v' \<longleftrightarrow> (\<forall>clk i t. same K C v t \<longrightarrow> same K C v' (replay_entries clk i cs t))"

definition restores :: "string set \<Rightarrow> int \<Rightarrow> string list list \<Rightarrow> keyspace \<Rightarrow> bool" where
  "restores K C cs v \<longleftrightarrow>
     (\<forall>clk i t. view t = empty_ks \<longrightarrow> unhindered K C t \<longrightarrow> same K C v (replay_entries clk i cs t))"

lemma leads_Nil [simp]: "leads K C v [] v"
  by (simp add: leads_def)

lemma leads_append: "leads K C v cs v1 \<Longrightarrow> leads K C v1 ds v2 \<Longrightarrow> leads K C v (cs @ ds) v2"
  by (simp add: leads_def replay_entries_append)

lemma restores_append: "restores K C cs v \<Longrightarrow> leads K C v ds v' \<Longrightarrow> restores K C (cs @ ds) v'"
  by (simp add: restores_def leads_def replay_entries_append)

lemma same_agree: "same K C v t \<Longrightarrow> agree K v w \<Longrightarrow> same K C w t"
  using agree_trans by (auto simp: same_def)

lemma restores_agree: "restores K C cs v \<Longrightarrow> agree K v w \<Longrightarrow> restores K C cs w"
  unfolding restores_def using same_agree by blast

lemma leads_agree: "leads K C u cs v \<Longrightarrow> agree K v w \<Longrightarrow> leads K C u cs w"
  unfolding leads_def using same_agree by blast

lemma leads_command:
  assumes "replayCommand now s (toUpper cmd) args = Inr s'" "no_ttl K (view s)" "no_ttl K (view s')" "runs C s"
  shows "leads K C (view s) [cmd # args] (view s')"
  unfolding leads_def using replay_same [OF assms] by simp

lemma restores_snapshot:
  assumes "store_inv s" "no_ttl K (view s)" "C \<le> 0"
  shows "restores K C (snapshot_cmds now (store_Snapshot s)) (view s)"
  unfolding restores_def
proof (intro allI impI)
  fix clk :: "nat \<Rightarrow> int" and i t assume t: "view t = empty_ks" "unhindered K C t"
  have r: "(case ks_str (view s) k of None \<Rightarrow> None
      | Some (v, x) \<Rightarrow> map_option (Pair v) (restored now n x)) = ks_str (view s) k" if "k \<in> K" for k n
    by (cases "ks_str (view s) k") (auto simp: restored_def dest!: no_ttlD [OF assms(2) that])
  have "store_ok s" using assms(1) by (simp add: store_inv_def)
  moreover have "maxMemoryBytes t \<le> 0" using t(2) assms(3) by (auto simp: unhindered_def)
  ultimately show "same K C (view s) (replay_entries clk i (snapshot_cmds now (store_Snapshot s)) t)"
    using snapshot_view [of s t clk i now] t unhindered_entries [OF t(2)]
    by (auto simp: same_def agree_def r)
qed

section \<open>The protocol\<close>

text \<open>
  The store, the log, and the snapshot a running rewrite is writing out.  A client's command
  and its log entry are one critical section (\<open>WithLock\<close>); a rewrite is two.
\<close>

record live =
  mem :: Store
  log :: AOF
  running :: "Snapshot option"

inductive aof_step :: "string set \<Rightarrow> int \<Rightarrow> live \<Rightarrow> live \<Rightarrow> bool" for K C where
  command: "replayCommand now (mem l) (toUpper cmd) args = Inr s' \<Longrightarrow> no_ttl K (view s') \<Longrightarrow>
     fits (cmd # args) \<Longrightarrow> writeLocked os cmd args (log l) = (None, a') \<Longrightarrow>
     aof_step K C l (l\<lparr>mem := s', log := a'\<rparr>)"
| unlogged: "agree K (view (mem l)) (view s') \<Longrightarrow> store_inv s' \<Longrightarrow> maxMemoryBytes s' = maxMemoryBytes (mem l) \<Longrightarrow>
     aof_step K C l (l\<lparr>mem := s'\<rparr>)"
| fsync_tick: "aof_step K C l (l\<lparr>log := fsyncLoop_tick os (log l)\<rparr>)"
| rewrite_begin: "C \<le> 0 \<Longrightarrow> Rewrite_begin s (log l) = Inr (snap, a') \<Longrightarrow> store_inv s \<Longrightarrow>
     view s = view (mem l) \<Longrightarrow> aof_step K C l (l\<lparr>log := a', running := Some snap\<rparr>)"
| rewrite_finish: "running l = Some snap \<Longrightarrow> list_all fits (snapshot_cmds now snap) \<Longrightarrow>
     Rewrite_finish now snap io (log l) = (r, a') \<Longrightarrow>
     aof_step K C l (l\<lparr>log := a', running := None\<rparr>)"

inductive_cases aof_stepE: "aof_step K C l l'"

definition on_disk :: "string set \<Rightarrow> int \<Rightarrow> live \<Rightarrow> bool" where
  "on_disk K C l \<longleftrightarrow> (\<exists>cs. list_all fits cs \<and> aof_file (log l) = enc_all cs
     \<and> restores K C cs (view (mem l)))"

definition rewrite_ok :: "string set \<Rightarrow> int \<Rightarrow> live \<Rightarrow> bool" where
  "rewrite_ok K C l \<longleftrightarrow>
     (rewriting (log l) \<longleftrightarrow> running l \<noteq> None) \<and> (rewriteRunning (log l) \<longleftrightarrow> running l \<noteq> None)
     \<and> (\<forall>snap. running l = Some snap \<longrightarrow>
          (\<exists>ds v. list_all fits ds \<and> rewriteBuf (log l) = enc_all ds
             \<and> (\<forall>now. restores K C (snapshot_cmds now snap) v) \<and> leads K C v ds (view (mem l))))"

definition live_inv :: "string set \<Rightarrow> int \<Rightarrow> live \<Rightarrow> bool" where
  "live_inv K C l \<longleftrightarrow> runs C (mem l) \<and> no_ttl K (view (mem l)) \<and> on_disk K C l \<and> rewrite_ok K C l"

lemma Rewrite_begin_ok:
  "Rewrite_begin s a = Inr (snap, a') \<Longrightarrow> snap = store_Snapshot s \<and> \<not> rewriteRunning a
     \<and> a' = a\<lparr>rewriteRunning := True, rewriting := True, rewriteBuf := []\<rparr>"
  by (auto simp: Rewrite_begin_def split: if_splits)

lemma Rewrite_finish_ok:
  assumes "Rewrite_finish now snap io a = (r, a')"
  shows "\<not> rewriting a'" "\<not> rewriteRunning a'"
    "aof_file a' = aof_file a \<or> aof_file a' = enc_all (snapshot_cmds now snap) @ rewriteBuf a"
  using assms by (auto simp: Rewrite_finish_def Let_def writeSnapshot_bytes split: rewrite_io.splits)

lemma fsyncLoop_tick_file:
  "aof_file (fsyncLoop_tick os a) = aof_file a" "rewriteBuf (fsyncLoop_tick os a) = rewriteBuf a"
  "rewriting (fsyncLoop_tick os a) = rewriting a"
  "rewriteRunning (fsyncLoop_tick os a) = rewriteRunning a"
  by (auto simp: fsyncLoop_tick_def aof_Sync_def split: option.splits os_sync.splits)

lemma live_command:
  assumes "live_inv K C l" "replayCommand now (mem l) (toUpper cmd) args = Inr s'" "no_ttl K (view s')"
    "fits (cmd # args)" "writeLocked os cmd args (log l) = (None, a')"
  shows "live_inv K C (l\<lparr>mem := s', log := a'\<rparr>)"
proof -
  let ?c = "cmd # args" and ?l = "l\<lparr>mem := s', log := a'\<rparr>"
  note w = writeLocked_ok [OF assms(5)]
  have inv: "runs C (mem l)" "no_ttl K (view (mem l))" using assms(1) by (auto simp: live_inv_def)
  have step: "leads K C (view (mem l)) [?c] (view s')"
    by (rule leads_command [OF assms(2) inv(2) assms(3) inv(1)])
  obtain cs where "list_all fits cs" "aof_file (log l) = enc_all cs" "restores K C cs (view (mem l))"
    using assms(1) by (auto simp: live_inv_def on_disk_def)
  then have "on_disk K C ?l"
    unfolding on_disk_def using w(1) assms(4) restores_append [OF _ step]
    by (intro exI [of _ "cs @ [?c]"]) auto
  moreover have "rewrite_ok K C ?l"
  proof (cases "running l")
    case None
    then show ?thesis using assms(1) w by (simp add: live_inv_def rewrite_ok_def)
  next
    case (Some snap)
    then obtain ds v where "list_all fits ds" "rewriteBuf (log l) = enc_all ds"
      "\<forall>now. restores K C (snapshot_cmds now snap) v" "leads K C v ds (view (mem l))" "rewriting (log l)"
      using assms(1) by (auto simp: live_inv_def rewrite_ok_def)
    then have "\<exists>ds v. list_all fits ds \<and> rewriteBuf a' = enc_all ds
        \<and> (\<forall>now. restores K C (snapshot_cmds now snap) v) \<and> leads K C v ds (view s')"
      using w(2) assms(4) leads_append [OF _ step] by (intro exI [of _ "ds @ [?c]"] exI [of _ v]) auto
    then show ?thesis using Some assms(1) w by (simp add: live_inv_def rewrite_ok_def)
  qed
  ultimately show ?thesis
    using replayCommand_inv [OF assms(2)] replayCommand_max [OF assms(2)] inv(1) assms(3)
    by (simp add: live_inv_def runs_def)
qed

lemma live_unlogged:
  assumes "live_inv K C l" "agree K (view (mem l)) (view s')" "store_inv s'"
    "maxMemoryBytes s' = maxMemoryBytes (mem l)"
  shows "live_inv K C (l\<lparr>mem := s'\<rparr>)"
proof -
  have "on_disk K C (l\<lparr>mem := s'\<rparr>)"
    using assms(1) restores_agree [OF _ assms(2)] by (auto simp: live_inv_def on_disk_def)
  moreover have "rewrite_ok K C (l\<lparr>mem := s'\<rparr>)"
    using assms(1) leads_agree [OF _ assms(2)] by (fastforce simp: live_inv_def rewrite_ok_def)
  moreover have "no_ttl K (view s')"
    using assms(1) agree_no_ttl [OF agree_sym [OF assms(2)]] by (simp add: live_inv_def)
  ultimately show ?thesis using assms by (simp add: live_inv_def runs_def)
qed

lemma live_begin:
  assumes "live_inv K C l" "C \<le> 0" "Rewrite_begin s (log l) = Inr (snap, a')" "store_inv s" "view s = view (mem l)"
  shows "live_inv K C (l\<lparr>log := a', running := Some snap\<rparr>)"
proof -
  note b = Rewrite_begin_ok [OF assms(3)]
  have "no_ttl K (view s)" using assms(1,5) by (simp add: live_inv_def)
  then have "restores K C (snapshot_cmds now snap) (view (mem l))" for now
    using restores_snapshot [OF assms(4) _ assms(2)] b assms(5) by simp
  then have "rewrite_ok K C (l\<lparr>log := a', running := Some snap\<rparr>)"
    using b unfolding rewrite_ok_def
    by (intro conjI allI impI exI [of _ "[]"] exI [of _ "view (mem l)"]) auto
  then show ?thesis using assms(1) b by (simp add: live_inv_def on_disk_def)
qed

lemma live_finish:
  assumes "live_inv K C l" "running l = Some snap" "list_all fits (snapshot_cmds now snap)"
    "Rewrite_finish now snap io (log l) = (r, a')"
  shows "live_inv K C (l\<lparr>log := a', running := None\<rparr>)"
proof -
  note f = Rewrite_finish_ok [OF assms(4)]
  obtain ds v where ds: "list_all fits ds" "rewriteBuf (log l) = enc_all ds"
    "restores K C (snapshot_cmds now snap) v" "leads K C v ds (view (mem l))"
    using assms(1,2) by (auto simp: live_inv_def rewrite_ok_def)
  have new: "list_all fits (snapshot_cmds now snap @ ds)"
    "restores K C (snapshot_cmds now snap @ ds) (view (mem l))"
    using assms(3) ds restores_append [OF ds(3,4)] by auto
  have "on_disk K C (l\<lparr>log := a', running := None\<rparr>)"
    using f(3)
  proof
    assume "aof_file a' = aof_file (log l)"
    then show ?thesis using assms(1) by (simp add: live_inv_def on_disk_def)
  next
    assume "aof_file a' = enc_all (snapshot_cmds now snap) @ rewriteBuf (log l)"
    then show ?thesis
      unfolding on_disk_def using new ds(2) by (intro exI [of _ "snapshot_cmds now snap @ ds"]) simp
  qed
  then show ?thesis using assms(1) f(1,2) by (simp add: live_inv_def rewrite_ok_def)
qed

interpretation live: transition_invariant "aof_step K C" "live_inv K C" for K C
proof
  fix K C l l' assume "aof_step K C l l'" and inv: "live_inv K C l"
  then show "live_inv K C l'"
  proof (cases rule: aof_step.cases)
    case command
    with inv show ?thesis by (simp add: live_command)
  next
    case unlogged
    with inv show ?thesis by (simp add: live_unlogged)
  next
    case fsync_tick
    with inv show ?thesis
      by (simp add: live_inv_def on_disk_def rewrite_ok_def fsyncLoop_tick_file)
  next
    case rewrite_begin
    with inv show ?thesis by (simp add: live_begin)
  next
    case rewrite_finish
    with inv show ?thesis using live_finish by blast
  qed
qed

section \<open>What survives a crash\<close>

definition started :: "int \<Rightarrow> FsyncPolicy \<Rightarrow> live" where
  "started maxmem policy =
     \<lparr>mem = store_SetMaxMemory maxmem store_New, log = NewAOF [] policy, running = None\<rparr>"

lemma started_view: "view (store_SetMaxMemory m store_New) = empty_ks"
  by (simp add: store_SetMaxMemory_def store_New_def view_def empty_ks_def)

lemma live_started: "C \<le> 0 \<or> C = maxmem \<Longrightarrow> live_inv K C (started maxmem policy)"
proof -
  assume C: "C \<le> 0 \<or> C = maxmem"
  have "restores K C [] empty_ks" by (simp add: restores_def same_def)
  moreover have "no_ttl K empty_ks" by (simp add: no_ttl_def empty_ks_def)
  moreover have "runs C (store_SetMaxMemory maxmem store_New)"
    using C store_inv_empty by (auto simp: runs_def) (auto simp: store_SetMaxMemory_def)
  ultimately show ?thesis
    unfolding live_inv_def on_disk_def rewrite_ok_def started_def
    by (intro conjI exI [of _ "[]"]) (auto simp: NewAOF_def started_view)
qed

text \<open>
  What the file replays to: into a store without a ceiling, and without expiries also into one
  with the running server's ceiling.
\<close>

lemma live_recovers:
  assumes "live_inv K C l" "m \<le> 0 \<or> m = C \<and> K = UNIV" "aof_file a = aof_file (log l)"
  shows "\<exists>s' n. aof_Replay clk a (store_SetMaxMemory m store_New) = Returns (s', n) \<and> agree K (view s') (view (mem l))"
proof -
  obtain cs where cs: "list_all fits cs" "aof_file (log l) = enc_all cs" "restores K C cs (view (mem l))"
    using assms(1) by (auto simp: live_inv_def on_disk_def)
  have "unhindered K C (store_SetMaxMemory m store_New)"
    using assms(2) store_inv_empty [of m] by (auto simp: unhindered_def) (auto simp: store_SetMaxMemory_def)
  with cs(3) have "agree K (view (replay_entries clk 0 cs (store_SetMaxMemory m store_New))) (view (mem l))"
    by (simp add: restores_def same_def started_view)
  moreover have "aof_file a = enc_all cs" using assms(3) cs(2) by simp
  ultimately show ?thesis using replay_file [OF cs(1), of a clk] by blast
qed

text \<open>
  What a step does to the file and to the part of it that is on the disk: everything is, or that part stays and at
  most one record, not yet synced, has been appended.
\<close>

lemma writeLocked_file:
  assumes "writeLocked os cmd args a = (None, a')"
  shows "fsync a' = fsync a \<and> aof_file a' = aof_file a @ arrayBytes (cmd # args)
     \<and> synced a' = (if fsync a = FsyncAlways then length (aof_file a') else synced a)"
  using assms by (auto simp: writeLocked_eq Let_def split: option.splits os_write.splits os_sync.splits if_splits)

lemma fsyncLoop_tick_synced:
  "fsync (fsyncLoop_tick os a) = fsync a"
  "synced (fsyncLoop_tick os a) = length (aof_file a) \<or> synced (fsyncLoop_tick os a) = synced a"
  by (auto simp: fsyncLoop_tick_def aof_Sync_def split: option.splits os_sync.splits)

lemma Rewrite_finish_synced:
  assumes "Rewrite_finish now snap io a = (r, a')"
  shows "fsync a' = fsync a \<and> (synced a' = length (aof_file a') \<or> synced a' = synced a \<and> aof_file a' = aof_file a)"
  using assms by (auto simp: Rewrite_finish_def Let_def split: rewrite_io.splits)

lemma aof_step_file:
  assumes "aof_step K C l l'"
  defines "a \<equiv> log l" and "a' \<equiv> log l'"
  shows "fsync a' = fsync a \<and> (synced a' = length (aof_file a') \<or> synced a' = synced a
     \<and> (aof_file a' = aof_file a \<or> fsync a \<noteq> FsyncAlways \<and> (\<exists>c. fits c \<and> aof_file a' = aof_file a @ arrayBytes c)))"
  using assms(1)
proof (cases rule: aof_step.cases)
  case command
  then show ?thesis using writeLocked_file by (fastforce simp: a_def a'_def)
next
  case (fsync_tick os)
  then show ?thesis
    using fsyncLoop_tick_synced [of os a] fsyncLoop_tick_file(1) [of os a] by (auto simp: a_def a'_def)
next
  case rewrite_begin
  then show ?thesis using Rewrite_begin_ok by (fastforce simp: a_def a'_def)
next
  case (rewrite_finish snap now io r a1)
  then show ?thesis using Rewrite_finish_synced [OF rewrite_finish(4)] by (auto simp: a_def a'_def)
qed (simp add: a_def a'_def)

text \<open>What a file that ends in a torn record replays to.\<close>

definition torn_log :: "string set \<Rightarrow> int \<Rightarrow> string \<Rightarrow> keyspace \<Rightarrow> bool" where
  "torn_log K C f v \<longleftrightarrow> (\<exists>cs c t u. list_all fits cs \<and> fits c \<and> arrayBytes c = t @ u \<and> u \<noteq> [] \<and> f = enc_all cs @ t
     \<and> restores K C cs v)"

lemma on_disk_torn:
  assumes "on_disk K C l" "fits c" "arrayBytes c = t @ u" "u \<noteq> []"
  shows "torn_log K C (aof_file (log l) @ t) (view (mem l))"
  using assms unfolding on_disk_def torn_log_def by force

lemma on_disk_whole: "on_disk K C l \<Longrightarrow> torn_log K C (aof_file (log l)) (view (mem l))"
  using on_disk_torn [of K C l "[]" "[]"] by (simp add: fits_def arrayBytes_def maxAlloc_def)

lemma torn_recovers:
  assumes "torn_log K C (aof_file a) v" "m \<le> 0 \<or> m = C \<and> K = UNIV"
  shows "\<exists>s' n. aof_Replay clk a (store_SetMaxMemory m store_New) = Returns (s', n) \<and> agree K (view s') v"
proof -
  obtain cs c t u where c: "list_all fits cs" "fits c" "arrayBytes c = t @ u" "u \<noteq> []" "aof_file a = enc_all cs @ t"
    "restores K C cs v" using assms(1) by (auto simp: torn_log_def)
  have "unhindered K C (store_SetMaxMemory m store_New)"
    using assms(2) store_inv_empty [of m] by (auto simp: unhindered_def) (auto simp: store_SetMaxMemory_def)
  with c(6) have "agree K (view (replay_entries clk 0 cs (store_SetMaxMemory m store_New))) v"
    by (simp add: restores_def same_def started_view)
  then show ?thesis using replay_torn [OF c(1-5), of clk] by blast
qed

text \<open>
  Why keys with an expiry are left out: their expiry starts again with the replay. Here a counter of 5 expires,
  is incremented to a 1 that has expired with it, and is replayed as a 6 that is alive.
\<close>

lemma replay_revives_expired:
  assumes "t0 + second < t1" "c 1 \<le> c 0 + second"
  defines "set5 \<equiv> [''SET'', ''k'', ''5'', ''EX'', ''1'']" and "inc \<equiv> [''INCR'', ''k'']"
  shows "\<exists>s1 s2 s' n. replayCommand t0 store_New (hd set5) (tl set5) = Inr s1
     \<and> replayCommand t1 s1 (hd inc) (tl inc) = Inr s2
     \<and> ks_str (view s2) ''k'' = Some (''1'', UnixNano (t0 + second))
     \<and> aof_Replay c (NewAOF (enc_all [set5, inc]) policy) store_New = Returns (s', n)
     \<and> ks_str (view s') ''k'' = Some (''6'', UnixNano (c 0 + second))"
proof -
  let ?st = "\<lambda>v x. store_New\<lparr>data := [(''k'', \<lparr>Value = v, ExpiresAt = UnixNano (x + second)\<rparr>)], expiryKeys := [(''k'', ())]\<rparr>"
  have w: "wrap64 1 = 1" "wrap64 6 = 6" by (simp_all add: wrap64_def)
  have num: "atoi ''1'' = Some 1" "atoi ''5'' = Some 5" by code_simp+
  have it: "itoa 1 = ''1''" "itoa 6 = ''6''" by code_simp+
  have up: "toUpper ''SET'' = ''SET''" "toUpper ''INCR'' = ''INCR''" "toUpper ''EX'' = ''EX''" by code_simp+
  have set: "replayCommand t store_New ''SET'' [''k'', ''5'', ''EX'', ''1''] = Inr (?st ''5'' t)" for t
    by (simp add: replay_SET_eq parseSetTTL_def num up store_Set_def checkMemoryLocked_def store_New_def Let_def second_def wrap64_def)
  have old: "replayCommand t (?st ''5'' x) ''INCR'' [''k''] = Inr (?st ''1'' x)" if "x + second < t" for t x
    using that by (simp add: replay_counter_eq store_IncrBy_def checkMemoryLocked_def store_New_def num it w
        isExpired_def Let_def)
  have new: "replayCommand t (?st ''5'' x) ''INCR'' [''k''] = Inr (?st ''6'' x)" if "t \<le> x + second" for t x
    using that by (simp add: replay_counter_eq store_IncrBy_def checkMemoryLocked_def store_New_def num it w
        isExpired_def Let_def)
  have "list_all fits [set5, inc]"
    by (simp add: set5_def inc_def fits_def small_def maxAlloc_def sizeofValue_def)
  from replay_file [OF this, of "NewAOF (enc_all [set5, inc]) policy" c store_New]
  obtain n where "aof_Replay c (NewAOF (enc_all [set5, inc]) policy) store_New = Returns (?st ''6'' (c 0), n)"
    using new [OF assms(2)] by (auto simp: NewAOF_def set5_def inc_def replay_entry_def up set)
  then show ?thesis
    using old [OF assms(1)] by (auto simp: set5_def inc_def set view_def)
qed
section \<open>What a rewrite loses\<close>

text \<open>
  A rewrite can make a key permanent. A key whose expiry is less than a millisecond away when
  the snapshot is written is written as \<open>PX 0\<close>, and replaying the compacted file gives a key
  without any expiry.
\<close>

lemma rewrite_makes_key_permanent:
  assumes "store_inv s" "ks_str (view s) k = Some (v, UnixNano t)"
    "0 < t - now" "t - now < millisecond"
    "list_all fits (snapshot_cmds now (store_Snapshot s))"
  shows "\<exists>s' n. aof_Replay clk (NewAOF (writeSnapshot [] now (store_Snapshot s)) policy) store_New
      = Returns (s', n) \<and> ks_str (view s') k = Some (v, ZeroTime)"
proof -
  have ok: "store_ok s" "maxMemoryBytes store_New \<le> 0"
    using assms(1) by (simp_all add: store_inv_def store_New_def)
  have "restored now n (UnixNano t) = Some ZeroTime" for n
    using assms(3,4) by (simp add: restored_def expiry_def Sub_def millisecond_def)
  then show ?thesis
    using snapshot_view [OF ok view_New, of clk 0 now] assms(2)
      replay_file [OF assms(5), of "NewAOF (writeSnapshot [] now (store_Snapshot s)) policy" clk store_New]
    by (auto simp: NewAOF_def writeSnapshot_bytes)
qed

lemma rewrite_makes_key_permanent_witness:
  "\<exists>s' n. aof_Replay int (NewAOF (writeSnapshot [] 100 (store_Snapshot
      (store_New\<lparr>data := [(''k'', \<lparr>Value = ''v'', ExpiresAt = UnixNano 700\<rparr>)], expiryKeys := [(''k'', ())]\<rparr>)))
      FsyncNo) store_New = Returns (s', n) \<and> ks_str (view s') ''k'' = Some (''v'', ZeroTime)"
  by (rule rewrite_makes_key_permanent [where t = 700])
    (simp_all add: store_inv_def store_ok_def mem_ok_def store_New_def okmap_def view_def millisecond_def
      snapshot_cmds_def store_Snapshot_def string_cmds_def Sub_def fits_def small_def maxAlloc_def sizeofValue_def
      itoa_def itoa_nat.simps)

lemma RPush_at:
  assumes "maxMemoryBytes s = M" "0 < M" "approxMemoryBytesLocked s = b"
  shows "store_RPush key vs s =
     (if b + (int (length key) + sumLen vs) > M then Inl ErrOOM
      else Inr (int (length (get_list key s @ vs)),
             s\<lparr>lists := AList.update key (get_list key s @ vs) (lists s)\<rparr>))"
  using assms by (simp add: store_RPush_def checkMemoryLocked_def Let_def)

lemma chunk_cmds_two:
  assumes "500 < length l" "length l \<le> 1000"
  shows "chunk_cmds ''RPUSH'' chunkSize key l =
     [''RPUSH'' # key # take 500 l, ''RPUSH'' # key # drop 500 l]"
proof -
  have "chunk_cmds ''RPUSH'' 500 key (drop 500 l) = [''RPUSH'' # key # drop 500 l]"
    using assms by (subst chunk_cmds.simps) (simp add: chunk_cmds.simps [of _ _ _ "[]"])
  then show ?thesis
    using assms by (subst chunk_cmds.simps) (auto simp: chunkSize_def)
qed

text \<open>
  A rewrite can lose acknowledged data at the memory ceiling. A list of more than 500 elements that one
  \<open>RPUSH\<close> stored within the ceiling is written as two commands; replaying the second one
  counts the key's name a second time, exceeds the same ceiling, and is skipped: the elements
  after the 500th are gone.
\<close>

lemma rewrite_loses_elements_at_ceiling:
  assumes "key \<noteq> []" "500 < length l" "length l \<le> 1000" "small key" "list_all small l"
  defines "s0 \<equiv> store_SetMaxMemory (int (length key) + sumLen l) store_New"
  shows "\<exists>n s m s'. store_RPush key l s0 = Inr (n, s) \<and> ks_list (view s) key = Some l
     \<and> aof_Replay clk (NewAOF (writeSnapshot [] now (store_Snapshot s)) policy) s0 = Returns (s', m)
     \<and> ks_list (view s') key = Some (take 500 l)"
proof -
  let ?M = "int (length key) + sumLen l" and ?c1 = "''RPUSH'' # key # take 500 l"
  let ?c2 = "''RPUSH'' # key # drop 500 l"
  define s where "s = s0\<lparr>lists := [(key, l)]\<rparr>"
  define s1 where "s1 = s0\<lparr>lists := [(key, take 500 l)]\<rparr>"
  have split: "sumLen l = sumLen (take 500 l) + sumLen (drop 500 l)"
    by (metis append_take_drop_id sumLen_append)
  have pos: "0 < int (length key)" "0 \<le> sumLen (take 500 l)" "0 \<le> sumLen (drop 500 l)"
    using assms(1) sumLen_nonneg by auto
  have M: "0 < ?M" using pos split by linarith
  have z: "maxMemoryBytes s0 = ?M" "approxMemoryBytesLocked s0 = 0" "get_list key s0 = []" "lists s0 = []"
    by (simp_all add: s0_def store_SetMaxMemory_def store_New_def approxMemoryBytesLocked_def get_list_def)
  have o: "maxMemoryBytes s1 = ?M" "approxMemoryBytesLocked s1 = int (length key) + sumLen (take 500 l)"
    by (simp_all add: s1_def s0_def store_SetMaxMemory_def store_New_def approxMemoryBytesLocked_def
        list_bytes_def)
  have push: "store_RPush key l s0 = Inr (int (length l), s)"
    using z by (simp add: RPush_at [OF z(1) M z(2)] s_def)
  have "store_RPush key (take 500 l) s0 = Inr (int (length (take 500 l)), s1)"
    using z pos(3) split by (simp add: RPush_at [OF z(1) M z(2)] s1_def not_less)
  then have r1: "replay_entry n ?c1 s0 = s1" for n
    using assms(2) by (auto simp: replay_entry_def replay_collection_eq)
  have "store_RPush key (drop 500 l) s1 = Inl ErrOOM"
    using pos(1) split unfolding RPush_at [OF o(1) M o(2)] by simp
  then have r2: "replay_entry n ?c2 s1 = s1" for n
    using assms(2) by (auto simp: replay_entry_def replay_collection_eq)
  have cmds: "snapshot_cmds now (store_Snapshot s) = [?c1, ?c2]"
    using chunk_cmds_two [OF assms(2,3)]
    by (simp add: snapshot_cmds_def store_Snapshot_def s_def s0_def store_SetMaxMemory_def store_New_def
        list_cmds_def)
  have "list_all small (take 500 l)" "list_all small (drop 500 l)"
    using assms(5) by (auto simp: list_all_iff dest: in_set_takeD in_set_dropD)
  moreover have "int (min (length l) 500) \<le> 1000" "int (length l - 500) \<le> 1000"
    using assms(3) by linarith+
  moreover have "small ''RPUSH''" by (simp add: small_def maxAlloc_def)
  ultimately have "list_all fits [?c1, ?c2]"
    using assms(4) by (simp add: fits_def sizeofValue_def maxAlloc_def)
  from replay_file [OF this, of "NewAOF (writeSnapshot [] now (store_Snapshot s)) policy" clk s0]
  obtain m where "aof_Replay clk (NewAOF (writeSnapshot [] now (store_Snapshot s)) policy) s0 = Returns (s1, m)"
    by (auto simp: NewAOF_def writeSnapshot_bytes cmds r1 r2)
  moreover have "ks_list (view s) key = Some l" "ks_list (view s1) key = Some (take 500 l)"
    by (simp_all add: s_def s1_def view_def)
  ultimately show ?thesis using push by blast
qed

lemma rewrite_loses_elements_at_ceiling_witness:
  "\<exists>n s m s'. store_RPush ''k'' (replicate 501 ''v'') (store_SetMaxMemory 502 store_New) = Inr (n, s)
     \<and> aof_Replay int (NewAOF (writeSnapshot [] 0 (store_Snapshot s)) FsyncNo)
         (store_SetMaxMemory 502 store_New) = Returns (s', m)
     \<and> ks_list (view s') ''k'' = Some (replicate 500 ''v'')"
proof -
  have sum: "sumLen (replicate n ''v'') = int n" for n by (induction n) auto
  show ?thesis
    using rewrite_loses_elements_at_ceiling [of "''k''" "replicate 501 ''v''" int 0 FsyncNo]
    by (auto simp add: sum small_def maxAlloc_def list_all_iff)
qed

end
