(* ===== verification/Events.thy ===== *)
theory Events
  imports Glob Go_Float
begin

text \<open>
  The observability core, \<open>events/events.go\<close>: latency histograms, the hot-key window, the
  slow log, the live stream and its subscribers, and the redaction of arguments.

  Clock readings and measured durations are arguments, in nanoseconds; the \<open>Unix\<close> seconds of
  the hot-key tracker are after 1970, so that Go's truncating division is \<open>div\<close>.  Each
  definition is what its method does under its mutex.
\<close>

section \<open>Entries\<close>

record Event =
  ev_Time :: int
  ev_Command :: string
  ev_Args :: "string list"
  ev_ClientAddr :: string
  ev_DurationUs :: int

record SlowEntry =
  se_ID :: int
  se_Time :: int
  se_DurationUs :: int
  se_Command :: string
  se_Args :: "string list"
  se_ClientAddr :: string

record HotKey =
  hk_Key :: string
  hk_Count :: int

record CommandStat =
  cs_Command :: string
  cs_Calls :: int
  cs_TotalUs :: int
  cs_P50Us :: int
  cs_P95Us :: int
  cs_P99Us :: int
  cs_Buckets :: "int list"

definition keyBearingCommands :: "string list" where
  "keyBearingCommands =
     [''SET'', ''GET'', ''DEL'', ''EXISTS'', ''EXPIRE'', ''TTL'',
      ''INCR'', ''DECR'', ''INCRBY'', ''DECRBY'',
      ''LPUSH'', ''RPUSH'', ''LRANGE'', ''HSET'', ''HGET'', ''HDEL'']"

section \<open>Latency histograms\<close>

definition maxInt64 :: int where
  "maxInt64 = 2 ^ 63 - 1"

definition bucketBoundsUs :: "int list" where
  "bucketBoundsUs = [1000, 5000, 10000, 50000, 100000, 500000, maxInt64]"

record histogram =
  calls :: int
  totalUs :: int
  buckets :: "int list"

definition histogram_zero :: histogram where
  "histogram_zero = \<lparr>calls = 0, totalUs = 0, buckets = replicate 7 0\<rparr>"

text \<open>The array element \<open>i\<close> of a Go array that is incremented in place.\<close>

definition bump :: "nat \<Rightarrow> int list \<Rightarrow> int list" where
  "bump i b = b[i := wrap64 (b ! i + 1)]"

fun record_bucket :: "int \<Rightarrow> nat \<Rightarrow> int list \<Rightarrow> int list \<Rightarrow> int list" where
  "record_bucket us i [] b = bump (length b - 1) b"
| "record_bucket us i (bound # bounds) b =
     (if us < bound then bump i b else record_bucket us (Suc i) bounds b)"

definition histogram_record :: "int \<Rightarrow> histogram \<Rightarrow> histogram" where
  "histogram_record us h =
     \<lparr>calls = wrap64 (calls h + 1), totalUs = wrap64 (totalUs h + us),
      buckets = record_bucket us 0 bucketBoundsUs (buckets h)\<rparr>"

fun percentile_scan :: "int \<Rightarrow> int \<Rightarrow> nat \<Rightarrow> int list \<Rightarrow> int" where
  "percentile_scan target cum i [] = bucketBoundsUs ! (length bucketBoundsUs - 2)"
| "percentile_scan target cum i (c # cs) =
     (let cum' = wrap64 (cum + c)
      in if cum' \<ge> target
         then if i = length bucketBoundsUs - 1 then bucketBoundsUs ! (i - 1) else bucketBoundsUs ! i
         else percentile_scan target cum' (Suc i) cs)"

text \<open>The product is rounded to a double, then rounded up to an integer.\<close>

definition percentile_target :: "rat \<Rightarrow> int \<Rightarrow> int" where
  "percentile_target p n = \<lceil>fl64 (p * fl64 (of_int n))\<rceil>"

definition percentile :: "rat \<Rightarrow> histogram \<Rightarrow> int" where
  "percentile p h =
     (if calls h = 0 then 0 else percentile_scan (percentile_target p (calls h)) 0 0 (buckets h))"

section \<open>Hot keys\<close>

definition hotkeyBucketWidth :: int where "hotkeyBucketWidth = 5"
definition hotkeyBucketCount :: int where "hotkeyBucketCount = 12"

record hotkeyTracker =
  hk_buckets :: "(string, int) gomap list"
  slotTime :: "int list"

definition newHotkeyTracker :: hotkeyTracker where
  "newHotkeyTracker =
     \<lparr>hk_buckets = replicate (nat hotkeyBucketCount) [], slotTime = replicate (nat hotkeyBucketCount) 0\<rparr>"

definition get_count :: "(string, int) gomap \<Rightarrow> string \<Rightarrow> int" where
  "get_count m k = (case map_of m k of None \<Rightarrow> 0 | Some n \<Rightarrow> n)"

definition hotkey_access :: "int \<Rightarrow> string \<Rightarrow> hotkeyTracker \<Rightarrow> hotkeyTracker" where
  "hotkey_access unix key t =
     (let window = unix div hotkeyBucketWidth;
          slot = nat (window mod hotkeyBucketCount);
          t1 = (if slotTime t ! slot \<noteq> window
                then \<lparr>hk_buckets = (hk_buckets t)[slot := []], slotTime = (slotTime t)[slot := window]\<rparr>
                else t);
          bucket = hk_buckets t1 ! slot
      in t1\<lparr>hk_buckets := (hk_buckets t1)
               [slot := AList.update key (wrap64 (get_count bucket key + 1)) bucket]\<rparr>)"

fun add_counts :: "(string, int) gomap \<Rightarrow> (string, int) gomap \<Rightarrow> (string, int) gomap" where
  "add_counts totals [] = totals"
| "add_counts totals ((k, v) # bucket) =
     add_counts (AList.update k (wrap64 (get_count totals k + v)) totals) bucket"

fun sum_buckets ::
  "int \<Rightarrow> (string, int) gomap list \<Rightarrow> int list \<Rightarrow> (string, int) gomap \<Rightarrow> (string, int) gomap" where
  "sum_buckets window (bucket # bs) (st # sts) totals =
     sum_buckets window bs sts
       (if window - st < hotkeyBucketCount then add_counts totals bucket else totals)"
| "sum_buckets window _ _ totals = totals"

text \<open>
  The totals are enumerated in the order of a Go map and sorted by an unstable sort; both are
  covered by the arbitrary order of the association list.
\<close>

definition hotkey_top :: "int \<Rightarrow> int \<Rightarrow> hotkeyTracker \<Rightarrow> HotKey list" where
  "hotkey_top unix n t =
     (let currentWindow = unix div hotkeyBucketWidth;
          totals = sum_buckets currentWindow (hk_buckets t) (slotTime t) [];
          out = sort_key (\<lambda>h. - hk_Count h) (map (\<lambda>(k, v). \<lparr>hk_Key = k, hk_Count = v\<rparr>) totals)
      in if n > 0 \<and> int (length out) > n then take (nat n) out else out)"

section \<open>Slow log\<close>

text \<open>
  \<open>maxLen\<close> is an \<open>int\<close> in the source; the only caller passes 128, and a negative one would
  make the slice expression panic, so it is a natural number here.
\<close>

record slowlog =
  sl_entries :: "SlowEntry list"
  maxLen :: nat
  thresholdUs :: int
  nextID :: int

definition microseconds :: "int \<Rightarrow> int" where
  "microseconds d = (if d < 0 then - ((- d) div 1000) else d div 1000)"

definition newSlowlog :: "int \<Rightarrow> nat \<Rightarrow> slowlog" where
  "newSlowlog threshold maxlen =
     \<lparr>sl_entries = [], maxLen = maxlen, thresholdUs = microseconds threshold, nextID = 0\<rparr>"

definition slowlog_maybeRecord ::
  "int \<Rightarrow> string \<Rightarrow> string list \<Rightarrow> string \<Rightarrow> int \<Rightarrow> slowlog \<Rightarrow> slowlog" where
  "slowlog_maybeRecord now cmd args clientAddr durationUs s =
     (if thresholdUs s < 0 \<or> durationUs < thresholdUs s then s
      else let id1 = wrap64 (nextID s + 1);
               es = sl_entries s @ [\<lparr>se_ID = id1, se_Time = now, se_DurationUs = durationUs,
                                    se_Command = cmd, se_Args = args, se_ClientAddr = clientAddr\<rparr>]
           in s\<lparr>nextID := id1,
                sl_entries := (if length es > maxLen s then drop (length es - maxLen s) es else es)\<rparr>)"

definition slowlog_get :: "int \<Rightarrow> slowlog \<Rightarrow> SlowEntry list" where
  "slowlog_get n s =
     (let n1 = (if n \<le> 0 \<or> n > int (length (sl_entries s)) then int (length (sl_entries s)) else n)
      in take (nat n1) (rev (sl_entries s)))"

definition slowlog_len :: "slowlog \<Rightarrow> int" where
  "slowlog_len s = int (length (sl_entries s))"

definition slowlog_reset :: "slowlog \<Rightarrow> slowlog" where
  "slowlog_reset s = s\<lparr>sl_entries := []\<rparr>"

section \<open>Redaction\<close>

fun matchesAny :: "string \<Rightarrow> string list \<Rightarrow> bool" where
  "matchesAny key [] = False"
| "matchesAny key (p # patterns) = (if globMatch p key then True else matchesAny key patterns)"

definition redactArgs :: "string list \<Rightarrow> string list \<Rightarrow> string list" where
  "redactArgs args patterns =
     (if args = [] \<or> patterns = [] \<or> \<not> matchesAny (hd args) patterns then args
      else hd args # map (\<lambda>_. ''[REDACTED]'') (tl args))"

section \<open>The recorder\<close>

text \<open>
  A subscriber is the content of its channel; the closure that unsubscribes is guarded by a
  flag of its own, which is set exactly when the subscriber has left the map.  The two
  counters of subscriptions are far from their 64 and 32 bits.
\<close>

record Recorder =
  hist :: "(string, histogram) gomap"
  hotkeys :: hotkeyTracker
  slow :: slowlog
  sensitivePatterns :: "string list"
  subs :: "(int, Event list) gomap"
  nextSubID :: int
  subCount :: int

definition NewRecorder :: "int \<Rightarrow> nat \<Rightarrow> string list \<Rightarrow> Recorder" where
  "NewRecorder slowThreshold slowMaxLen patterns =
     \<lparr>hist = [], hotkeys = newHotkeyTracker, slow = newSlowlog slowThreshold slowMaxLen,
      sensitivePatterns = patterns, subs = [], nextSubID = 0, subCount = 0\<rparr>"

definition subBuffer :: nat where
  "subBuffer = 32"

text \<open>A send in a \<open>select\<close> with a default: it happens if the buffer has room.\<close>

definition try_send :: "Event \<Rightarrow> Event list \<Rightarrow> Event list" where
  "try_send evt ch = (if length ch < subBuffer then ch @ [evt] else ch)"

definition broadcast :: "Event \<Rightarrow> Recorder \<Rightarrow> Recorder" where
  "broadcast evt r = r\<lparr>subs := map (\<lambda>(sub, ch). (sub, try_send evt ch)) (subs r)\<rparr>"

definition Subscribe :: "Recorder \<Rightarrow> int \<times> Recorder" where
  "Subscribe r =
     (let sub = nextSubID r
      in (sub, r\<lparr>nextSubID := sub + 1, subs := AList.update sub [] (subs r), subCount := subCount r + 1\<rparr>))"

definition Unsubscribe :: "int \<Rightarrow> Recorder \<Rightarrow> Recorder" where
  "Unsubscribe sub r =
     (if map_of (subs r) sub = None then r
      else r\<lparr>subs := AList.delete sub (subs r), subCount := subCount r - 1\<rparr>)"

text \<open>What the dashboard's receive takes out of a channel.\<close>

definition Receive :: "int \<Rightarrow> Recorder \<Rightarrow> Event option \<times> Recorder" where
  "Receive sub r =
     (case map_of (subs r) sub of
        Some (e # ch) \<Rightarrow> (Some e, r\<lparr>subs := AList.update sub ch (subs r)\<rparr>)
      | _ \<Rightarrow> (None, r))"

text \<open>The clock readings one call of \<open>Record\<close> makes: hot keys, slow log, event.\<close>

record rec_times =
  at_unix :: int
  at_slow :: int
  at_event :: int

definition Record ::
  "rec_times \<Rightarrow> string \<Rightarrow> string list \<Rightarrow> string \<Rightarrow> int \<Rightarrow> Recorder \<Rightarrow> Recorder" where
  "Record tm cmd0 args clientAddr duration r =
     (let cmd = toUpper cmd0;
          us = microseconds duration;
          h = (case map_of (hist r) cmd of None \<Rightarrow> histogram_zero | Some h \<Rightarrow> h);
          r1 = r\<lparr>hist := AList.update cmd (histogram_record us h) (hist r)\<rparr>;
          r2 = (if cmd \<in> set keyBearingCommands \<and> args \<noteq> []
                then r1\<lparr>hotkeys := hotkey_access (at_unix tm) (hd args) (hotkeys r1)\<rparr> else r1);
          displayArgs = redactArgs args (sensitivePatterns r2);
          r3 = r2\<lparr>slow := slowlog_maybeRecord (at_slow tm) cmd displayArgs clientAddr us (slow r2)\<rparr>
      in if subCount r3 > 0
         then broadcast \<lparr>ev_Time = at_event tm, ev_Command = cmd, ev_Args = displayArgs,
                         ev_ClientAddr = clientAddr, ev_DurationUs = us\<rparr> r3
         else r3)"

text \<open>The \<open>float64\<close> constants 0.50, 0.95 and 0.99 of the source.\<close>

definition stat_of :: "string \<Rightarrow> histogram \<Rightarrow> CommandStat" where
  "stat_of cmd h =
     \<lparr>cs_Command = cmd, cs_Calls = calls h, cs_TotalUs = totalUs h,
      cs_P50Us = percentile (1 / 2) h, cs_P95Us = percentile (fl64 (95 / 100)) h,
      cs_P99Us = percentile (fl64 (99 / 100)) h, cs_Buckets = buckets h\<rparr>"

definition CommandStats :: "Recorder \<Rightarrow> CommandStat list" where
  "CommandStats r = sort_key cs_Command (map (\<lambda>(cmd, h). stat_of cmd h) (hist r))"

definition SlowlogGet :: "int \<Rightarrow> Recorder \<Rightarrow> SlowEntry list" where
  "SlowlogGet n r = slowlog_get n (slow r)"

definition SlowlogLen :: "Recorder \<Rightarrow> int" where
  "SlowlogLen r = slowlog_len (slow r)"

definition SlowlogReset :: "Recorder \<Rightarrow> Recorder" where
  "SlowlogReset r = r\<lparr>slow := slowlog_reset (slow r)\<rparr>"

definition HotKeys :: "int \<Rightarrow> int \<Rightarrow> Recorder \<Rightarrow> HotKey list" where
  "HotKeys unix n r = hotkey_top unix n (hotkeys r)"

end
