(* ===== verification/Events_Streams.thy ===== *)
theory Events_Streams
  imports Events "HOL-Library.Sublist"
begin

text \<open>
  The two bounded buffers of the observability core, the slow log (which drops the oldest
  entry) and a subscriber's channel (which drops the newest event), and what redaction hides.
\<close>

section \<open>Bounded buffers\<close>

locale bounded_buffer =
  fixes push :: "'e \<Rightarrow> 's \<Rightarrow> 's"
    and items :: "'s \<Rightarrow> 'e list"
    and cap :: nat
    and wf :: "'s \<Rightarrow> bool"
  assumes push_wf: "wf s \<Longrightarrow> wf (push e s)"
    and push_bound: "wf s \<Longrightarrow> length (items s) \<le> cap \<Longrightarrow> length (items (push e s)) \<le> cap"
    and push_subseq: "wf s \<Longrightarrow> subseq (items (push e s)) (items s @ [e])"
begin

lemma pushes_wf: "wf s \<Longrightarrow> wf (fold push es s)"
  by (induction es arbitrary: s) (auto simp: push_wf)

lemma pushes_bound: "wf s \<Longrightarrow> length (items s) \<le> cap \<Longrightarrow> length (items (fold push es s)) \<le> cap"
  by (induction es arbitrary: s) (auto simp: push_wf push_bound)

lemma pushes_subseq: "wf s \<Longrightarrow> subseq (items (fold push es s)) (items s @ es)"
proof (induction es arbitrary: s)
  case (Cons e es)
  have "subseq (items (fold push es (push e s))) (items (push e s) @ es)"
    using Cons push_wf by blast
  also have "subseq \<dots> (items s @ e # es)"
    using push_subseq [OF Cons.prems, of e] subseq_append [of "items (push e s)" es "items s @ [e]"] by simp
  finally show ?case by simp
qed simp

end

definition lastn :: "nat \<Rightarrow> 'a list \<Rightarrow> 'a list" where
  "lastn n xs = drop (length xs - n) xs"

lemma lastn_simps [simp]: "length (lastn n xs) = min n (length xs)" "lastn n [] = []"
  "length xs \<le> n \<Longrightarrow> lastn n xs = xs"
  by (auto simp: lastn_def)

lemma lastn_snoc: "lastn n (lastn n xs @ [x]) = lastn n (xs @ [x])"
  by (cases "n \<le> length xs") (auto simp: lastn_def Suc_diff_le)

lemma lastn_append: "lastn n (lastn n xs @ ys) = lastn n (xs @ ys)"
proof (induction ys rule: rev_induct)
  case (snoc y ys)
  have "lastn n (lastn n xs @ ys @ [y]) = lastn n (lastn n (lastn n xs @ ys) @ [y])"
    using lastn_snoc [of n "lastn n xs @ ys" y] by simp
  also have "\<dots> = lastn n (xs @ ys @ [y])"
    using lastn_snoc [of n "xs @ ys" y] by (simp add: snoc)
  finally show ?case .
qed (cases "n \<le> length xs", auto simp: lastn_def)

lemma subseq_lastn: "subseq (lastn n xs) xs"
  by (simp add: lastn_def suffix_imp_subseq suffix_drop)

text \<open>A buffer that keeps only some elements and drops the oldest ones for them.\<close>

locale drop_oldest =
  fixes push :: "'e \<Rightarrow> 's \<Rightarrow> 's"
    and items :: "'s \<Rightarrow> 'e list"
    and cap :: nat
    and wf :: "'s \<Rightarrow> bool"
    and keep :: "'e \<Rightarrow> bool"
  assumes oldest_wf: "wf s \<Longrightarrow> wf (push e s)"
    and oldest_items: "wf s \<Longrightarrow> items (push e s) = (if keep e then lastn cap (items s @ [e]) else items s)"
begin

lemma items_pushes:
  "wf s \<Longrightarrow> length (items s) \<le> cap \<Longrightarrow> items (fold push es s) = lastn cap (items s @ filter keep es)"
proof (induction es arbitrary: s)
  case (Cons e es)
  have "length (items (push e s)) \<le> cap" using Cons.prems by (simp add: oldest_items)
  with Cons show ?case
    using lastn_append [of cap "items s @ [e]" "filter keep es"] by (simp add: oldest_wf oldest_items)
qed simp

end

sublocale drop_oldest \<subseteq> bounded_buffer push items cap wf
  by unfold_locales (auto simp: oldest_wf oldest_items subseq_lastn)

text \<open>A buffer that is never read from here and drops what does not fit.\<close>

locale drop_newest =
  fixes push :: "'e \<Rightarrow> 's \<Rightarrow> 's"
    and items :: "'s \<Rightarrow> 'e list"
    and cap :: nat
    and wf :: "'s \<Rightarrow> bool"
  assumes newest_wf: "wf s \<Longrightarrow> wf (push e s)"
    and newest_items: "wf s \<Longrightarrow> items (push e s) = (if length (items s) < cap then items s @ [e] else items s)"
begin

lemma nothing_lost:
  "wf s \<Longrightarrow> length (items s) + length es \<le> cap \<Longrightarrow> items (fold push es s) = items s @ es"
  by (induction es arbitrary: s) (auto simp: newest_wf newest_items)

end

sublocale drop_newest \<subseteq> bounded_buffer push items cap wf
  by unfold_locales (auto simp: newest_wf newest_items)

section \<open>The slow log\<close>

text \<open>What a command reports to the slow log: time, name, arguments, client, microseconds.\<close>

type_synonym report = "int \<times> string \<times> string list \<times> string \<times> int"

fun slow_push :: "report \<Rightarrow> slowlog \<Rightarrow> slowlog" where
  "slow_push (now, cmd, args, addr, us) s = slowlog_maybeRecord now cmd args addr us s"

definition entry_report :: "SlowEntry \<Rightarrow> report" where
  "entry_report e = (se_Time e, se_Command e, se_Args e, se_ClientAddr e, se_DurationUs e)"

definition slow_items :: "slowlog \<Rightarrow> report list" where
  "slow_items s = map entry_report (sl_entries s)"

definition is_slow :: "int \<Rightarrow> report \<Rightarrow> bool" where
  "is_slow th x \<longleftrightarrow> 0 \<le> th \<and> th \<le> snd (snd (snd (snd x)))"

lemma cut_lastn: "(if m < length xs then drop (length xs - m) xs else xs) = lastn m xs"
  by (simp add: lastn_def)

lemma map_lastn: "map f (lastn n xs) = lastn n (map f xs)"
  by (simp add: lastn_def drop_map)

lemma slow_push_eq:
  "slow_push x s =
     (if is_slow (thresholdUs s) x
      then s\<lparr>nextID := wrap64 (nextID s + 1), sl_entries := lastn (maxLen s) (sl_entries s @
        [\<lparr>se_ID = wrap64 (nextID s + 1), se_Time = fst x, se_DurationUs = snd (snd (snd (snd x))),
          se_Command = fst (snd x), se_Args = fst (snd (snd x)),
          se_ClientAddr = fst (snd (snd (snd x)))\<rparr>])\<rparr>
      else s)"
  by (cases x) (auto simp: slowlog_maybeRecord_def Let_def is_slow_def cut_lastn)

interpretation sl: drop_oldest slow_push slow_items m "\<lambda>s. maxLen s = m \<and> thresholdUs s = th" "is_slow th"
  for m :: nat and th :: int
proof
  fix s :: slowlog and x
  assume s: "maxLen s = m \<and> thresholdUs s = th"
  then show "maxLen (slow_push x s) = m \<and> thresholdUs (slow_push x s) = th"
    by (simp add: slow_push_eq)
  show "slow_items (slow_push x s) = (if is_slow th x then lastn m (slow_items s @ [x]) else slow_items s)"
    using s by (simp add: slow_push_eq slow_items_def entry_report_def map_lastn)
qed

definition ids_upto :: "nat \<Rightarrow> int list" where
  "ids_upto n = map int [1..<Suc n]"

lemma ids_upto_simps [simp]: "length (ids_upto n) = n" "ids_upto 0 = []"
  "ids_upto (Suc n) = ids_upto n @ [int n + 1]"
  by (simp_all add: ids_upto_def)

lemma slow_ids:
  "length xs < 2 ^ 62 \<Longrightarrow>
     nextID (fold slow_push xs (newSlowlog d m)) =
       int (length (filter (is_slow (microseconds d)) xs))
     \<and> map se_ID (sl_entries (fold slow_push xs (newSlowlog d m))) =
         lastn m (ids_upto (length (filter (is_slow (microseconds d)) xs)))"
proof (induction xs rule: rev_induct)
  case Nil
  then show ?case by (simp add: newSlowlog_def)
next
  case (snoc x xs)
  let ?th = "microseconds d"
  let ?s = "fold slow_push xs (newSlowlog d m)" and ?n = "length (filter (is_slow ?th) xs)"
  have s: "maxLen ?s = m \<and> thresholdUs ?s = ?th"
    by (rule sl.pushes_wf) (simp add: newSlowlog_def)
  have "?n < 2 ^ 62" by (rule le_less_trans [OF length_filter_le]) (use snoc.prems in simp)
  then have w: "wrap64 (int ?n + 1) = int ?n + 1"
    by (intro wrap64_id) (simp add: int64_def)
  show ?case
  proof (cases "is_slow ?th x")
    case False
    with s snoc show ?thesis by (simp add: slow_push_eq [of x ?s])
  next
    case True
    with s snoc w lastn_snoc [of m "ids_upto ?n" "int ?n + 1"] show ?thesis
      by (simp add: slow_push_eq [of x ?s] map_lastn)
  qed
qed

text \<open>
  C18: The slow log. After any commands, \<open>SLOWLOG GET n\<close> answers, newest first, the last \<open>n\<close> (all, if \<open>n\<close>
  is not positive) of the last \<open>maxLen\<close> commands that took at least the threshold, unchanged,
  and they carry consecutive ids that count such commands from 1.
\<close>

theorem slowlog_correct:
  fixes d n :: int and m :: nat
  assumes "length xs < 2 ^ 62"
  defines "slow_cmds \<equiv> filter (is_slow (microseconds d)) xs"
    and "log1 \<equiv> fold slow_push xs (newSlowlog d m)"
  shows "map entry_report (slowlog_get n log1) =
      take (if n \<le> 0 then length slow_cmds else nat n) (rev (lastn m slow_cmds))
    \<and> map se_ID (slowlog_get n log1) =
      take (if n \<le> 0 then length slow_cmds else nat n)
        (rev (lastn m (ids_upto (length slow_cmds))))"
proof -
  have it: "slow_items log1 = lastn m slow_cmds"
    using sl.items_pushes [of "newSlowlog d m" m "microseconds d" xs]
    by (simp add: log1_def slow_cmds_def newSlowlog_def slow_items_def)
  then have len: "length (sl_entries log1) = min m (length slow_cmds)"
    by (metis length_map slow_items_def lastn_simps(1))
  then have get: "slowlog_get n log1 =
      take (if n \<le> 0 then length slow_cmds else nat n) (rev (sl_entries log1))"
    by (auto simp: slowlog_get_def Let_def)
  have "map se_ID (sl_entries log1) = lastn m (ids_upto (length slow_cmds))"
    using slow_ids [OF assms(1), of d m] by (simp add: log1_def slow_cmds_def)
  with it show ?thesis by (simp add: get slow_items_def flip: take_map rev_map)
qed

theorem slowlog_correct_witness:
  "map se_ID (slowlog_get 1 (fold slow_push
      [(0, ''GET'', [''a''], ''c'', 20000), (1, ''PING'', [], ''c'', 5), (2, ''SET'', [''a'', ''b''], ''c'', 30000)]
      (newSlowlog 10000000 128))) = [2]"
  using slowlog_correct [THEN conjunct2, of "[(0, ''GET'', [''a''], ''c'', 20000), (1, ''PING'', [], ''c'', 5),
      (2, ''SET'', [''a'', ''b''], ''c'', 30000)]" 1 10000000 128]
  by (simp add: is_slow_def microseconds_def)

section \<open>The recorder as a whole\<close>

datatype rec_op =
    OpRecord rec_times string "string list" string int
  | OpSubscribe
  | OpUnsubscribe int
  | OpReceive int

fun rec_step :: "rec_op \<Rightarrow> Recorder \<Rightarrow> Recorder" where
  "rec_step (OpRecord tm cmd args addr duration) r = Record tm cmd args addr duration r"
| "rec_step OpSubscribe r = snd (Subscribe r)"
| "rec_step (OpUnsubscribe sub) r = Unsubscribe sub r"
| "rec_step (OpReceive sub) r = snd (Receive sub r)"

text \<open>The event a command publishes to whoever listens.\<close>

definition event_of :: "string list \<Rightarrow> rec_times \<Rightarrow> string \<Rightarrow> string list \<Rightarrow> string \<Rightarrow> int \<Rightarrow> Event" where
  "event_of patterns tm cmd args addr duration =
     \<lparr>ev_Time = at_event tm, ev_Command = toUpper cmd, ev_Args = redactArgs args patterns,
      ev_ClientAddr = addr, ev_DurationUs = microseconds duration\<rparr>"

definition send_all :: "Event \<Rightarrow> (int, Event list) gomap \<Rightarrow> (int, Event list) gomap" where
  "send_all e m = map (\<lambda>(sub, ch). (sub, try_send e ch)) m"

lemma send_all_map: "map_of (send_all e m) k = map_option (try_send e) (map_of m k)"
  by (induction m) (auto simp: send_all_def)

lemma send_all_ok: "okmap m \<Longrightarrow> okmap (send_all e m)"
  by (auto simp: okmap_def send_all_def comp_def case_prod_beta)

lemma Record_fields:
  "subs (Record tm cmd args addr d r) =
     (if subCount r > 0 then send_all (event_of (sensitivePatterns r) tm cmd args addr d) (subs r) else subs r)"
  "subCount (Record tm cmd args addr d r) = subCount r"
  "nextSubID (Record tm cmd args addr d r) = nextSubID r"
  "sensitivePatterns (Record tm cmd args addr d r) = sensitivePatterns r"
  "slow (Record tm cmd args addr d r) = slow_push
     (at_slow tm, toUpper cmd, redactArgs args (sensitivePatterns r), addr, microseconds d) (slow r)"
  by (simp_all add: Record_def Let_def broadcast_def event_of_def send_all_def)

definition recorder_inv :: "Recorder \<Rightarrow> bool" where
  "recorder_inv r \<longleftrightarrow> okmap (subs r) \<and> subCount r = int (length (subs r))
     \<and> (\<forall>sub ch. map_of (subs r) sub = Some ch \<longrightarrow> sub < nextSubID r \<and> length ch \<le> subBuffer)
     \<and> length (sl_entries (slow r)) \<le> maxLen (slow r)"

lemma try_send_bound: "length ch \<le> subBuffer \<Longrightarrow> length (try_send e ch) \<le> subBuffer"
  by (simp add: try_send_def)

lemma Receive_subs:
  "subs (snd (Receive i r)) = (case map_of (subs r) i of
      Some (e # ch) \<Rightarrow> AList.update i ch (subs r) | _ \<Rightarrow> subs r)"
  "subCount (snd (Receive i r)) = subCount r" "nextSubID (snd (Receive i r)) = nextSubID r"
  "slow (snd (Receive i r)) = slow r" "sensitivePatterns (snd (Receive i r)) = sensitivePatterns r"
  by (auto simp: Receive_def split: option.split list.split)

lemma length_update_present:
  "map_of m k \<noteq> None \<Longrightarrow> length (AList.update k v m) = length m"
  by (induction m) auto

lemma length_update_new: "map_of m k = None \<Longrightarrow> length (AList.update k v m) = Suc (length m)"
  by (induction m) (auto split: if_splits)

lemma recorder_inv_step: "recorder_inv r \<Longrightarrow> recorder_inv (rec_step x r)"
proof (cases x)
  case (OpRecord tm cmd args addr d)
  moreover assume "recorder_inv r"
  moreover have "length (send_all e m) = length m" for e m by (simp add: send_all_def)
  ultimately show ?thesis
    by (auto simp: recorder_inv_def Record_fields send_all_map send_all_ok try_send_bound
        slow_push_eq simp del: slow_push.simps)
next
  case OpSubscribe
  moreover assume i: "recorder_inv r"
  moreover have "map_of (subs r) (nextSubID r) = None"
    using i by (cases "map_of (subs r) (nextSubID r)") (auto simp: recorder_inv_def)
  ultimately show ?thesis
    by (auto simp: recorder_inv_def Subscribe_def Let_def length_update_new dest: less_imp_le)
next
  case (OpUnsubscribe i)
  moreover assume "recorder_inv r"
  moreover have "1 \<le> length (subs r)" if "map_of (subs r) i \<noteq> None" using that by (cases "subs r") auto
  then have "int (length (subs r) - 1) = int (length (subs r)) - 1" if "map_of (subs r) i \<noteq> None"
    using that by (simp add: of_nat_diff)
  ultimately show ?thesis
    by (auto simp: recorder_inv_def Unsubscribe_def length_AList_delete)
next
  case (OpReceive i)
  moreover assume "recorder_inv r"
  ultimately show ?thesis
    by (cases "map_of (subs r) i")
      (auto simp: recorder_inv_def Receive_subs length_update_present split: list.split, force)
qed

interpretation ev: invariant_system rec_step recorder_inv "\<lambda>_. True"
  by unfold_locales (rule recorder_inv_step)

lemma recorder_inv_new: "recorder_inv (NewRecorder d m pats)"
  by (simp add: recorder_inv_def NewRecorder_def newSlowlog_def)

lemma maxLen_step: "maxLen (slow (rec_step x r)) = maxLen (slow r)"
  by (cases x) (auto simp: Record_fields slow_push_eq Subscribe_def Let_def Unsubscribe_def Receive_subs
      simp del: slow_push.simps)

lemma patterns_step: "sensitivePatterns (rec_step x r) = sensitivePatterns r"
  by (cases x) (auto simp: Record_fields Subscribe_def Let_def Unsubscribe_def Receive_subs)

text \<open>The parts whose sizes do not depend on the traffic, and the one that depends on the names.\<close>

definition fixed_sizes :: "Recorder \<Rightarrow> bool" where
  "fixed_sizes r \<longleftrightarrow> length (hk_buckets (hotkeys r)) = 12 \<and> length (slotTime (hotkeys r)) = 12
     \<and> okmap (hist r) \<and> (\<forall>cmd h. map_of (hist r) cmd = Some h \<longrightarrow> length (buckets h) = 7)"

fun names :: "rec_op list \<Rightarrow> string list" where
  "names [] = []"
| "names (OpRecord tm cmd args addr d # ops) = toUpper cmd # names ops"
| "names (_ # ops) = names ops"

lemma names_snoc: "set (names (ops @ [x])) = set (names [x]) \<union> set (names ops)"
  by (induction ops rule: names.induct) auto

lemma hist_Record:
  "hist (Record tm c args addr d r) = AList.update (toUpper c) (histogram_record (microseconds d)
     (case map_of (hist r) (toUpper c) of None \<Rightarrow> histogram_zero | Some h \<Rightarrow> h)) (hist r)"
  by (simp add: Record_def Let_def broadcast_def)

lemma hist_unchanged:
  "hist (snd (Subscribe r)) = hist r" "hist (Unsubscribe i r) = hist r" "hist (snd (Receive i r)) = hist r"
  by (auto simp: Subscribe_def Let_def Unsubscribe_def Receive_def split: option.split list.split)

lemma hotkeys_Record:
  "hotkeys (Record tm c args addr d r) = (if toUpper c \<in> set keyBearingCommands \<and> args \<noteq> []
     then hotkey_access (at_unix tm) (hd args) (hotkeys r) else hotkeys r)"
  by (simp add: Record_def Let_def broadcast_def)

lemma hotkeys_unchanged:
  "hotkeys (snd (Subscribe r)) = hotkeys r" "hotkeys (Unsubscribe i r) = hotkeys r"
  "hotkeys (snd (Receive i r)) = hotkeys r"
  by (auto simp: Subscribe_def Let_def Unsubscribe_def Receive_def split: option.split list.split)

lemma length_record_bucket: "length (record_bucket us i bounds b) = length b"
  by (induction us i bounds b rule: record_bucket.induct) (simp_all add: bump_def)

lemma length_histogram_record: "length (buckets (histogram_record us h)) = length (buckets h)"
  by (simp add: histogram_record_def length_record_bucket)

lemma length_hotkey_access:
  "length (hk_buckets (hotkey_access t k h)) = length (hk_buckets h)"
  "length (slotTime (hotkey_access t k h)) = length (slotTime h)"
  by (simp_all add: hotkey_access_def Let_def)

lemma fixed_sizes_step: "fixed_sizes r \<Longrightarrow> fixed_sizes (rec_step x r)"
proof (cases x)
  case (OpRecord tm cmd args addr d)
  assume f: "fixed_sizes r"
  have "length (buckets (case map_of (hist r) (toUpper cmd) of None \<Rightarrow> histogram_zero | Some h \<Rightarrow> h)) = 7"
    using f by (auto simp: fixed_sizes_def histogram_zero_def split: option.split)
  with f OpRecord show ?thesis
    by (auto simp: fixed_sizes_def hotkeys_Record hist_Record length_hotkey_access length_histogram_record)
qed (auto simp: fixed_sizes_def hist_unchanged hotkeys_unchanged)

lemma fixed_sizes_new: "fixed_sizes (NewRecorder d m pats)"
  by (simp add: fixed_sizes_def NewRecorder_def newHotkeyTracker_def hotkeyBucketCount_def)

lemma recorder_sizes:
  "fixed_sizes (fold rec_step ops (NewRecorder d m pats))
   \<and> dom (map_of (hist (fold rec_step ops (NewRecorder d m pats)))) = set (names ops)"
proof (induction ops rule: rev_induct)
  case Nil
  show ?case by (simp add: fixed_sizes_new) (simp add: NewRecorder_def)
next
  case (snoc x ops)
  let ?r = "fold rec_step ops (NewRecorder d m pats)"
  have "dom (map_of (hist (rec_step x ?r))) = set (names [x]) \<union> dom (map_of (hist ?r))"
    by (cases x) (auto simp: hist_Record hist_unchanged)
  with snoc show ?case by (simp add: fixed_sizes_step names_snoc)
qed

text \<open>
  C27: Observability stays bounded. Whatever commands are recorded and whoever subscribes, reads or leaves, in
  any order: the subscriber counter that gates the broadcast is the number of subscribers, no
  channel holds more than its 32 events, the slow log holds at most \<open>maxLen\<close> entries, the hot-key ring has its
  twelve slots and every histogram its seven buckets. What grows is the number of histograms: there is
  exactly one for each different command name that was ever recorded, known or not.
\<close>

theorem observability_bounded:
  "let r = fold rec_step ops (NewRecorder d m pats)
   in subCount r = int (length (subs r)) \<and> list_all (\<lambda>(sub, ch). length ch \<le> 32) (subs r)
      \<and> length (sl_entries (slow r)) \<le> m
      \<and> length (hk_buckets (hotkeys r)) = 12 \<and> length (slotTime (hotkeys r)) = 12
      \<and> list_all (\<lambda>(cmd, h). length (buckets h) = 7) (hist r)
      \<and> length (hist r) = card (set (names ops))"
proof -
  let ?r = "fold rec_step ops (NewRecorder d m pats)"
  have inv: "recorder_inv ?r" by (rule ev.run_inv [OF recorder_inv_new]) (simp add: list_all_iff)
  have "maxLen (slow ?r) = m"
    using ev.run_induct [of "NewRecorder d m pats" ops "\<lambda>r. maxLen (slow r) = m"]
    by (simp add: recorder_inv_new maxLen_step list_all_iff) (simp add: NewRecorder_def newSlowlog_def)
  moreover have "length ch \<le> 32" if "(i, ch) \<in> set (subs ?r)" for i ch
    using inv that okmap_Some [of "subs ?r" i ch] by (auto simp: recorder_inv_def subBuffer_def)
  moreover have f: "fixed_sizes ?r" "dom (map_of (hist ?r)) = set (names ops)"
    using recorder_sizes [of ops d m pats] by simp_all
  moreover have "length (buckets h) = 7" if "(c, h) \<in> set (hist ?r)" for c h
    using f(1) that okmap_Some [of "hist ?r" c h] by (auto simp: fixed_sizes_def)
  moreover have "length (hist ?r) = card (set (names ops))"
    using f by (metis distinct_card dom_map_of_conv_image_fst fixed_sizes_def length_map okmap_def list.set_map)
  ultimately show ?thesis using inv unfolding Let_def recorder_inv_def fixed_sizes_def by (auto simp: list_all_iff)
qed

section \<open>The live stream\<close>

fun published :: "string list \<Rightarrow> rec_op list \<Rightarrow> Event list" where
  "published patterns [] = []"
| "published patterns (OpRecord tm cmd args addr d # ops) =
     event_of patterns tm cmd args addr d # published patterns ops"
| "published patterns (_ # ops) = published patterns ops"

text \<open>What subscriber \<open>i\<close> receives during \<open>ops\<close>.\<close>

fun stream :: "int \<Rightarrow> rec_op list \<Rightarrow> Recorder \<Rightarrow> Event list" where
  "stream i [] r = []"
| "stream i (op1 # ops) r =
     (if op1 = OpReceive i then (case fst (Receive i r) of None \<Rightarrow> [] | Some e \<Rightarrow> [e]) else [])
     @ stream i ops (rec_step op1 r)"

interpretation ch: drop_newest try_send "\<lambda>ch. ch" subBuffer "\<lambda>_. True"
  by unfold_locales (auto simp: try_send_def)

text \<open>
  Does a subscriber keep up?  Counting the events it has not read yet, from \<open>n\<close> on: no event is published
  while 32 of them are waiting.  This looks at the operations alone, not at the recorder.
\<close>

fun keeps_up :: "int \<Rightarrow> nat \<Rightarrow> rec_op list \<Rightarrow> bool" where
  "keeps_up i n [] = True"
| "keeps_up i n (OpRecord tm cmd args addr d # ops) = (n < 32 \<and> keeps_up i (n + 1) ops)"
| "keeps_up i n (OpReceive j # ops) = keeps_up i (if j = i then n - 1 else n) ops"
| "keeps_up i n (_ # ops) = keeps_up i n ops"

lemma few_events_keep_up: "n + length (published pats ops) \<le> 32 \<Longrightarrow> keeps_up i n ops"
  by (induction i n ops rule: keeps_up.induct) auto

definition stream_ok :: "Event list \<Rightarrow> Event list \<Rightarrow> bool \<Rightarrow> Event list \<Rightarrow> bool" where
  "stream_ok buf pub ok seen \<longleftrightarrow> subseq seen (buf @ pub) \<and> (seen = buf @ pub \<longleftrightarrow> ok)"

lemma stream_ok_send:
  assumes "stream_ok (try_send e buf) pub ok seen"
  shows "stream_ok buf (e # pub) (length buf < 32 \<and> ok) seen"
proof (cases "length buf < 32")
  case True
  then show ?thesis using assms by (simp add: stream_ok_def try_send_def subBuffer_def)
next
  case False
  then have s: "subseq seen (buf @ pub)" using assms by (simp add: stream_ok_def try_send_def subBuffer_def)
  then have "length seen < length (buf @ e # pub)" by (auto dest: list_emb_length)
  moreover have "subseq (buf @ pub) (buf @ e # pub)" by (auto simp: subseq_append' intro: list_emb_Cons)
  then have "subseq seen (buf @ e # pub)" using s subseq_order.trans by blast
  ultimately show ?thesis using False by (auto simp: stream_ok_def)
qed

lemma stream_ok_receive: "stream_ok buf pub ok seen \<Longrightarrow> stream_ok (e # buf) pub ok (e # seen)"
  by (auto simp: stream_ok_def)

lemma stream_correct:
  assumes "recorder_inv r" "map_of (subs r) i = Some buf" "OpUnsubscribe i \<notin> set ops"
  shows "\<exists>buf'. map_of (subs (fold rec_step ops r)) i = Some buf'
     \<and> stream_ok buf (published (sensitivePatterns r) ops) (keeps_up i (length buf) ops) (stream i ops r @ buf')"
  using assms
proof (induction ops arbitrary: r buf)
  case Nil
  then show ?case by (simp add: stream_ok_def)
next
  case (Cons x ops)
  let ?r1 = "rec_step x r"
  have inv: "recorder_inv ?r1" by (rule recorder_inv_step [OF Cons.prems(1)])
  have no: "OpUnsubscribe i \<notin> set ops" using Cons.prems(3) by simp
  note IH = Cons.IH [OF inv _ no]
  have live: "0 < length (subs r)" using Cons.prems(2) by (cases "subs r") auto
  show ?case
  proof (cases x)
    case (OpRecord tm cmd args addr d)
    let ?e = "event_of (sensitivePatterns r) tm cmd args addr d"
    have "map_of (subs ?r1) i = Some (try_send ?e buf)"
      using OpRecord Cons.prems live by (simp add: Record_fields send_all_map recorder_inv_def)
    from IH [OF this] obtain buf' where b: "map_of (subs (fold rec_step ops ?r1)) i = Some buf'"
      "stream_ok (try_send ?e buf) (published (sensitivePatterns r) ops)
         (keeps_up i (length (try_send ?e buf)) ops) (stream i ops ?r1 @ buf')"
      by (auto simp: OpRecord Record_fields)
    have "length buf < 32 \<and> keeps_up i (length (try_send ?e buf)) ops
        \<longleftrightarrow> length buf < 32 \<and> keeps_up i (length buf + 1) ops"
      by (auto simp: try_send_def subBuffer_def)
    with stream_ok_send [OF b(2)] b(1) OpRecord show ?thesis by simp
  next
    case OpSubscribe
    have "i \<noteq> nextSubID r" using Cons.prems(1,2) by (auto simp: recorder_inv_def)
    then have "map_of (subs ?r1) i = Some buf"
      using OpSubscribe Cons.prems(2) by (simp add: Subscribe_def Let_def)
    from IH [OF this] OpSubscribe patterns_step [of x r] show ?thesis by simp
  next
    case (OpUnsubscribe j)
    then have "map_of (subs ?r1) i = Some buf"
      using Cons.prems(2,3) by (auto simp: Unsubscribe_def)
    from IH [OF this] OpUnsubscribe patterns_step [of x r] show ?thesis by simp
  next
    case (OpReceive j)
    show ?thesis
    proof (cases "j = i \<and> buf \<noteq> []")
      case True
      then obtain e ch where b: "buf = e # ch" by (cases buf) auto
      then have "map_of (subs ?r1) i = Some ch"
        using OpReceive True Cons.prems(2) by (simp add: Receive_subs)
      from IH [OF this] OpReceive True b Cons.prems(2) stream_ok_receive show ?thesis
        by (fastforce simp: Receive_subs Receive_def)
    next
      case False
      then have "map_of (subs ?r1) i = Some buf" "j = i \<Longrightarrow> fst (Receive i r) = None"
        using OpReceive Cons.prems(2)
        by (auto simp: Receive_subs Receive_def split: option.split list.split)
      moreover have "(if j = i then length buf - 1 else length buf) = length buf" using False by auto
      ultimately show ?thesis using IH OpReceive by (auto simp: Receive_subs simp del: One_nat_def)
    qed
  qed
qed

lemma subscribed:
  assumes "(i, r) = Subscribe (fold rec_step before (NewRecorder d m pats))"
  shows "recorder_inv r" "sensitivePatterns r = pats" "map_of (subs r) i = Some []"
proof -
  let ?r0 = "fold rec_step before (NewRecorder d m pats)"
  have "recorder_inv ?r0 \<and> sensitivePatterns ?r0 = pats"
    using ev.run_inv [OF recorder_inv_new [of d m pats], of before]
      ev.run_induct [of "NewRecorder d m pats" before "\<lambda>r. sensitivePatterns r = pats"]
      patterns_step by (simp add: recorder_inv_new list_all_iff) (simp add: NewRecorder_def)
  moreover have "r = rec_step OpSubscribe ?r0" using assms by (auto simp: Subscribe_def Let_def)
  ultimately show "recorder_inv r" "sensitivePatterns r = pats"
    using recorder_inv_step [of ?r0 OpSubscribe] patterns_step [of OpSubscribe ?r0] by auto
  show "map_of (subs r) i = Some []" using assms by (auto simp: Subscribe_def Let_def)
qed

text \<open>
  C16: The live stream. What a subscriber receives and still has in its channel is, in order and without
  repetition, a selection of the events published since it subscribed, whatever the other
  subscribers do; its channel holds at most 32 events; and nothing at all is missing exactly if it kept up, that is,
  if no event was published while 32 earlier ones were still unread.
\<close>

theorem live_stream_in_order:
  assumes "list_all (\<lambda>x. x \<noteq> OpUnsubscribe i) ops"
    "(i, r) = Subscribe (fold rec_step before (NewRecorder d m pats))"
  shows "\<exists>buf. map_of (subs (fold rec_step ops r)) i = Some buf \<and> length buf \<le> 32
     \<and> subseq (stream i ops r @ buf) (published pats ops)
     \<and> (stream i ops r @ buf = published pats ops \<longleftrightarrow> keeps_up i 0 ops)"
proof -
  note r = subscribed [OF assms(2)]
  have "OpUnsubscribe i \<notin> set ops" using assms(1) by (auto simp: list_all_iff)
  from stream_correct [OF r(1,3) this] r(2) obtain buf
    where buf: "map_of (subs (fold rec_step ops r)) i = Some buf"
      "stream_ok [] (published pats ops) (keeps_up i 0 ops) (stream i ops r @ buf)" by auto
  have "recorder_inv (fold rec_step ops r)" by (rule ev.run_inv [OF r(1)]) (simp add: list_all_iff)
  with buf show ?thesis by (auto simp: recorder_inv_def stream_ok_def subBuffer_def)
qed

theorem live_stream_in_order_witness:
  "\<exists>buf. map_of (subs (fold rec_step [OpRecord \<lparr>at_unix = 1, at_slow = 2, at_event = 3\<rparr> ''ping'' [] ''c'' 7000,
       OpReceive 0] (snd (Subscribe (NewRecorder 0 128 []))))) 0 = Some buf
     \<and> stream 0 [OpRecord \<lparr>at_unix = 1, at_slow = 2, at_event = 3\<rparr> ''ping'' [] ''c'' 7000, OpReceive 0]
         (snd (Subscribe (NewRecorder 0 128 []))) @ buf
       = [\<lparr>ev_Time = 3, ev_Command = ''PING'', ev_Args = [], ev_ClientAddr = ''c'', ev_DurationUs = 7\<rparr>]"
proof -
  have "toUpper ''ping'' = ''PING''" by code_simp
  then show ?thesis
    using live_stream_in_order [of 0 "[OpRecord \<lparr>at_unix = 1, at_slow = 2, at_event = 3\<rparr> ''ping'' [] ''c'' 7000,
        OpReceive 0]" "snd (Subscribe (NewRecorder 0 128 []))" "[]" 0 128 "[]"]
    by (simp add: Subscribe_def Let_def NewRecorder_def event_of_def redactArgs_def microseconds_def
        del: rec_step.simps stream.simps toUpper.simps) blast
qed

section \<open>Redaction\<close>

text \<open>
  Two operations that differ only in what follows a sensitive key: the values a client sends.
\<close>

fun alike :: "string list \<Rightarrow> rec_op \<Rightarrow> rec_op \<Rightarrow> bool" where
  "alike patterns (OpRecord tm cmd args addr d) (OpRecord tm' cmd' args' addr' d') \<longleftrightarrow>
     tm = tm' \<and> cmd = cmd' \<and> addr = addr' \<and> d = d'
     \<and> (args = args' \<or> args \<noteq> [] \<and> args' \<noteq> [] \<and> hd args = hd args' \<and> length args = length args'
          \<and> matchesAny (hd args) patterns)"
| "alike patterns x y \<longleftrightarrow> x = y"

lemma map_const_length: "length xs = length ys \<Longrightarrow> map (\<lambda>_. c) xs = map (\<lambda>_. c) ys"
  by (induction xs ys rule: list_induct2) auto

lemma redact_alike:
  assumes "args \<noteq> []" "args' \<noteq> []" "hd args = hd args'" "length args = length args'"
    "matchesAny (hd args) patterns"
  shows "redactArgs args patterns = redactArgs args' patterns"
proof -
  have "patterns \<noteq> []" using assms(5) by auto
  with assms map_const_length [of "tl args" "tl args'" "''[REDACTED]''"] show ?thesis
    by (simp add: redactArgs_def)
qed

lemma rec_step_alike:
  assumes "alike (sensitivePatterns r) x y"
  shows "rec_step x r = rec_step y r"
proof (cases "x = y")
  case False
  with assms obtain tm cmd args args' addr d
    where x: "x = OpRecord tm cmd args addr d" and y: "y = OpRecord tm cmd args' addr d"
      and a: "args \<noteq> []" "args' \<noteq> []" "hd args = hd args'" "length args = length args'"
        "matchesAny (hd args) (sensitivePatterns r)"
    by (cases x; cases y) auto
  have "redactArgs args (sensitivePatterns r) = redactArgs args' (sensitivePatterns r)"
    by (rule redact_alike) (fact a)+
  with a(1-3) show ?thesis by (simp add: x y Record_def Let_def)
qed simp

text \<open>
  C17: Redaction hides the values. Two histories that differ only in the arguments after keys that match a
  sensitive pattern leave the recorder in the same state: nothing that the slow log, the hot
  keys, the statistics or any subscriber can show depends on the values sent for such a key.
\<close>

theorem redaction_hides_values:
  assumes "list_all2 (alike pats) ops ops'"
  shows "fold rec_step ops (NewRecorder d m pats) = fold rec_step ops' (NewRecorder d m pats)"
proof -
  have "fold rec_step ops r = fold rec_step ops' r" if "sensitivePatterns r = pats" for r
    using assms that
    by (induction ops ops' arbitrary: r rule: list_all2_induct) (auto simp: rec_step_alike patterns_step)
  then show ?thesis by (simp add: NewRecorder_def)
qed

theorem redaction_hides_values_witness:
  "Record \<lparr>at_unix = 1, at_slow = 2, at_event = 3\<rparr> ''SET'' [''session:9'', ''hunter2''] ''c'' 5 (NewRecorder 0 128 [''session:*''])
   = Record \<lparr>at_unix = 1, at_slow = 2, at_event = 3\<rparr> ''SET'' [''session:9'', ''letmein''] ''c'' 5 (NewRecorder 0 128 [''session:*''])"
proof -
  have "matchesAny ''session:9'' [''session:*'']" by code_simp
  then show ?thesis
    using redaction_hides_values [of "[''session:*'']" "[OpRecord \<lparr>at_unix = 1, at_slow = 2, at_event = 3\<rparr> ''SET'' [''session:9'', ''hunter2''] ''c'' 5]"
        "[OpRecord \<lparr>at_unix = 1, at_slow = 2, at_event = 3\<rparr> ''SET'' [''session:9'', ''letmein''] ''c'' 5]" 0 128] by simp
qed

end
