(* ===== verification/Events_Latency.thy ===== *)
theory Events_Latency
  imports Events_Streams
begin

text \<open>
  Latency histograms: what the buckets hold after any number of measurements, which percentile the
  estimate is, and the table of the recorder: one row per command, about exactly its own measurements.
\<close>

text \<open>How many of the samples are below \<open>b\<close>, and the histogram of a list of samples.\<close>

definition below :: "int list \<Rightarrow> int \<Rightarrow> int" where
  "below xs b = int (length (filter (\<lambda>u. u < b) xs))"

definition recorded :: "int list \<Rightarrow> histogram" where
  "recorded xs = fold histogram_record xs histogram_zero"

definition spread :: "int list \<Rightarrow> int list" where
  "spread xs =
     [below xs 1000, below xs 5000 - below xs 1000, below xs 10000 - below xs 5000,
      below xs 50000 - below xs 10000, below xs 100000 - below xs 50000,
      below xs 500000 - below xs 100000, int (length xs) - below xs 500000]"

lemma below_simps [simp]: "below [] b = 0"
  "below (xs @ [u]) b = below xs b + (if u < b then 1 else 0)"
  by (simp_all add: below_def)

lemma below_bounds: "0 \<le> below xs b" "below xs b \<le> int (length xs)"
  "b \<le> c \<Longrightarrow> below xs b \<le> below xs c"
proof -
  show "b \<le> c \<Longrightarrow> below xs b \<le> below xs c" by (induction xs) (auto simp: below_def)
qed (auto simp: below_def)

lemma spread_int64:
  assumes "length xs < 2 ^ 62"
  shows "list_all (\<lambda>n. 0 \<le> n \<and> n + 1 < 2 ^ 63) (spread xs)"
proof -
  have d: "below xs c - below xs b + 1 < 2 ^ 63" for b c
    using below_bounds(1) [of xs b] below_bounds(2) [of xs c] assms by simp
  have "below xs b + 1 < 2 ^ 63" "int (length xs) - below xs b + 1 < 2 ^ 63" for b
    using below_bounds(1,2) [of xs b] assms by simp_all
  with d below_bounds show ?thesis by (simp add: spread_def)
qed

lemma length_spread: "length (spread xs) = 7"
  by (simp add: spread_def)

lemma record_bucket_spread:
  assumes "length xs < 2 ^ 62"
  shows "record_bucket u 0 bucketBoundsUs (spread xs) = spread (xs @ [u])"
proof -
  have w: "wrap64 (n + 1) = n + 1" if "0 \<le> n" "n + 1 < 2 ^ 63" for n
    using that by (intro wrap64_id) (simp add: int64_def)
  note w [simp]
  have "list_all (\<lambda>n. wrap64 (n + 1) = n + 1) (spread xs)"
    using spread_int64 [OF assms] by (auto simp: list_all_iff)
  then show ?thesis
    by (auto simp: spread_def bucketBoundsUs_def bump_def maxInt64_def)
qed

lemma replicate_7: "replicate 7 x = [x, x, x, x, x, x, x]"
  by (simp add: numeral_eq_Suc)

lemma recorded_eq:
  assumes "length xs < 2 ^ 62"
  shows "calls (recorded xs) = int (length xs)" "buckets (recorded xs) = spread xs"
proof -
  have "calls (recorded xs) = int (length xs) \<and> buckets (recorded xs) = spread xs"
    using assms
  proof (induction xs rule: rev_induct)
    case (snoc u xs)
    then have "length xs < 2 ^ 62" "int64 (int (length xs) + 1)" by (auto simp: int64_def)
    with snoc.IH show ?case
      by (simp add: recorded_def histogram_record_def record_bucket_spread)
  qed (simp add: recorded_def histogram_zero_def spread_def replicate_7)
  then show "calls (recorded xs) = int (length xs)" "buckets (recorded xs) = spread xs" by auto
qed

definition finite_bounds :: "int list" where
  "finite_bounds = [1000, 5000, 10000, 50000, 100000, 500000]"

lemma percentile_first:
  assumes "xs \<noteq> []" "length xs < 2 ^ 62"
  shows "percentile p (recorded xs) =
     (case filter (\<lambda>b. percentile_target p (int (length xs)) \<le> below xs b) finite_bounds of
        [] \<Rightarrow> 500000 | b # _ \<Rightarrow> b)"
proof -
  have w: "wrap64 (below xs b) = below xs b" "wrap64 (int (length xs)) = int (length xs)" for b
    using below_bounds(1,2) [of xs b] assms(2) by (auto intro!: wrap64_id simp: int64_def)
  show ?thesis
    using assms(1)
    by (simp add: percentile_def recorded_eq [OF assms(2)] spread_def w finite_bounds_def
        bucketBoundsUs_def Let_def)
qed

section \<open>The percentile\<close>

text \<open>The nearest-rank percentile: the least sample that a fraction \<open>q\<close> of the samples do not exceed.\<close>

definition nearest_rank :: "rat \<Rightarrow> int list \<Rightarrow> int" where
  "nearest_rank q xs = sort xs ! (nat \<lceil>q * of_nat (length xs)\<rceil> - 1)"

text \<open>The upper bound of the bucket a value falls into, of the last bucket the lower one.\<close>

definition bucket_bound :: "int \<Rightarrow> int" where
  "bucket_bound v = (case filter (\<lambda>b. v < b) finite_bounds of [] \<Rightarrow> 500000 | b # _ \<Rightarrow> b)"

lemma sorted_rank:
  assumes "sorted ys" "1 \<le> r" "r \<le> length ys"
  shows "r \<le> length (filter (\<lambda>u. u < b) ys) \<longleftrightarrow> ys ! (r - 1) < b"
proof
  assume lt: "ys ! (r - 1) < b"
  have "u < b" if u: "u \<in> set (take r ys)" for u
  proof -
    obtain i where i: "i < r" "u = ys ! i" using u assms(3) by (auto simp: in_set_conv_nth)
    then have "ys ! i \<le> ys ! (r - 1)" using assms by (intro sorted_nth_mono) auto
    with i lt show ?thesis by simp
  qed
  then have "filter (\<lambda>u. u < b) (take r ys) = take r ys" by simp
  moreover have "length (filter (\<lambda>u. u < b) (take r ys)) \<le> length (filter (\<lambda>u. u < b) ys)"
    by (metis append_take_drop_id filter_append le_add1 length_append)
  ultimately show "r \<le> length (filter (\<lambda>u. u < b) ys)" using assms(3) by simp
next
  assume le: "r \<le> length (filter (\<lambda>u. u < b) ys)"
  show "ys ! (r - 1) < b"
  proof (rule ccontr)
    assume ge: "\<not> ys ! (r - 1) < b"
    have "\<not> u < b" if u: "u \<in> set (drop (r - 1) ys)" for u
    proof -
      obtain i where i: "r - 1 \<le> i" "i < length ys" "u = ys ! i"
        using u by (auto simp: in_set_conv_nth) (metis add.commute le_add1 less_diff_conv)
      then have "ys ! (r - 1) \<le> ys ! i" using assms by (intro sorted_nth_mono) auto
      with i ge show ?thesis by simp
    qed
    then have "filter (\<lambda>u. u < b) (drop (r - 1) ys) = []" by (simp add: filter_empty_conv)
    then have "length (filter (\<lambda>u. u < b) ys) = length (filter (\<lambda>u. u < b) (take (r - 1) ys))"
      by (metis append_Nil2 append_take_drop_id filter_append)
    also have "\<dots> \<le> r - 1" by (rule order_trans [OF length_filter_le]) simp
    finally show False using le assms(2) by simp
  qed
qed

lemma below_rank:
  assumes "1 \<le> r" "r \<le> length xs"
  shows "int r \<le> below xs b \<longleftrightarrow> sort xs ! (r - 1) < b"
proof -
  have "length (filter (\<lambda>u. u < b) xs) = length (filter (\<lambda>u. u < b) (sort xs))"
    by (metis mset_filter mset_sort size_mset)
  then show ?thesis
    using sorted_rank [of "sort xs" r b] assms by (simp add: below_def)
qed

lemma percentile_nearest_rank:
  assumes "xs \<noteq> []" "length xs < 2 ^ 44" "100 * q = of_int a" "fl64 q \<le> q" "0 < q" "q \<le> 1"
  shows "percentile (fl64 q) (recorded xs) = bucket_bound (nearest_rank q xs)"
proof -
  let ?n = "int (length xs)"
  define k r where "k = \<lceil>q * of_nat (length xs)\<rceil>" and "r = nat k"
  have t: "percentile_target (fl64 q) ?n = k"
    using ceiling_of_rounded [OF assms(3,4,6), of ?n] assms(2) by (simp add: percentile_target_def k_def)
  have n: "(0 :: rat) < of_nat (length xs)" using assms(1) by simp
  have "q * of_nat (length xs) \<le> of_nat (length xs)"
    using mult_right_mono [OF assms(6), of "of_nat (length xs)"] by simp
  then have "k \<le> int (length xs)" "0 < k"
    using mult_pos_pos [OF assms(5) n] by (simp_all add: k_def ceiling_le_iff)
  then have r: "1 \<le> r" "r \<le> length xs" "int r = k" by (simp_all add: r_def)
  have "percentile_target (fl64 q) ?n \<le> below xs b \<longleftrightarrow> nearest_rank q xs < b" for b
    using below_rank [OF r(1,2), of b]
    by (simp add: t r(3) nearest_rank_def k_def [symmetric] r_def [symmetric])
  then show ?thesis
    using percentile_first [OF assms(1), of "fl64 q"] assms(2) by (simp add: bucket_bound_def)
qed

lemma percentiles_of:
  assumes "xs \<noteq> []" "length xs < 2 ^ 44"
  shows "percentile (1 / 2) (recorded xs) = bucket_bound (nearest_rank (1 / 2) xs)"
    "percentile (fl64 (95 / 100)) (recorded xs) = bucket_bound (nearest_rank (95 / 100) xs)"
    "percentile (fl64 (99 / 100)) (recorded xs) = bucket_bound (nearest_rank (99 / 100) xs)"
  using percentile_nearest_rank [OF assms, of "1 / 2" 50] percentile_nearest_rank [OF assms, of "95 / 100" 95]
    percentile_nearest_rank [OF assms, of "99 / 100" 99] fl64_hundredths by simp_all

section \<open>The statistics of the commands\<close>

text \<open>The durations recorded for a command, in microseconds.\<close>

fun durations :: "string \<Rightarrow> rec_op list \<Rightarrow> int list" where
  "durations cmd [] = []"
| "durations cmd (OpRecord tm c args addr d # ops) =
     (if toUpper c = cmd then [microseconds d] else []) @ durations cmd ops"
| "durations cmd (_ # ops) = durations cmd ops"

lemma durations_snoc:
  "durations cmd (ops @ [x]) = durations cmd ops @ durations cmd [x]"
  by (induction ops rule: durations.induct) auto

lemma length_durations: "length (durations cmd ops) \<le> length ops"
  by (induction ops rule: durations.induct) auto

definition hist_of :: "string \<Rightarrow> rec_op list \<Rightarrow> histogram option" where
  "hist_of cmd ops = (if durations cmd ops = [] then None else Some (recorded (durations cmd ops)))"

lemma recorded_snoc: "recorded (xs @ [u]) = histogram_record u (recorded xs)" "recorded [] = histogram_zero"
  "recorded [u] = histogram_record u histogram_zero"
  by (simp_all add: recorded_def)

lemma recorder_hist:
  "okmap (hist (fold rec_step ops (NewRecorder d m pats)))
   \<and> (\<forall>cmd. map_of (hist (fold rec_step ops (NewRecorder d m pats))) cmd = hist_of cmd ops)"
proof (induction ops rule: rev_induct)
  case Nil
  show ?case by (simp add: NewRecorder_def hist_of_def)
next
  case (snoc x ops)
  let ?r = "fold rec_step ops (NewRecorder d m pats)"
  show ?case
  proof (cases x)
    case (OpRecord tm c args addr d')
    have "(case map_of (hist ?r) (toUpper c) of None \<Rightarrow> histogram_zero | Some h \<Rightarrow> h)
        = recorded (durations (toUpper c) ops)"
      using snoc by (simp add: hist_of_def recorded_snoc)
    with snoc OpRecord show ?thesis
      by (auto simp: hist_Record hist_of_def durations_snoc recorded_snoc)
  qed (use snoc in \<open>simp_all add: hist_unchanged hist_of_def durations_snoc\<close>)
qed

lemma recorded_total: "totalUs (recorded xs) = wrap64 (sum_list xs)"
proof (induction xs rule: rev_induct)
  case (snoc u xs)
  then show ?case
    using wrap64_add_right [of u "sum_list xs"] by (simp add: recorded_snoc histogram_record_def add.commute)
qed (simp add: recorded_snoc histogram_zero_def wrap64_def)

text \<open>
  C20: The statistics of the commands are right. After any operations on the recorder, \<open>CommandStats\<close> has one row
  for each command name that was recorded, in the order of the names. A row counts the command's calls and sums
  their times (in 64 bits), its buckets count the durations between the bounds, and its p50, p95 and p99 are the
  upper bounds of the buckets that hold the true percentiles of the recorded durations, the samples at rank
  \<open>q * n\<close> rounded up; of the last bucket, which has no upper bound, the lower one. The floating-point product
  the code uses for that rank does no harm below \<open>2 ^ 44\<close> operations.
\<close>

theorem percentile_correct:
  fixes d :: int and m :: nat and pats :: "string list"
  assumes "length ops < 2 ^ 44"
  defines "out \<equiv> CommandStats (fold rec_step ops (NewRecorder d m pats))"
  shows "sorted (map cs_Command out) \<and> distinct (map cs_Command out)
    \<and> set (map cs_Command out) = {cmd. durations cmd ops \<noteq> []}
    \<and> (\<forall>c \<in> set out. let xs = durations (cs_Command c) ops in
         cs_Calls c = int (length xs) \<and> cs_TotalUs c = wrap64 (sum_list xs) \<and> cs_Buckets c = spread xs
         \<and> cs_P50Us c = bucket_bound (nearest_rank (1 / 2) xs)
         \<and> cs_P95Us c = bucket_bound (nearest_rank (95 / 100) xs)
         \<and> cs_P99Us c = bucket_bound (nearest_rank (99 / 100) xs))"
proof -
  let ?h = "hist (fold rec_step ops (NewRecorder d m pats))"
  have ok: "okmap ?h" and h: "\<And>cmd. map_of ?h cmd = hist_of cmd ops"
    using recorder_hist [of ops d m pats] by auto
  have out: "out = sort_key cs_Command (map (\<lambda>(cmd, h). stat_of cmd h) ?h)"
    by (simp add: out_def CommandStats_def)
  have names: "mset (map cs_Command out) = mset (map fst ?h)"
    by (simp add: out case_prod_beta multiset.map_comp comp_def stat_of_def)
  then have d: "distinct (map cs_Command out)" using ok by (metis mset_eq_imp_distinct_iff okmap_def)
  have "set (map cs_Command out) = dom (map_of ?h)"
    using names by (metis dom_map_of_conv_image_fst list.set_map mset_eq_setD)
  then have st: "set (map cs_Command out) = {cmd. durations cmd ops \<noteq> []}"
    by (auto simp: dom_def h hist_of_def split: if_splits)
  have row: "let xs = durations (cs_Command c) ops in
         cs_Calls c = int (length xs) \<and> cs_TotalUs c = wrap64 (sum_list xs) \<and> cs_Buckets c = spread xs
         \<and> cs_P50Us c = bucket_bound (nearest_rank (1 / 2) xs)
         \<and> cs_P95Us c = bucket_bound (nearest_rank (95 / 100) xs)
         \<and> cs_P99Us c = bucket_bound (nearest_rank (99 / 100) xs)" if c: "c \<in> set out" for c
  proof -
    obtain cmd g where c: "c = stat_of cmd g" "(cmd, g) \<in> set ?h"
      using c unfolding out set_sort set_map by auto
    then have "hist_of cmd ops = Some g" using ok h okmap_Some [of ?h cmd g] by simp
    then have g: "g = recorded (durations cmd ops)" "durations cmd ops \<noteq> []"
      by (auto simp: hist_of_def split: if_splits)
    have l: "length (durations cmd ops) < 2 ^ 44" using length_durations [of cmd ops] assms(1) by simp
    then have "length (durations cmd ops) < 2 ^ 62" by simp
    from recorded_eq [OF this] percentiles_of [OF g(2) l] show ?thesis
      by (simp add: c stat_of_def g(1) recorded_total)
  qed
  have "sorted (map cs_Command out)" by (simp add: out)
  with d st row show ?thesis by blast
qed

theorem percentile_correct_witness:
  "let out = CommandStats (fold rec_step [OpRecord \<lparr>at_unix = 1, at_slow = 2, at_event = 3\<rparr> ''get'' [''a''] ''c'' 700000,
       OpSubscribe, OpRecord \<lparr>at_unix = 4, at_slow = 5, at_event = 6\<rparr> ''get'' [''a''] ''c'' 90000000] (NewRecorder 0 128 []))
   in ''GET'' \<in> set (map cs_Command out) \<and> (\<forall>c \<in> set out. cs_Calls c = 2 \<and> cs_P50Us c = 1000 \<and> cs_P99Us c = 100000)"
proof -
  let ?ops = "[OpRecord \<lparr>at_unix = 1, at_slow = 2, at_event = 3\<rparr> ''get'' [''a''] ''c'' 700000,
       OpSubscribe, OpRecord \<lparr>at_unix = 4, at_slow = 5, at_event = 6\<rparr> ''get'' [''a''] ''c'' 90000000]"
  have up: "toUpper ''get'' = ''GET''" by code_simp
  have d: "durations cmd ?ops = (if cmd = ''GET'' then [700, 90000] else [])" for cmd
    by (auto simp: up microseconds_def simp del: toUpper.simps)
  have "\<lceil>99 / 50 :: rat\<rceil> = 2" by (simp add: ceiling_eq_iff)
  then have "nearest_rank (1 / 2) [700, 90000] = 700" "nearest_rank (99 / 100) [700, 90000] = 90000"
    by (simp_all add: nearest_rank_def)
  then have b: "bucket_bound (nearest_rank (1 / 2) [700, 90000]) = 1000"
    "bucket_bound (nearest_rank (99 / 100) [700, 90000]) = 100000"
    by (simp_all add: bucket_bound_def finite_bounds_def)
  define out where "out = CommandStats (fold rec_step ?ops (NewRecorder 0 128 []))"
  have "length ?ops < 2 ^ 44" by simp
  note p = percentile_correct [OF this, of 0 128 "[]", folded out_def]
  have names: "set (map cs_Command out) = {''GET''}" using p [THEN conjunct2, THEN conjunct2, THEN conjunct1] unfolding d by simp
  have "cs_Calls c = 2 \<and> cs_P50Us c = 1000 \<and> cs_P99Us c = 100000" if c: "c \<in> set out" for c
  proof -
    have "durations (cs_Command c) ?ops = [700, 90000]" using names c unfolding d by auto
    note row = p [THEN conjunct2, THEN conjunct2, THEN conjunct2, THEN bspec, OF c, unfolded this Let_def]
    then show ?thesis unfolding b by simp
  qed
  with names show ?thesis unfolding out_def [symmetric] Let_def by simp
qed

end
