(* ===== verification/Events_HotKeys.thy ===== *)
theory Events_HotKeys
  imports Events
begin

text \<open>
  The hot-key tracker implements a sliding window: the twelve reused slots hold exactly the
  accesses of the last twelve five-second windows.
\<close>

section \<open>Counting accesses\<close>

type_synonym access = "int \<times> string"

definition win :: "access \<Rightarrow> int" where
  "win a = fst a div hotkeyBucketWidth"

definition slot_of :: "access \<Rightarrow> nat" where
  "slot_of a = nat (win a mod hotkeyBucketCount)"

definition tally :: "(access \<Rightarrow> bool) \<Rightarrow> access list \<Rightarrow> int" where
  "tally P acc = int (length (filter P acc))"

text \<open>The accesses to \<open>k\<close> in the twelve windows that end with the one of \<open>now\<close>.\<close>

definition hits :: "int \<Rightarrow> access list \<Rightarrow> string \<Rightarrow> int" where
  "hits now acc k =
     tally (\<lambda>a. snd a = k \<and> now div hotkeyBucketWidth - win a < hotkeyBucketCount) acc"

definition tracked :: "access list \<Rightarrow> hotkeyTracker" where
  "tracked acc = fold (\<lambda>(t, k). hotkey_access t k) acc newHotkeyTracker"

lemma tally_simps [simp]: "tally P [] = 0"
  "tally P (acc @ [a]) = tally P acc + (if P a then 1 else 0)"
  by (simp_all add: tally_def)

lemma tally_bounds: "0 \<le> tally P acc" "tally P acc \<le> int (length acc)"
  by (simp_all add: tally_def)

lemma tally_int64: "length acc < 2 ^ 62 \<Longrightarrow> int64 (tally P acc) \<and> int64 (tally P acc + 1)"
  using tally_bounds [of P acc] by (auto simp: int64_def)

lemma tally_cong: "(\<And>a. a \<in> set acc \<Longrightarrow> P a \<longleftrightarrow> Q a) \<Longrightarrow> tally P acc = tally Q acc"
  by (simp add: tally_def cong: filter_cong)

lemma tally_partition:
  "(\<And>a. a \<in> set acc \<Longrightarrow> f a < (n :: nat)) \<Longrightarrow> tally P acc = (\<Sum>i<n. tally (\<lambda>a. P a \<and> f a = i) acc)"
proof (induction acc rule: rev_induct)
  case (snoc a acc)
  have "(\<Sum>i<n. tally (\<lambda>b. P b \<and> f b = i) (acc @ [a]))
      = (\<Sum>i<n. tally (\<lambda>b. P b \<and> f b = i) acc) + (\<Sum>i<n. if P a \<and> f a = i then 1 else 0)"
    by (simp add: sum.distrib)
  moreover have "(\<Sum>i<n. if P a \<and> f a = i then (1 :: int) else 0) = (if P a then 1 else 0)"
    using snoc.prems [of a] sum.delta' [of "{..<n}" "f a" "\<lambda>_. 1 :: int"] by (cases "P a") simp_all
  ultimately show ?case using snoc by simp
qed simp

lemma slot_of_less: "slot_of a < 12"
  by (simp add: slot_of_def hotkeyBucketCount_def nat_less_iff)

section \<open>The slots\<close>

definition slot_ok :: "access list \<Rightarrow> int \<Rightarrow> nat \<Rightarrow> (string, int) gomap \<Rightarrow> int \<Rightarrow> bool" where
  "slot_ok acc T i b w \<longleftrightarrow>
     okmap b \<and> (\<forall>k. get_count b k = tally (\<lambda>a. snd a = k \<and> win a = w \<and> slot_of a = i) acc)
     \<and> (\<forall>a \<in> set acc. slot_of a = i \<longrightarrow> win a \<le> w) \<and> w \<le> T div hotkeyBucketWidth
     \<and> (w = 0 \<or> nat (w mod hotkeyBucketCount) = i)"

definition tracker_ok :: "access list \<Rightarrow> int \<Rightarrow> hotkeyTracker \<Rightarrow> bool" where
  "tracker_ok acc T t \<longleftrightarrow> 0 \<le> T \<and> (\<forall>a \<in> set acc. 0 \<le> fst a \<and> fst a \<le> T)
     \<and> length (hk_buckets t) = 12 \<and> length (slotTime t) = 12
     \<and> (\<forall>i < 12. slot_ok acc T i (hk_buckets t ! i) (slotTime t ! i))"

lemma get_count_update:
  "get_count (AList.update k v m) k' = (if k' = k then v else get_count m k')"
  by (simp add: get_count_def)

lemma get_count_Nil [simp]: "get_count [] k = 0"
  by (simp add: get_count_def)

lemma tracker_ok_new: "0 \<le> T \<Longrightarrow> tracker_ok [] T newHotkeyTracker"
  by (auto simp: tracker_ok_def slot_ok_def newHotkeyTracker_def hotkeyBucketCount_def
      hotkeyBucketWidth_def pos_imp_zdiv_nonneg_iff)

lemma win_mono: "fst a \<le> T \<Longrightarrow> win a \<le> T div hotkeyBucketWidth"
  by (simp add: win_def hotkeyBucketWidth_def zdiv_mono1)

text \<open>A slot that the access does not touch, and the one it does.\<close>

lemma slot_ok_other:
  assumes "slot_ok acc T i b w" "T \<le> fst a" "slot_of a \<noteq> i"
  shows "slot_ok (acc @ [a]) (fst a) i b w"
proof -
  have "T div hotkeyBucketWidth \<le> fst a div hotkeyBucketWidth"
    using assms(2) by (simp add: hotkeyBucketWidth_def zdiv_mono1)
  with assms show ?thesis by (auto simp: slot_ok_def)
qed

lemma slot_ok_reset:
  assumes "slot_ok acc T i b w" "T \<le> fst a" "slot_of a = i" "w \<noteq> win a"
  shows "slot_ok acc (fst a) i [] (win a)"
proof -
  have "T div hotkeyBucketWidth \<le> win a"
    using assms(2) by (simp add: win_def hotkeyBucketWidth_def zdiv_mono1)
  with assms(1,4) have "w < win a" by (auto simp: slot_ok_def)
  then have old: "win a' < win a" if "a' \<in> set acc" "slot_of a' = i" for a'
    using assms(1) that by (fastforce simp: slot_ok_def)
  then have "\<not> (snd a' = k \<and> win a' = win a \<and> slot_of a' = i)" if "a' \<in> set acc" for a' k
    using that by fastforce
  then have "tally (\<lambda>a'. snd a' = k \<and> win a' = win a \<and> slot_of a' = i) acc = 0" for k
    by (simp add: tally_def filter_empty_conv del: de_Morgan_conj)
  moreover have "nat (win a mod hotkeyBucketCount) = i" using assms(3) by (simp add: slot_of_def)
  ultimately show ?thesis using old by (fastforce simp: slot_ok_def win_def)
qed

lemma slot_ok_count:
  assumes "slot_ok acc T i b (win a)" "T \<le> fst a" "slot_of a = i" "length acc < 2 ^ 62"
  shows "slot_ok (acc @ [a]) (fst a) i (AList.update (snd a) (wrap64 (get_count b (snd a) + 1)) b) (win a)"
  using assms tally_int64 [OF assms(4)]
  by (auto simp: slot_ok_def get_count_update win_def)

lemma tracker_ok_access:
  assumes "tracker_ok acc T t" "T \<le> fst a" "length acc < 2 ^ 62"
  shows "tracker_ok (acc @ [a]) (fst a) (hotkey_access (fst a) (snd a) t)"
proof -
  let ?i = "slot_of a"
  define t1 where "t1 = (if slotTime t ! ?i \<noteq> win a
      then \<lparr>hk_buckets = (hk_buckets t)[?i := []], slotTime = (slotTime t)[?i := win a]\<rparr> else t)"
  have eq: "hotkey_access (fst a) (snd a) t = t1\<lparr>hk_buckets := (hk_buckets t1)[?i :=
      AList.update (snd a) (wrap64 (get_count (hk_buckets t1 ! ?i) (snd a) + 1)) (hk_buckets t1 ! ?i)]\<rparr>"
    by (simp add: hotkey_access_def Let_def t1_def win_def slot_of_def)
  have len: "length (hk_buckets t) = 12" "length (slotTime t) = 12"
    and ok: "\<And>i. i < 12 \<Longrightarrow> slot_ok acc T i (hk_buckets t ! i) (slotTime t ! i)"
    using assms(1) by (auto simp: tracker_ok_def)
  have i: "?i < 12" by (rule slot_of_less)
  have w1: "slotTime t1 ! ?i = win a" using i len by (simp add: t1_def)
  have s1: "slot_ok acc (fst a) ?i (hk_buckets t1 ! ?i) (win a)"
  proof (cases "slotTime t ! ?i = win a")
    case True
    have "T div hotkeyBucketWidth \<le> fst a div hotkeyBucketWidth"
      using assms(2) by (simp add: hotkeyBucketWidth_def zdiv_mono1)
    with True ok [OF i] show ?thesis by (auto simp: t1_def slot_ok_def)
  next
    case False
    with slot_ok_reset [OF ok [OF i] assms(2) refl False] i len show ?thesis by (simp add: t1_def)
  qed
  have "slot_ok (acc @ [a]) (fst a) j (hk_buckets (hotkey_access (fst a) (snd a) t) ! j)
      (slotTime (hotkey_access (fst a) (snd a) t) ! j)" if "j < 12" for j
  proof (cases "j = ?i")
    case True
    with slot_ok_count [OF s1 order.refl refl assms(3)] i len w1 show ?thesis
      by (simp add: eq t1_def)
  next
    case False
    with slot_ok_other [OF ok [OF that] assms(2)] i len that show ?thesis
      by (simp add: eq t1_def)
  qed
  moreover have "length (hk_buckets t1) = 12" "length (slotTime t1) = 12"
    using len by (simp_all add: t1_def)
  ultimately show ?thesis using assms(1,2) by (auto simp: tracker_ok_def eq)
qed

lemma tracker_ok_tracked:
  "length acc < 2 ^ 62 \<Longrightarrow> sorted (map fst acc) \<Longrightarrow> \<forall>a \<in> set acc. 0 \<le> fst a \<Longrightarrow>
   \<exists>T. (\<forall>now. 0 \<le> now \<longrightarrow> (\<forall>a \<in> set acc. fst a \<le> now) \<longrightarrow> T \<le> now) \<and> tracker_ok acc T (tracked acc)"
proof (induction acc rule: rev_induct)
  case Nil
  then show ?case using tracker_ok_new [of 0] by (auto simp: tracked_def)
next
  case (snoc a acc)
  then obtain T where T: "\<forall>now. 0 \<le> now \<longrightarrow> (\<forall>b \<in> set acc. fst b \<le> now) \<longrightarrow> T \<le> now"
    and ok: "tracker_ok acc T (tracked acc)" by (auto simp: sorted_append)
  have "T \<le> fst a" using T snoc.prems by (auto simp: sorted_append)
  from tracker_ok_access [OF ok this] snoc.prems show ?case
    by (intro exI [of _ "fst a"]) (auto simp: tracked_def case_prod_beta)
qed

section \<open>The totals\<close>

lemma add_counts_ok: "okmap tot \<Longrightarrow> okmap (add_counts tot b)"
  by (induction tot b rule: add_counts.induct) auto

lemma add_counts_count:
  assumes "okmap b"
  shows "wrap64 (get_count (add_counts tot b) k) = wrap64 (get_count tot k + get_count b k)"
  using assms
proof (induction tot b rule: add_counts.induct)
  case (2 tot a v b)
  have "get_count b a = 0" and ok: "okmap b"
    using "2.prems" map_of_None_fst [of b a] by (auto simp: okmap_def get_count_def)
  moreover have "wrap64 (wrap64 x + y) = wrap64 (x + y)" for x y
    using wrap64_add_right [of y x] by (simp add: add.commute)
  ultimately show ?case
    using "2.IH" [OF ok] by (simp add: get_count_update) (simp add: get_count_def)
qed simp

lemma sum_buckets_ok: "okmap tot \<Longrightarrow> okmap (sum_buckets cur bs sts tot)"
  by (induction cur bs sts tot rule: sum_buckets.induct) (auto simp: add_counts_ok)

lemma wrap64_cong_add: "wrap64 x = wrap64 y \<Longrightarrow> wrap64 (x + z) = wrap64 (y + z)"
  using wrap64_add_right [of z x] wrap64_add_right [of z y] by (simp add: add.commute)

lemma sum_buckets_count:
  assumes "length bs = length sts" "\<forall>b \<in> set bs. okmap b"
  shows "wrap64 (get_count (sum_buckets cur bs sts tot) k) =
     wrap64 (get_count tot k + (\<Sum>i<length bs.
        if cur - sts ! i < hotkeyBucketCount then get_count (bs ! i) k else 0))"
  using assms
proof (induction bs sts arbitrary: tot rule: list_induct2)
  case (Cons b bs st sts)
  have "wrap64 (get_count (if cur - st < hotkeyBucketCount then add_counts tot b else tot) k)
      = wrap64 (get_count tot k + (if cur - st < hotkeyBucketCount then get_count b k else 0))"
    using Cons.prems add_counts_count [of b tot k] by auto
  from wrap64_cong_add [OF this] Cons show ?case
    by (simp add: sum.lessThan_Suc_shift add.assoc del: sum.lessThan_Suc cong: if_cong)
qed simp

lemma add_counts_int64:
  "(\<And>k. int64 (get_count tot k)) \<Longrightarrow> int64 (get_count (add_counts tot b) k)"
  by (induction tot b rule: add_counts.induct) (auto simp: get_count_update)

lemma sum_buckets_int64:
  "(\<And>k. int64 (get_count tot k)) \<Longrightarrow> int64 (get_count (sum_buckets cur bs sts tot) k)"
  by (induction cur bs sts tot rule: sum_buckets.induct) (auto simp: add_counts_int64)

text \<open>A slot that is inside the window holds the accesses of its own window index, and only those.\<close>

lemma slot_window:
  assumes "slot_ok acc T i b w" "a \<in> set acc" "slot_of a = i" "0 \<le> fst a"
    "T \<le> now" "now div hotkeyBucketWidth - win a < hotkeyBucketCount"
  shows "win a = w"
proof -
  have w: "win a \<le> w" "w \<le> now div hotkeyBucketWidth"
    using assms(1-3,5) zdiv_mono1 [OF assms(5), of hotkeyBucketWidth]
    by (fastforce simp: slot_ok_def hotkeyBucketWidth_def)+
  have "0 \<le> win a" using assms(4) by (simp add: win_def hotkeyBucketWidth_def pos_imp_zdiv_nonneg_iff)
  show ?thesis
  proof (cases "w = 0")
    case True
    with w \<open>0 \<le> win a\<close> show ?thesis by simp
  next
    case False
    with assms(1,3) have "w mod 12 = win a mod 12"
      by (auto simp: slot_ok_def slot_of_def hotkeyBucketCount_def)
    moreover have "w - win a < 12" using w assms(6) by (simp add: hotkeyBucketCount_def)
    ultimately show ?thesis using w(1) by presburger
  qed
qed

lemma totals_hits:
  assumes "tracker_ok acc T t" "T \<le> now" "length acc < 2 ^ 62"
  shows "get_count (sum_buckets (now div hotkeyBucketWidth) (hk_buckets t) (slotTime t) []) k = hits now acc k"
proof -
  let ?cur = "now div hotkeyBucketWidth"
  have len: "length (hk_buckets t) = 12" "length (slotTime t) = 12" "\<forall>a \<in> set acc. 0 \<le> fst a"
    and ok: "\<And>i. i < 12 \<Longrightarrow> slot_ok acc T i (hk_buckets t ! i) (slotTime t ! i)"
    using assms(1) by (auto simp: tracker_ok_def)
  have slot: "(if ?cur - slotTime t ! i < hotkeyBucketCount then get_count (hk_buckets t ! i) k else 0)
      = tally (\<lambda>a. (snd a = k \<and> ?cur - win a < hotkeyBucketCount) \<and> slot_of a = i) acc" if "i < 12" for i
  proof -
    have "tally (\<lambda>a. (snd a = k \<and> ?cur - win a < hotkeyBucketCount) \<and> slot_of a = i) acc
        = tally (\<lambda>a. (snd a = k \<and> win a = slotTime t ! i \<and> slot_of a = i)
                     \<and> ?cur - slotTime t ! i < hotkeyBucketCount) acc"
    proof (rule tally_cong)
      fix a assume a: "a \<in> set acc"
      have "win a = slotTime t ! i"
        if "slot_of a = i" "?cur - win a < hotkeyBucketCount"
        by (rule slot_window [OF ok [OF \<open>i < 12\<close>] a that(1) _ assms(2) that(2)]) (use a len(3) in blast)
      then show "((snd a = k \<and> ?cur - win a < hotkeyBucketCount) \<and> slot_of a = i) =
          ((snd a = k \<and> win a = slotTime t ! i \<and> slot_of a = i)
            \<and> ?cur - slotTime t ! i < hotkeyBucketCount)" by metis
    qed
    also have "\<dots> = (if ?cur - slotTime t ! i < hotkeyBucketCount then get_count (hk_buckets t ! i) k else 0)"
      using ok [OF that] by (auto simp: slot_ok_def tally_def)
    finally show ?thesis by (rule sym)
  qed
  have slots: "(\<Sum>i<12. if ?cur - slotTime t ! i < hotkeyBucketCount then get_count (hk_buckets t ! i) k else 0)
      = (\<Sum>i<12. tally (\<lambda>a. (snd a = k \<and> ?cur - win a < hotkeyBucketCount) \<and> slot_of a = i) acc)"
    by (rule sum.cong [OF refl]) (rule slot, simp)
  have "\<forall>b \<in> set (hk_buckets t). okmap b"
    using ok len(1) by (auto simp: in_set_conv_nth slot_ok_def)
  then have "wrap64 (get_count (sum_buckets ?cur (hk_buckets t) (slotTime t) []) k)
      = wrap64 (\<Sum>i<12. tally (\<lambda>a. (snd a = k \<and> ?cur - win a < hotkeyBucketCount) \<and> slot_of a = i) acc)"
    using sum_buckets_count [of "hk_buckets t" "slotTime t" ?cur "[]" k] len(1,2) slots by simp
  also have "\<dots> = wrap64 (hits now acc k)"
    unfolding hits_def by (subst tally_partition [of acc slot_of 12]) (rule slot_of_less, rule refl)
  also have "\<dots> = hits now acc k" using tally_int64 [OF assms(3)] by (simp add: hits_def)
  finally show ?thesis using sum_buckets_int64 [of "[]"] by (simp add: int64_def)
qed

section \<open>The leaderboard\<close>

lemma sorted_take_rest:
  assumes "sorted (map f xs)" "x \<in> set (take n xs)" "y \<in> set xs" "y \<notin> set (take n xs)"
  shows "f x \<le> f y"
proof -
  have "y \<in> set (drop n xs)" using assms(3,4) by (metis Un_iff append_take_drop_id set_append)
  moreover have "sorted (map f (take n xs) @ map f (drop n xs))"
    using assms(1) by (metis append_take_drop_id map_append)
  ultimately show ?thesis using assms(2) by (auto simp: sorted_append)
qed

definition ranking :: "(string, int) gomap \<Rightarrow> HotKey list" where
  "ranking totals = sort_key (\<lambda>h. - hk_Count h) (map (\<lambda>(k, v). \<lparr>hk_Key = k, hk_Count = v\<rparr>) totals)"

lemma ranking_sorted: "sorted (map (\<lambda>h. - hk_Count h) (ranking totals))"
  by (simp add: ranking_def)

lemma ranking_distinct:
  assumes "okmap totals"
  shows "distinct (map hk_Key (ranking totals))"
proof -
  have "mset (map hk_Key (ranking totals)) = mset (map fst totals)"
    by (simp add: ranking_def case_prod_beta multiset.map_comp comp_def)
  with assms show ?thesis by (metis mset_eq_imp_distinct_iff okmap_def)
qed

lemma ranking_count: "okmap totals \<Longrightarrow> h \<in> set (ranking totals) \<Longrightarrow> hk_Count h = get_count totals (hk_Key h)"
  by (auto simp: ranking_def get_count_def okmap_def)

lemma ranking_complete:
  assumes "get_count totals k \<noteq> 0"
  shows "\<lparr>hk_Key = k, hk_Count = get_count totals k\<rparr> \<in> set (ranking totals)"
proof -
  obtain v where "map_of totals k = Some v" using assms by (auto simp: get_count_def split: option.splits)
  then show ?thesis by (force simp: ranking_def get_count_def dest: map_of_SomeD)
qed

text \<open>
  C19: The hot-key window. After any accesses at clock readings that do not run backwards, the top \<open>n\<close> at \<open>now\<close>
  lists different keys in falling order, each with the number of its accesses in the last
  twelve five-second windows; a key that was accessed in them is left out only when \<open>n\<close> keys
  with at least as many accesses are listed.
\<close>

theorem hotkeys_window:
  fixes n :: int
  assumes "sorted (map fst acc)" "\<forall>a \<in> set acc. 0 \<le> fst a \<and> fst a \<le> now" "0 \<le> now"
    "length acc < 2 ^ 62"
  defines "out \<equiv> hotkey_top now n (tracked acc)"
  shows "distinct (map hk_Key out) \<and> sorted_wrt (\<ge>) (map hk_Count out)
    \<and> (\<forall>h \<in> set out. hk_Count h = hits now acc (hk_Key h))
    \<and> (0 < hits now acc k \<longrightarrow> k \<notin> hk_Key ` set out \<longrightarrow>
         int (length out) = n \<and> (\<forall>h \<in> set out. hits now acc k \<le> hk_Count h))"
proof -
  obtain T where T: "T \<le> now" "tracker_ok acc T (tracked acc)"
    using tracker_ok_tracked [OF assms(4,1)] assms(2,3) by fast
  define totals where "totals = sum_buckets (now div hotkeyBucketWidth)
    (hk_buckets (tracked acc)) (slotTime (tracked acc)) []"
  have ok: "okmap totals" by (simp add: totals_def sum_buckets_ok)
  have cnt: "get_count totals k = hits now acc k" for k
    unfolding totals_def by (rule totals_hits [OF T(2,1) assms(4)])
  define cut where "cut = (if n > 0 \<and> int (length (ranking totals)) > n then nat n else length (ranking totals))"
  have out: "out = take cut (ranking totals)"
    by (auto simp: out_def hotkey_top_def Let_def totals_def [symmetric] ranking_def [symmetric] cut_def)
  have in_out: "h \<in> set out \<Longrightarrow> h \<in> set (ranking totals)" for h
    unfolding out by (rule in_set_takeD)
  have "sorted_wrt (\<ge>) (map hk_Count (ranking totals))"
    using ranking_sorted [of totals] by (simp add: sorted_map sorted_wrt_map)
  then have "sorted_wrt (\<ge>) (map hk_Count out)"
    unfolding out by (simp add: sorted_wrt_take flip: take_map)
  moreover have "distinct (map hk_Key out)"
    unfolding out using ranking_distinct [OF ok] by (simp flip: take_map)
  moreover have c: "\<forall>h \<in> set out. hk_Count h = hits now acc (hk_Key h)"
    using ranking_count [OF ok] in_out by (simp add: cnt)
  moreover have "int (length out) = n \<and> (\<forall>h \<in> set out. hits now acc k \<le> hk_Count h)"
    if "0 < hits now acc k" "k \<notin> hk_Key ` set out"
  proof -
    let ?h = "\<lparr>hk_Key = k, hk_Count = hits now acc k\<rparr>"
    have h: "?h \<in> set (ranking totals)"
      using ranking_complete [of totals k] that(1) by (simp add: cnt)
    have "?h \<notin> set out" using that(2) by force
    with h have "cut = nat n \<and> n > 0 \<and> int (length (ranking totals)) > n"
      unfolding out by (auto simp: cut_def split: if_splits)
    moreover have "hits now acc k \<le> hk_Count g" if "g \<in> set out" for g
      using sorted_take_rest [OF ranking_sorted _ h] that \<open>?h \<notin> set out\<close> unfolding out by fastforce
    moreover from calculation(1) have "int (length out) = n" unfolding out length_take by linarith
    ultimately show ?thesis by blast
  qed
  ultimately show ?thesis by blast
qed

theorem hotkeys_window_witness:
  "hits 70 [(3, ''a''), (12, ''b''), (61, ''b''), (62, ''a'')] ''a'' = 1
   \<and> list_all (\<lambda>h. hk_Count h = hits 70 [(3, ''a''), (12, ''b''), (61, ''b''), (62, ''a'')] (hk_Key h))
        (hotkey_top 70 1 (tracked [(3, ''a''), (12, ''b''), (61, ''b''), (62, ''a'')]))"
  using hotkeys_window [of "[(3, ''a''), (12, ''b''), (61, ''b''), (62, ''a'')]" 70 1]
  by (simp add: list_all_iff hits_def tally_def win_def hotkeyBucketWidth_def hotkeyBucketCount_def)

end
