(* ===== verification/Handler.thy ===== *)
theory Handler
  imports Aof Events
begin

text \<open>
  The command handlers, \<open>commands/handler.go\<close>: one definition per handler, and the dispatch.

  A reply is appended to the content of the connection's buffered writer; such a write fails
  only when the connection itself does, which ends the connection and changes nothing else,
  so the writer is a string.  What the clock, the operating system and the server's metrics
  answer while a command runs is the record \<open>env\<close>.  A rewrite that \<open>BGREWRITEAOF\<close> starts is a
  goroutine of its own: the handler only counts it.
\<close>

section \<open>State\<close>

record ConnState =
  Authenticated :: bool

record env =
  clk :: "nat \<Rightarrow> int"
  os :: osenv
  metrics :: "(int \<times> int \<times> int) option"
  version :: string
  clientAddr :: string
  spent :: int
  times :: rec_times

record Handler =
  h_store :: Store
  h_password :: string
  h_aof :: "AOF option"
  h_maxMemoryBytes :: int
  h_events :: "Recorder option"
  h_rewrites :: nat

definition handler_New :: "Store \<Rightarrow> string \<Rightarrow> AOF option \<Rightarrow> Handler" where
  "handler_New s pw a =
     \<lparr>h_store = s, h_password = pw, h_aof = a, h_maxMemoryBytes = 0, h_events = None, h_rewrites = 0\<rparr>"

definition handler_SetMaxMemory :: "int \<Rightarrow> Handler \<Rightarrow> Handler" where
  "handler_SetMaxMemory bytes h = h\<lparr>h_maxMemoryBytes := bytes\<rparr>"

definition handler_SetEvents :: "Recorder \<Rightarrow> Handler \<Rightarrow> Handler" where
  "handler_SetEvents r h = h\<lparr>h_events := Some r\<rparr>"

section \<open>Errors\<close>

datatype herr = HStore store_err | HAof aof_err

fun herr_Error :: "herr \<Rightarrow> string" where
  "herr_Error (HStore e) = store_err_Error e"
| "herr_Error (HAof e) = aof_err_Error e"

definition writeStoreErr :: "string \<Rightarrow> herr option \<Rightarrow> bool \<times> string" where
  "writeStoreErr w err =
     (case err of
        None \<Rightarrow> (False, w)
      | Some e \<Rightarrow>
          if e = HStore ErrOOM
          then (True, WriteError w (''OOM command not allowed when used memory > '' @ quoted ''maxmemory''))
          else (True, WriteError w (''ERR '' @ herr_Error e)))"

definition wrongArgs :: "string \<Rightarrow> string" where
  "wrongArgs name = ''ERR wrong number of arguments for '' @ quoted name @ '' command''"

definition notInteger :: string where
  "notInteger = ''ERR value is not an integer or out of range''"

definition syntaxError :: string where
  "syntaxError = ''ERR syntax error''"

section \<open>Mutation and log entry\<close>

definition argStrings :: "Value list \<Rightarrow> string list" where
  "argStrings args = map Str args"

text \<open>
  \<open>mutate\<close> answers the store's error, or its result, the new store and whether
  to skip the log (\<open>errSkipAOFLog\<close>).  With an AOF the whole of it runs under the AOF's lock.
\<close>

definition mutateAndLog ::
  "osenv \<Rightarrow> string \<Rightarrow> string list \<Rightarrow> (Store \<Rightarrow> store_err + bool \<times> 'a \<times> Store) \<Rightarrow> Handler
   \<Rightarrow> herr option \<times> 'a option \<times> Handler" where
  "mutateAndLog ose cmd args mutate h =
     (case mutate (h_store h) of
        Inl e \<Rightarrow> (Some (HStore e), None, h)
      | Inr (skip, x, s') \<Rightarrow>
          (let h1 = h\<lparr>h_store := s'\<rparr>
           in if skip then (None, Some x, h1)
              else case h_aof h of
                     None \<Rightarrow> (None, Some x, h1)
                   | Some a \<Rightarrow>
                       (case writeLocked ose cmd args a of
                          (e, a') \<Rightarrow> (map_option HAof e, Some x, h1\<lparr>h_aof := Some a'\<rparr>))))"

text \<open>A store operation that returns an error or a number, as a mutation.\<close>

fun logged :: "store_err + 'a \<times> Store \<Rightarrow> store_err + bool \<times> 'a \<times> Store" where
  "logged (Inl e) = Inl e"
| "logged (Inr (x, s)) = Inr (False, x, s)"

text \<open>The reply after a mutation that can be refused.\<close>

definition reply_int :: "string \<Rightarrow> herr option \<times> int option \<times> Handler \<Rightarrow> string \<times> Handler" where
  "reply_int w res =
     (case res of
        (Some e, _, h') \<Rightarrow> (snd (writeStoreErr w (Some e)), h')
      | (None, r, h') \<Rightarrow> (WriteInteger w (case r of None \<Rightarrow> 0 | Some n \<Rightarrow> n), h'))"

section \<open>Connection commands\<close>

definition handle_ping :: "Value list \<Rightarrow> string \<Rightarrow> string" where
  "handle_ping args w =
     (if args = [] then WriteSimpleString w ''PONG'' else WriteBulkString w (Str (args ! 0)))"

definition handle_echo :: "Value list \<Rightarrow> string \<Rightarrow> string" where
  "handle_echo args w =
     (if length args \<noteq> 1 then WriteError w (wrongArgs ''echo'') else WriteBulkString w (Str (args ! 0)))"

definition handle_auth ::
  "Value list \<Rightarrow> string \<Rightarrow> Handler \<Rightarrow> ConnState \<Rightarrow> string \<times> ConnState" where
  "handle_auth args w h state =
     (if length args \<noteq> 1 then (WriteError w (wrongArgs ''auth''), state)
      else if h_password h = [] then
        (WriteError w ''ERR Client sent AUTH, but no password is set'', state)
      else if Str (args ! 0) \<noteq> h_password h then
        (WriteError w ''WRONGPASS invalid username-password pair'', state)
      else (WriteSimpleString w ''OK'', state\<lparr>Authenticated := True\<rparr>))"

section \<open>Strings and keys\<close>

fun set_opts :: "string list \<Rightarrow> int \<Rightarrow> string + int" where
  "set_opts [] ttl = Inr ttl"
| "set_opts (x # rest) ttl =
     (if toUpper x = ''EX'' then
        (case rest of [] \<Rightarrow> Inl syntaxError
         | y # rest' \<Rightarrow> (case atoi y of None \<Rightarrow> Inl notInteger
              | Some seconds \<Rightarrow> set_opts rest' (wrap64 (seconds * second))))
      else if toUpper x = ''PX'' then
        (case rest of [] \<Rightarrow> Inl syntaxError
         | y # rest' \<Rightarrow> (case atoi y of None \<Rightarrow> Inl notInteger
              | Some ms \<Rightarrow> set_opts rest' (wrap64 (ms * millisecond))))
      else Inl syntaxError)"

definition set_mut :: "int \<Rightarrow> string \<Rightarrow> string \<Rightarrow> int \<Rightarrow> Store \<Rightarrow> store_err + bool \<times> unit \<times> Store" where
  "set_mut now key val ttl s = (case store_Set now key val ttl s of Inl e \<Rightarrow> Inl e | Inr s' \<Rightarrow> Inr (False, (), s'))"

definition handle_set :: "env \<Rightarrow> Value list \<Rightarrow> string \<Rightarrow> Handler \<Rightarrow> string \<times> Handler" where
  "handle_set e args w h =
     (if length args < 2 then (WriteError w (wrongArgs ''set''), h)
      else case set_opts (argStrings (drop 2 args)) 0 of
             Inl msg \<Rightarrow> (WriteError w msg, h)
           | Inr ttl \<Rightarrow>
               (case mutateAndLog (os e) ''SET'' (argStrings args)
                       (set_mut (clk e 0) (Str (args ! 0)) (Str (args ! 1)) ttl) h of
                  (Some err, _, h') \<Rightarrow> (snd (writeStoreErr w (Some err)), h')
                | (None, _, h') \<Rightarrow> (WriteSimpleString w ''OK'', h')))"

definition handle_get :: "env \<Rightarrow> Value list \<Rightarrow> string \<Rightarrow> Handler \<Rightarrow> string \<times> Handler" where
  "handle_get e args w h =
     (if length args \<noteq> 1 then (WriteError w (wrongArgs ''get''), h)
      else case store_Get (clk e 0) (Str (args ! 0)) (h_store h) of
             (None, s') \<Rightarrow> (WriteNullBulk w, h\<lparr>h_store := s'\<rparr>)
           | (Some val, s') \<Rightarrow> (WriteBulkString w val, h\<lparr>h_store := s'\<rparr>))"

text \<open>\<open>del\<close>, \<open>expire\<close>, \<open>hdel\<close> and \<open>flushAll\<close> ignore the error of \<open>mutateAndLog\<close>.\<close>

definition handle_del :: "env \<Rightarrow> Value list \<Rightarrow> string \<Rightarrow> Handler \<Rightarrow> string \<times> Handler" where
  "handle_del e args w h =
     (if length args < 1 then (WriteError w (wrongArgs ''del''), h)
      else case mutateAndLog (os e) ''DEL'' (argStrings args)
                  (\<lambda>s. logged (Inr (store_Del (argStrings args) s))) h of
             (_, n, h') \<Rightarrow> (WriteInteger w (case n of None \<Rightarrow> 0 | Some k \<Rightarrow> k), h'))"

definition handle_exists :: "env \<Rightarrow> Value list \<Rightarrow> string \<Rightarrow> Handler \<Rightarrow> string \<times> Handler" where
  "handle_exists e args w h =
     (if length args < 1 then (WriteError w (wrongArgs ''exists''), h)
      else case store_Exists (clk e) (argStrings args) (h_store h) of
             (n, s') \<Rightarrow> (WriteInteger w n, h\<lparr>h_store := s'\<rparr>))"

definition expire_mut :: "int \<Rightarrow> string \<Rightarrow> int \<Rightarrow> Store \<Rightarrow> store_err + bool \<times> bool \<times> Store" where
  "expire_mut now key seconds s =
     (case store_Expire now key seconds s of (existed, s') \<Rightarrow> Inr (\<not> existed, existed, s'))"

definition handle_expire :: "env \<Rightarrow> Value list \<Rightarrow> string \<Rightarrow> Handler \<Rightarrow> string \<times> Handler" where
  "handle_expire e args w h =
     (if length args \<noteq> 2 then (WriteError w (wrongArgs ''expire''), h)
      else case atoi (Str (args ! 1)) of
             None \<Rightarrow> (WriteError w notInteger, h)
           | Some seconds \<Rightarrow>
               (case mutateAndLog (os e) ''EXPIRE'' (argStrings args)
                       (expire_mut (clk e 0) (Str (args ! 0)) seconds) h of
                  (_, existed, h') \<Rightarrow>
                    (if existed = Some True then WriteInteger w 1 else WriteInteger w 0, h')))"

definition handle_ttl :: "env \<Rightarrow> Value list \<Rightarrow> string \<Rightarrow> Handler \<Rightarrow> string \<times> Handler" where
  "handle_ttl e args w h =
     (if length args \<noteq> 1 then (WriteError w (wrongArgs ''ttl''), h)
      else case store_TTL (clk e 0) (clk e 1) (Str (args ! 0)) (h_store h) of
             (n, s') \<Rightarrow> (WriteInteger w n, h\<lparr>h_store := s'\<rparr>))"

definition handle_keys :: "env \<Rightarrow> Value list \<Rightarrow> string \<Rightarrow> Handler \<Rightarrow> string" where
  "handle_keys e args w h =
     (if length args \<noteq> 1 then WriteError w (wrongArgs ''keys'')
      else WriteArray w (store_Keys (clk e 0) (Str (args ! 0)) (h_store h)))"

fun scan_opts :: "string list \<Rightarrow> string \<Rightarrow> int \<Rightarrow> string + string \<times> int" where
  "scan_opts [] pattern count1 = Inr (pattern, count1)"
| "scan_opts (x # rest) pattern count1 =
     (if toUpper x = ''MATCH'' then
        (case rest of [] \<Rightarrow> Inl syntaxError | y # rest' \<Rightarrow> scan_opts rest' y count1)
      else if toUpper x = ''COUNT'' then
        (case rest of [] \<Rightarrow> Inl syntaxError
         | y # rest' \<Rightarrow> (case atoi y of None \<Rightarrow> Inl notInteger | Some n \<Rightarrow> scan_opts rest' pattern n))
      else Inl syntaxError)"

definition handle_scan :: "env \<Rightarrow> Value list \<Rightarrow> string \<Rightarrow> Handler \<Rightarrow> string outcome" where
  "handle_scan e args w h =
     (if length args < 1 then Returns (WriteError w (wrongArgs ''scan''))
      else case atoi (Str (args ! 0)) of
             None \<Rightarrow> Returns (WriteError w ''ERR invalid cursor'')
           | Some cursor \<Rightarrow>
               (case scan_opts (argStrings (drop 1 args)) ''*'' 10 of
                  Inl msg \<Rightarrow> Returns (WriteError w msg)
                | Inr (pattern, count1) \<Rightarrow>
                    (case store_Scan (clk e 0) cursor pattern count1 (h_store h) of
                       Panics \<Rightarrow> Panics
                     | Returns (next, keys) \<Rightarrow>
                         Returns (WriteArray (WriteBulkString (w @ ''*2'' @ crlf) (itoa next)) keys))))"

definition handle_flushAll :: "env \<Rightarrow> string \<Rightarrow> Handler \<Rightarrow> string \<times> Handler" where
  "handle_flushAll e w h =
     (case mutateAndLog (os e) ''FLUSHALL'' [] (\<lambda>s. Inr (False, (), store_FlushAll s)) h of
        (_, _, h') \<Rightarrow> (WriteSimpleString w ''OK'', h'))"

section \<open>Counters, lists, hashes\<close>

definition handle_incrBy :: "env \<Rightarrow> Value list \<Rightarrow> string \<Rightarrow> Handler \<Rightarrow> int \<Rightarrow> bool \<Rightarrow> string \<times> Handler" where
  "handle_incrBy e args w h delta0 readDelta =
     (let name0 = (if delta0 < 0 then ''decr'' else ''incr'');
          name = (if readDelta then ''incrby'' else name0);
          logname = (if readDelta then ''INCRBY'' else if delta0 < 0 then ''DECR'' else ''INCR'');
          run = (\<lambda>delta. reply_int w (mutateAndLog (os e) logname (argStrings args)
                   (\<lambda>s. logged (store_IncrBy (clk e 0) (Str (args ! 0)) delta s)) h))
      in if readDelta
         then (if length args \<noteq> 2 then (WriteError w (wrongArgs name), h)
               else case atoi (Str (args ! 1)) of
                      None \<Rightarrow> (WriteError w notInteger, h)
                    | Some n \<Rightarrow> run n)
         else if length args \<noteq> 1 then (WriteError w (wrongArgs name), h)
         else run delta0)"

definition handle_decrBy :: "env \<Rightarrow> Value list \<Rightarrow> string \<Rightarrow> Handler \<Rightarrow> string \<times> Handler" where
  "handle_decrBy e args w h =
     (if length args \<noteq> 2 then (WriteError w (wrongArgs ''decrby''), h)
      else case atoi (Str (args ! 1)) of
             None \<Rightarrow> (WriteError w notInteger, h)
           | Some n \<Rightarrow> reply_int w (mutateAndLog (os e) ''DECRBY'' (argStrings args)
               (\<lambda>s. logged (store_IncrBy (clk e 0) (Str (args ! 0)) (wrap64 (- n)) s)) h))"

definition handle_push ::
  "env \<Rightarrow> Value list \<Rightarrow> string \<Rightarrow> Handler \<Rightarrow> string \<Rightarrow> string
   \<Rightarrow> (string \<Rightarrow> string list \<Rightarrow> Store \<Rightarrow> store_err + int \<times> Store) \<Rightarrow> string \<times> Handler" where
  "handle_push e args w h cmdName lowerName op1 =
     (if length args < 2 then (WriteError w (wrongArgs lowerName), h)
      else reply_int w (mutateAndLog (os e) cmdName (argStrings args)
             (\<lambda>s. logged (op1 (Str (args ! 0)) (argStrings (drop 1 args)) s)) h))"

definition handle_lrange :: "Value list \<Rightarrow> string \<Rightarrow> Handler \<Rightarrow> string outcome" where
  "handle_lrange args w h =
     (if length args \<noteq> 3 then Returns (WriteError w (wrongArgs ''lrange''))
      else case atoi (Str (args ! 1)) of
             None \<Rightarrow> Returns (WriteError w notInteger)
           | Some start \<Rightarrow>
               (case atoi (Str (args ! 2)) of
                  None \<Rightarrow> Returns (WriteError w notInteger)
                | Some stop \<Rightarrow>
                    (case store_LRange (Str (args ! 0)) start stop (h_store h) of
                       Panics \<Rightarrow> Panics
                     | Returns l \<Rightarrow> Returns (WriteArray w l))))"

definition handle_hset :: "env \<Rightarrow> Value list \<Rightarrow> string \<Rightarrow> Handler \<Rightarrow> string \<times> Handler" where
  "handle_hset e args w h =
     (if length args < 3 \<or> length args mod 2 = 0 then (WriteError w (wrongArgs ''hset''), h)
      else reply_int w (mutateAndLog (os e) ''HSET'' (argStrings args)
             (\<lambda>s. logged (store_HSet (Str (args ! 0)) (argStrings (drop 1 args)) s)) h))"

definition handle_hget :: "Value list \<Rightarrow> string \<Rightarrow> Handler \<Rightarrow> string" where
  "handle_hget args w h =
     (if length args \<noteq> 2 then WriteError w (wrongArgs ''hget'')
      else case store_HGet (Str (args ! 0)) (Str (args ! 1)) (h_store h) of
             None \<Rightarrow> WriteNullBulk w
           | Some val \<Rightarrow> WriteBulkString w val)"

definition handle_hdel :: "env \<Rightarrow> Value list \<Rightarrow> string \<Rightarrow> Handler \<Rightarrow> string \<times> Handler" where
  "handle_hdel e args w h =
     (if length args < 2 then (WriteError w (wrongArgs ''hdel''), h)
      else case mutateAndLog (os e) ''HDEL'' (argStrings args)
                  (\<lambda>s. logged (Inr (store_HDel (Str (args ! 0)) (argStrings (drop 1 args)) s))) h of
             (_, n, h') \<Rightarrow> (WriteInteger w (case n of None \<Rightarrow> 0 | Some k \<Rightarrow> k), h'))"

section \<open>Observability and administration\<close>

definition handle_bgRewriteAOF :: "string \<Rightarrow> Handler \<Rightarrow> string \<times> Handler" where
  "handle_bgRewriteAOF w h =
     (if h_aof h = None then (WriteError w ''ERR AOF is not enabled'', h)
      else (WriteSimpleString w ''Background append only file rewriting started'',
            h\<lparr>h_rewrites := Suc (h_rewrites h)\<rparr>))"

fun write_slow_entries :: "string \<Rightarrow> SlowEntry list \<Rightarrow> string" where
  "write_slow_entries w [] = w"
| "write_slow_entries w (e # es) =
     (let w1 = w @ ''*5'' @ crlf;
          w2 = WriteInteger w1 (se_ID e);
          w3 = WriteInteger w2 (se_Time e div second);
          w4 = WriteInteger w3 (se_DurationUs e);
          w5 = WriteArray w4 ([se_Command e] @ se_Args e);
          w6 = WriteBulkString w5 (se_ClientAddr e)
      in write_slow_entries w6 es)"

definition slowlog_reply :: "int \<Rightarrow> string \<Rightarrow> Recorder \<Rightarrow> string" where
  "slowlog_reply n w r =
     (let entries = SlowlogGet n r
      in write_slow_entries (w @ ''*'' @ itoa (int (length entries)) @ crlf) entries)"

definition handle_slowlog :: "Value list \<Rightarrow> string \<Rightarrow> Handler \<Rightarrow> string \<times> Handler" where
  "handle_slowlog args w h =
     (if length args < 1 then (WriteError w (wrongArgs ''slowlog''), h)
      else case h_events h of
             None \<Rightarrow> (WriteError w ''ERR SLOWLOG is not enabled'', h)
           | Some r \<Rightarrow>
               (let sub = toUpper (Str (args ! 0))
                in if sub = ''LEN'' then (WriteInteger w (SlowlogLen r), h)
                   else if sub = ''RESET'' then
                     (WriteSimpleString w ''OK'', h\<lparr>h_events := Some (SlowlogReset r)\<rparr>)
                   else if sub = ''GET'' then
                     (if length args \<ge> 2
                      then case atoi (Str (args ! 1)) of
                             None \<Rightarrow> (WriteError w notInteger, h)
                           | Some n \<Rightarrow> (slowlog_reply n w r, h)
                      else (slowlog_reply 10 w r, h))
                   else (WriteError w ''ERR unknown SLOWLOG subcommand'', h)))"

fun flat_hotkeys :: "HotKey list \<Rightarrow> string list" where
  "flat_hotkeys [] = []"
| "flat_hotkeys (hk # hks) = hk_Key hk # itoa (hk_Count hk) # flat_hotkeys hks"

definition handle_hotkeys :: "env \<Rightarrow> Value list \<Rightarrow> string \<Rightarrow> Handler \<Rightarrow> string" where
  "handle_hotkeys e args w h =
     (case h_events h of
        None \<Rightarrow> WriteError w ''ERR HOTKEYS is not enabled''
      | Some r \<Rightarrow>
          (case (if length args \<ge> 1 then atoi (Str (args ! 0)) else Some 10) of
             None \<Rightarrow> WriteError w notInteger
           | Some n \<Rightarrow> WriteArray w (flat_hotkeys (HotKeys (clk e 0 div second) n r))))"

text \<open>
  \<open>%.2f\<close> of a non-negative double, \<open>int(d.Seconds())\<close> of a non-negative duration.
\<close>

definition fmt2 :: "rat \<Rightarrow> string" where
  "fmt2 q = (let n = rne (q * 100)
             in itoa (n div 100) @ ''.'' @ itoa (n mod 100 div 10) @ itoa (n mod 10))"

definition wholeSeconds :: "int \<Rightarrow> int" where
  "wholeSeconds d =
     \<lfloor>fl64 (of_int (d div second) + fl64 (of_int (d mod second) / of_int second))\<rfloor>"

definition usecPerCall :: "CommandStat \<Rightarrow> rat" where
  "usecPerCall s =
     (if cs_Calls s > 0 then fl64 (fl64 (of_int (cs_TotalUs s)) / fl64 (of_int (cs_Calls s))) else 0)"

definition commandStatLine :: "CommandStat \<Rightarrow> string" where
  "commandStatLine s =
     ''cmdstat_'' @ toLower (cs_Command s) @ '':calls='' @ itoa (cs_Calls s)
     @ '',usec_per_call='' @ fmt2 (usecPerCall s) @ '',p50_usec='' @ itoa (cs_P50Us s)
     @ '',p95_usec='' @ itoa (cs_P95Us s) @ '',p99_usec='' @ itoa (cs_P99Us s) @ crlf"

definition commandStatsLines :: "Handler \<Rightarrow> string" where
  "commandStatsLines h =
     (case h_events h of None \<Rightarrow> [] | Some r \<Rightarrow> concat (map commandStatLine (CommandStats r)))"

definition info_body :: "env \<Rightarrow> Handler \<Rightarrow> string" where
  "info_body e h =
     (case (case metrics e of None \<Rightarrow> (0, 0, 0) | Some m \<Rightarrow> m) of
        (uptime, conns, cmds) \<Rightarrow>
          ''# Server'' @ crlf @ ''redis_version:0.1.0'' @ crlf @ ''os:linux'' @ crlf
          @ ''go_version:'' @ version e @ crlf
          @ ''uptime_in_seconds:'' @ itoa (wholeSeconds uptime) @ crlf @ crlf
          @ ''# Clients'' @ crlf @ ''connected_clients:'' @ itoa conns @ crlf @ crlf
          @ ''# Memory'' @ crlf @ ''used_memory:'' @ itoa (store_ApproxMemoryBytes (h_store h)) @ crlf
          @ ''maxmemory:'' @ itoa (h_maxMemoryBytes h) @ crlf @ crlf
          @ ''# Stats'' @ crlf @ ''total_commands_processed:'' @ itoa cmds @ crlf @ crlf
          @ ''# Commandstats'' @ crlf @ commandStatsLines h @ crlf
          @ ''# Keyspace'' @ crlf @ ''db0:keys='' @ itoa (store_KeyCount (h_store h))
          @ '',expires='' @ itoa (store_ExpiryCount (h_store h)) @ crlf)"

definition handle_info :: "env \<Rightarrow> string \<Rightarrow> Handler \<Rightarrow> string" where
  "handle_info e w h = WriteBulkString w (info_body e h)"

definition handle_command :: "Value list \<Rightarrow> string \<Rightarrow> string" where
  "handle_command args w =
     (if length args \<ge> 1 \<and> toUpper (Str (args ! 0)) = ''COUNT'' then WriteInteger w 0
      else WriteArray w [])"

section \<open>Dispatch\<close>

type_synonym handled = "(string \<times> Handler \<times> ConnState) outcome"

definition quiet :: "Handler \<Rightarrow> ConnState \<Rightarrow> string \<Rightarrow> handled" where
  "quiet h state w = Returns (w, h, state)"

definition writes :: "ConnState \<Rightarrow> string \<times> Handler \<Rightarrow> handled" where
  "writes state r = Returns (fst r, snd r, state)"

definition may_panic :: "Handler \<Rightarrow> ConnState \<Rightarrow> string outcome \<Rightarrow> handled" where
  "may_panic h state r = (case r of Panics \<Rightarrow> Panics | Returns w \<Rightarrow> Returns (w, h, state))"

definition dispatch ::
  "env \<Rightarrow> string \<Rightarrow> Value list \<Rightarrow> string \<Rightarrow> Handler \<Rightarrow> ConnState \<Rightarrow> handled" where
  "dispatch e cmd args w h state =
     (let upper = toUpper cmd
      in if upper = ''PING'' then quiet h state (handle_ping args w)
         else if upper = ''ECHO'' then quiet h state (handle_echo args w)
         else if upper = ''AUTH'' then
           (case handle_auth args w h state of (w', state') \<Rightarrow> Returns (w', h, state'))
         else if upper = ''SET'' then writes state (handle_set e args w h)
         else if upper = ''GET'' then writes state (handle_get e args w h)
         else if upper = ''DEL'' then writes state (handle_del e args w h)
         else if upper = ''EXISTS'' then writes state (handle_exists e args w h)
         else if upper = ''EXPIRE'' then writes state (handle_expire e args w h)
         else if upper = ''TTL'' then writes state (handle_ttl e args w h)
         else if upper = ''KEYS'' then quiet h state (handle_keys e args w h)
         else if upper = ''SCAN'' then may_panic h state (handle_scan e args w h)
         else if upper = ''FLUSHALL'' then writes state (handle_flushAll e w h)
         else if upper = ''INCR'' then writes state (handle_incrBy e args w h 1 False)
         else if upper = ''DECR'' then writes state (handle_incrBy e args w h (-1) False)
         else if upper = ''INCRBY'' then writes state (handle_incrBy e args w h 0 True)
         else if upper = ''DECRBY'' then writes state (handle_decrBy e args w h)
         else if upper = ''LPUSH'' then
           writes state (handle_push e args w h ''LPUSH'' ''lpush'' store_LPush)
         else if upper = ''RPUSH'' then
           writes state (handle_push e args w h ''RPUSH'' ''rpush'' store_RPush)
         else if upper = ''LRANGE'' then may_panic h state (handle_lrange args w h)
         else if upper = ''HSET'' then writes state (handle_hset e args w h)
         else if upper = ''HGET'' then quiet h state (handle_hget args w h)
         else if upper = ''HDEL'' then writes state (handle_hdel e args w h)
         else if upper = ''INFO'' then quiet h state (handle_info e w h)
         else if upper = ''BGREWRITEAOF'' then writes state (handle_bgRewriteAOF w h)
         else if upper = ''SLOWLOG'' then writes state (handle_slowlog args w h)
         else if upper = ''HOTKEYS'' then quiet h state (handle_hotkeys e args w h)
         else if upper = ''COMMAND'' then quiet h state (handle_command args w)
         else quiet h state (WriteError w (''ERR unknown command '' @ quoted cmd)))"

text \<open>A panic skips the recorder: it unwinds to the connection's \<open>recover\<close>.\<close>

definition Handle ::
  "env \<Rightarrow> string \<Rightarrow> Value list \<Rightarrow> string \<Rightarrow> Handler \<Rightarrow> ConnState \<Rightarrow> handled" where
  "Handle e cmd args w h state =
     (case dispatch e cmd args w h state of
        Panics \<Rightarrow> Panics
      | Returns (w', h', state') \<Rightarrow>
          (case h_events h' of
             None \<Rightarrow> Returns (w', h', state')
           | Some r \<Rightarrow>
               Returns (w', h'\<lparr>h_events := Some (Record (times e) (toUpper cmd) (argStrings args)
                                                   (clientAddr e) (spent e) r)\<rparr>, state')))"

end
