(* ===== verification/Handler_Log.thy ===== *)
theory Handler_Log
  imports Handler Aof_Rewrite
begin

text \<open>
  What a handler does to the store is what replaying the log entry it writes does; and so the
  whole server, handlers and rewrites together, recovers from its log.
\<close>

section \<open>Handlers and replay\<close>

text \<open>
  Either nothing happened to store and log, or the store is what replaying the entry \<open>name
  largs\<close> gives, and that entry went to the log.
\<close>

definition faithful :: "env \<Rightarrow> string \<Rightarrow> string list \<Rightarrow> Handler \<Rightarrow> Handler \<Rightarrow> bool" where
  "faithful e name largs h h' \<longleftrightarrow>
     h_store h' = h_store h \<and> h_aof h' = h_aof h
     \<or> replayCommand (clk e 0) (h_store h) name largs = Inr (h_store h')
       \<and> h_aof h' = map_option (\<lambda>a. snd (writeLocked (os e) name largs a)) (h_aof h)"

lemma faithful_refl [simp]: "faithful e name largs h h"
  by (simp add: faithful_def)

text \<open>The mutations of a handler agree with the replay of its entry.\<close>

definition agrees :: "env \<Rightarrow> string \<Rightarrow> string list \<Rightarrow> Store \<Rightarrow> store_err + bool \<times> 'a \<times> Store \<Rightarrow> bool" where
  "agrees e name largs s res \<longleftrightarrow>
     (case res of Inl err \<Rightarrow> True
      | Inr (skip, x, s') \<Rightarrow>
          (if skip then s' = s else replayCommand (clk e 0) s name largs = Inr s'))"

lemma mutateAndLog_faithful:
  assumes "agrees e name largs (h_store h) (f (h_store h))"
  shows "faithful e name largs h (snd (snd (mutateAndLog (os e) name largs f h)))"
proof (cases "f (h_store h)")
  case (Inr p)
  obtain skip x s' where p: "p = (skip, x, s')" by (cases p)
  show ?thesis
    using assms Inr p
    by (cases "h_aof h") (auto simp: agrees_def mutateAndLog_def Let_def faithful_def split: prod.splits)
qed (simp add: mutateAndLog_def)

lemma agrees_logged:
  "refused res = replayCommand (clk e 0) s name largs \<Longrightarrow> agrees e name largs s (logged res)"
  by (cases res rule: refused.cases) (auto simp: agrees_def)

lemma reply_int_snd: "snd (reply_int w res) = snd (snd res)"
  by (cases res) (auto simp: reply_int_def split: option.splits)

lemma Str_nth:
  "i < length args \<Longrightarrow> Str (args ! i) = argStrings args ! i"
  "\<not> length args < 2 \<Longrightarrow> Str (args ! 0) = argStrings args ! 0"
  "\<not> length args < 3 \<Longrightarrow> Str (args ! 0) = argStrings args ! 0"
  "length args = 2 \<Longrightarrow> Str (args ! 0) = argStrings args ! 0"
  "length args = Suc 0 \<Longrightarrow> Str (args ! 0) = argStrings args ! 0"
  by (auto simp: argStrings_def intro!: nth_map [symmetric])

lemma argStrings_simps [simp]: "length (argStrings args) = length args"
  "argStrings (drop n args) = drop n (argStrings args)" "argStrings args = [] \<longleftrightarrow> args = []"
  by (simp_all add: argStrings_def drop_map)

section \<open>One handler at a time\<close>

text \<open>The options of \<open>SET\<close> are read alike when it is executed and when it is replayed.\<close>

lemma set_opts_replay: "set_opts rest ttl = Inr n \<longleftrightarrow> parseSetTTL_loop rest ttl = Inr n"
  by (induction rest ttl rule: set_opts.induct) (auto split: list.splits option.splits)

lemma agrees_set:
  assumes "\<not> length args < 2" "set_opts (argStrings (drop 2 args)) 0 = Inr ttl"
  shows "agrees e ''SET'' (argStrings args) s
     (set_mut (clk e 0) (Str (args ! 0)) (Str (args ! 1)) ttl s)"
  using assms
  by (auto simp: agrees_def set_mut_def replay_SET_eq parseSetTTL_def set_opts_replay Str_nth
      split: sum.split)

lemma faithful_set: "faithful e ''SET'' (argStrings args) h (snd (handle_set e args w h))"
proof (cases "length args < 2")
  case False
  show ?thesis
  proof (cases "set_opts (argStrings (drop 2 args)) 0")
    case (Inr ttl)
    have "snd (handle_set e args w h) = snd (snd (mutateAndLog (os e) ''SET'' (argStrings args)
        (set_mut (clk e 0) (Str (args ! 0)) (Str (args ! 1)) ttl) h))"
      using False Inr by (simp add: handle_set_def split: prod.split option.split)
    with agrees_set [OF False Inr] show ?thesis using mutateAndLog_faithful by metis
  qed (use False in \<open>simp add: handle_set_def\<close>)
qed (simp add: handle_set_def)

lemma faithful_del: "faithful e ''DEL'' (argStrings args) h (snd (handle_del e args w h))"
proof (cases "length args < 1")
  case False
  let ?f = "\<lambda>s. logged (Inr (store_Del (argStrings args) s))"
  have "agrees e ''DEL'' (argStrings args) (h_store h) (?f (h_store h))"
    using False by (intro agrees_logged) (cases "store_Del (argStrings args) (h_store h)", simp add: replay_key_eq)
  moreover have "snd (handle_del e args w h) = snd (snd (mutateAndLog (os e) ''DEL'' (argStrings args) ?f h))"
    using False by (simp add: handle_del_def split: prod.split)
  ultimately show ?thesis using mutateAndLog_faithful by metis
qed (simp add: handle_del_def)

lemma agrees_expire:
  assumes "length args = 2" "atoi (Str (args ! 1)) = Some seconds"
  shows "agrees e ''EXPIRE'' (argStrings args) s (expire_mut (clk e 0) (Str (args ! 0)) seconds s)"
proof (cases "store_Expire (clk e 0) (Str (args ! 0)) seconds s")
  case (Pair existed s')
  then have "\<not> existed \<Longrightarrow> s' = s" by (auto simp: store_Expire_def split: option.splits)
  with Pair assms show ?thesis
    by (simp add: agrees_def expire_mut_def replay_key_eq Str_nth)
qed

lemma faithful_expire: "faithful e ''EXPIRE'' (argStrings args) h (snd (handle_expire e args w h))"
proof (cases "length args = 2")
  case True
  show ?thesis
  proof (cases "atoi (Str (args ! 1))")
    case (Some seconds)
    have "snd (handle_expire e args w h) = snd (snd (mutateAndLog (os e) ''EXPIRE'' (argStrings args)
        (expire_mut (clk e 0) (Str (args ! 0)) seconds) h))"
      using True Some by (simp add: handle_expire_def split: prod.split)
    with agrees_expire [OF True Some] show ?thesis using mutateAndLog_faithful by metis
  qed (use True in \<open>simp add: handle_expire_def\<close>)
qed (simp add: handle_expire_def)

lemma faithful_flushAll: "faithful e ''FLUSHALL'' [] h (snd (handle_flushAll e w h))"
proof -
  let ?f = "\<lambda>s. Inr (False, (), store_FlushAll s)"
  have "agrees e ''FLUSHALL'' [] (h_store h) (?f (h_store h))" by (simp add: agrees_def replay_key_eq)
  moreover have "snd (handle_flushAll e w h) = snd (snd (mutateAndLog (os e) ''FLUSHALL'' [] ?f h))"
    by (simp add: handle_flushAll_def split: prod.split)
  ultimately show ?thesis using mutateAndLog_faithful by metis
qed

lemma faithful_reply_int:
  assumes "agrees e name largs (h_store h) (f (h_store h))"
  shows "faithful e name largs h (snd (reply_int w (mutateAndLog (os e) name largs f h)))"
  unfolding reply_int_snd by (rule mutateAndLog_faithful [where f = f]) (rule assms)

lemma faithful_incr:
  "faithful e ''INCR'' (argStrings args) h (snd (handle_incrBy e args w h 1 False))"
  "faithful e ''DECR'' (argStrings args) h (snd (handle_incrBy e args w h (-1) False))"
  by (auto simp: handle_incrBy_def replay_counter_eq Str_nth intro!: faithful_reply_int agrees_logged)

lemma faithful_incrby:
  "faithful e ''INCRBY'' (argStrings args) h (snd (handle_incrBy e args w h 0 True))"
  "faithful e ''DECRBY'' (argStrings args) h (snd (handle_decrBy e args w h))"
  by (auto simp: handle_incrBy_def handle_decrBy_def replay_counter_eq Str_nth split: option.split
      intro!: faithful_reply_int agrees_logged)

lemma faithful_collections:
  "faithful e ''LPUSH'' (argStrings args) h (snd (handle_push e args w h ''LPUSH'' l store_LPush))"
  "faithful e ''RPUSH'' (argStrings args) h (snd (handle_push e args w h ''RPUSH'' l store_RPush))"
  "faithful e ''HSET'' (argStrings args) h (snd (handle_hset e args w h))"
  by (auto simp: handle_push_def handle_hset_def replay_collection_eq Str_nth
      intro!: faithful_reply_int agrees_logged)

lemma faithful_hdel: "faithful e ''HDEL'' (argStrings args) h (snd (handle_hdel e args w h))"
proof (cases "length args < 2")
  case False
  let ?f = "\<lambda>s. logged (Inr (store_HDel (Str (args ! 0)) (argStrings (drop 1 args)) s))"
  have "agrees e ''HDEL'' (argStrings args) (h_store h) (?f (h_store h))"
    using False by (intro agrees_logged)
      (cases "store_HDel (argStrings args ! 0) (drop 1 (argStrings args)) (h_store h)",
       simp add: replay_collection_eq Str_nth)
  moreover have "snd (handle_hdel e args w h) = snd (snd (mutateAndLog (os e) ''HDEL'' (argStrings args) ?f h))"
    using False by (simp add: handle_hdel_def split: prod.split)
  ultimately show ?thesis using mutateAndLog_faithful by metis
qed (simp add: handle_hdel_def)

section \<open>Reads and lazy expiry\<close>

text \<open>The only thing a read may do to the keyspace is drop strings that have expired.\<close>

definition only_expired :: "(nat \<Rightarrow> int) \<Rightarrow> Store \<Rightarrow> Store \<Rightarrow> bool" where
  "only_expired c s s' \<longleftrightarrow>
     ks_list (view s') = ks_list (view s) \<and> ks_hash (view s') = ks_hash (view s)
     \<and> (\<forall>k. ks_str (view s') k = ks_str (view s) k
          \<or> ks_str (view s') k = None
            \<and> (\<exists>v x i. ks_str (view s) k = Some (v, x) \<and> \<not> alive (c i) x))"

lemma only_expired_refl [simp]: "only_expired c s s"
  by (simp add: only_expired_def)

lemma only_expired_trans:
  assumes "only_expired c s t" "only_expired c t u"
  shows "only_expired c s u"
  unfolding only_expired_def
proof (intro conjI allI)
  fix k
  have 1: "ks_str (view t) k = ks_str (view s) k \<or> ks_str (view t) k = None
      \<and> (\<exists>v x i. ks_str (view s) k = Some (v, x) \<and> \<not> alive (c i) x)"
    using assms(1) by (simp add: only_expired_def)
  have 2: "ks_str (view u) k = ks_str (view t) k \<or> ks_str (view u) k = None
      \<and> (\<exists>v x i. ks_str (view t) k = Some (v, x) \<and> \<not> alive (c i) x)"
    using assms(2) by (simp add: only_expired_def)
  from 1 2 show "ks_str (view u) k = ks_str (view s) k \<or> ks_str (view u) k = None
      \<and> (\<exists>v x i. ks_str (view s) k = Some (v, x) \<and> \<not> alive (c i) x)" by metis
qed (use assms in \<open>simp_all add: only_expired_def\<close>)

lemma only_expired_delete:
  assumes "get_lookup (c i) k s = Expired"
  shows "only_expired c s (deleteExpiredLocked k s)"
proof -
  obtain e where e: "map_of (data s) k = Some e" "isExpired (c i) e"
    using assms by (auto simp: get_lookup_def split: option.splits if_splits)
  then have "ks_str (view s) k = Some (Value e, ExpiresAt e)" "\<not> alive (c i) (ExpiresAt e)"
    by (simp_all add: view_def isExpired_alive)
  then show ?thesis
    by (fastforce simp: only_expired_def deleteExpiredLocked_def view_def)
qed

lemma only_expired_reads:
  "only_expired c s (snd (store_Get (c i) k s))"
  "only_expired c s (snd (store_TTL (c i) n k s))"
  "only_expired c s (snd (store_Exists c ks s))"
proof -
  have get: "only_expired c s (snd (store_Get (c i) k s))" for i k s
    by (auto simp: store_Get_def only_expired_delete split: lookup.split)
  have loop: "only_expired c s (snd (Exists_loop c i ks n s))" for i n s
  proof (induction ks arbitrary: i n s)
    case (Cons k ks)
    then show ?case
      using only_expired_trans [OF get Cons.IH] by (simp add: case_prod_beta)
  qed simp
  show "only_expired c s (snd (store_Get (c i) k s))" by (rule get)
  show "only_expired c s (snd (store_TTL (c i) n k s))"
    by (auto simp: store_TTL_def only_expired_delete split: lookup.split gotime.split)
  show "only_expired c s (snd (store_Exists c ks s))"
    unfolding store_Exists_def by (rule loop)
qed

lemma only_expired_agree: "only_expired c s s' \<Longrightarrow> no_ttl K (view s) \<Longrightarrow> agree K (view s) (view s')"
  unfolding agree_def
proof (intro conjI ballI)
  fix k assume a: "only_expired c s s'" "no_ttl K (view s)" "k \<in> K"
  have "ks_str (view s') k = ks_str (view s) k
      \<or> (\<exists>v x i. ks_str (view s) k = Some (v, x) \<and> \<not> alive (c i) x)"
    using a(1) by (auto simp: only_expired_def)
  then show "ks_str (view s) k = ks_str (view s') k"
    using no_ttlD [OF a(2,3)] by (auto simp: alive_def)
qed (simp_all add: only_expired_def)

text \<open>The sampler deletes what has expired, and what the index lists without being there.\<close>

lemma sampleExpire_agree:
  assumes "no_ttl K (view s)"
  shows "agree K (view s) (view (store_sampleExpire c ord s))"
    "maxMemoryBytes (store_sampleExpire c ord s) = maxMemoryBytes s"
proof -
  define P where "P s' \<longleftrightarrow> agree K (view s) (view s') \<and> maxMemoryBytes s' = maxMemoryBytes s" for s'
  have "P (store_sampleExpire c ord s)"
  proof (rule sampleExpire_induct)
    fix u k e r assume P: "P u" and e: "map_of (data u) k = Some e" "isExpired (c r) e"
    have "ks_str (view u) k = Some (Value e, ExpiresAt e)" using e(1) by (simp add: view_def)
    moreover have "no_ttl K (view u)" using P assms agree_no_ttl [OF agree_sym] by (auto simp: P_def)
    ultimately have "k \<notin> K"
      using e(2) no_ttlD [of K "view u" k] by (auto simp: isExpired_alive alive_def)
    with P show "P (deleteExpiredLocked k u)"
      by (simp add: P_def view_deleteExpired agree_elsewhere)
  next
    fix u k assume "P u"
    moreover have "view (u\<lparr>expiryKeys := x\<rparr>) = view u" for x by (simp add: view_def)
    ultimately show "P (u\<lparr>expiryKeys := AList.delete k (expiryKeys u)\<rparr>)" by (simp add: P_def)
  qed (simp add: P_def)
  then show "agree K (view s) (view (store_sampleExpire c ord s))"
    "maxMemoryBytes (store_sampleExpire c ord s) = maxMemoryBytes s" by (simp_all add: P_def)
qed

section \<open>The dispatch\<close>

definition loggedCommands :: "string list" where
  "loggedCommands =
     [''SET'', ''DEL'', ''EXPIRE'', ''FLUSHALL'', ''INCR'', ''DECR'', ''INCRBY'', ''DECRBY'',
      ''LPUSH'', ''RPUSH'', ''HSET'', ''HDEL'']"

definition logged_args :: "string \<Rightarrow> Value list \<Rightarrow> string list" where
  "logged_args name args = (if name = ''FLUSHALL'' then [] else argStrings args)"

lemma dispatch_writes:
  "toUpper cmd = ''SET'' \<Longrightarrow> dispatch e cmd args w h st = writes st (handle_set e args w h)"
  "toUpper cmd = ''DEL'' \<Longrightarrow> dispatch e cmd args w h st = writes st (handle_del e args w h)"
  "toUpper cmd = ''EXPIRE'' \<Longrightarrow> dispatch e cmd args w h st = writes st (handle_expire e args w h)"
  "toUpper cmd = ''FLUSHALL'' \<Longrightarrow> dispatch e cmd args w h st = writes st (handle_flushAll e w h)"
  "toUpper cmd = ''INCR'' \<Longrightarrow> dispatch e cmd args w h st = writes st (handle_incrBy e args w h 1 False)"
  "toUpper cmd = ''DECR'' \<Longrightarrow> dispatch e cmd args w h st = writes st (handle_incrBy e args w h (-1) False)"
  "toUpper cmd = ''INCRBY'' \<Longrightarrow> dispatch e cmd args w h st = writes st (handle_incrBy e args w h 0 True)"
  "toUpper cmd = ''DECRBY'' \<Longrightarrow> dispatch e cmd args w h st = writes st (handle_decrBy e args w h)"
  "toUpper cmd = ''LPUSH'' \<Longrightarrow> dispatch e cmd args w h st =
     writes st (handle_push e args w h ''LPUSH'' ''lpush'' store_LPush)"
  "toUpper cmd = ''RPUSH'' \<Longrightarrow> dispatch e cmd args w h st =
     writes st (handle_push e args w h ''RPUSH'' ''rpush'' store_RPush)"
  "toUpper cmd = ''HSET'' \<Longrightarrow> dispatch e cmd args w h st = writes st (handle_hset e args w h)"
  "toUpper cmd = ''HDEL'' \<Longrightarrow> dispatch e cmd args w h st = writes st (handle_hdel e args w h)"
  by (simp_all add: dispatch_def Let_def)

lemmas faithful_all = faithful_set faithful_del faithful_expire faithful_flushAll faithful_incr
  faithful_incrby faithful_collections faithful_hdel

lemma dispatch_faithful:
  assumes "dispatch e cmd args w h st = Returns (w', h', st')" "toUpper cmd \<in> set loggedCommands"
  shows "faithful e (toUpper cmd) (logged_args (toUpper cmd) args) h h'"
proof -
  have f: "faithful e n la h h'" if "faithful e n la h (snd p)" "writes st p = Returns (w', h', st')"
    for n la and p :: "string \<times> Handler"
    using that by (auto simp: writes_def)
  have "toUpper cmd = ''SET'' \<or> toUpper cmd = ''DEL'' \<or> toUpper cmd = ''EXPIRE''
    \<or> toUpper cmd = ''FLUSHALL'' \<or> toUpper cmd = ''INCR'' \<or> toUpper cmd = ''DECR''
    \<or> toUpper cmd = ''INCRBY'' \<or> toUpper cmd = ''DECRBY'' \<or> toUpper cmd = ''LPUSH''
    \<or> toUpper cmd = ''RPUSH'' \<or> toUpper cmd = ''HSET'' \<or> toUpper cmd = ''HDEL''"
    using assms(2) by (simp add: loggedCommands_def)
  then show ?thesis
    using assms(1) by (elim disjE) (simp_all add: dispatch_writes logged_args_def f [OF faithful_all(1)]
      f [OF faithful_all(2)] f [OF faithful_all(3)] f [OF faithful_all(4)] f [OF faithful_all(5)]
      f [OF faithful_all(6)] f [OF faithful_all(7)] f [OF faithful_all(8)] f [OF faithful_all(9)]
      f [OF faithful_all(10)] f [OF faithful_all(11)] f [OF faithful_all(12)])
qed

lemma ceiling_reads:
  "store_Get now k s = (x, s') \<Longrightarrow> maxMemoryBytes s' = maxMemoryBytes s"
  "store_TTL now n k s = (y, s') \<Longrightarrow> maxMemoryBytes s' = maxMemoryBytes s"
  "store_Exists c ks s = (z, s') \<Longrightarrow> maxMemoryBytes s' = maxMemoryBytes s"
  using maxMemory_ops(3) [of now k s] maxMemory_ops(4) [of now n k s]
    maxMemory_loops(2) [of c 0 ks 0 s, folded store_Exists_def] by simp_all

lemma dispatch_reads:
  assumes "dispatch e cmd args w h st = Returns (w', h', st')" "toUpper cmd \<notin> set loggedCommands"
  shows "h_aof h' = h_aof h \<and> only_expired (clk e) (h_store h) (h_store h')
    \<and> (store_inv (h_store h) \<longrightarrow> store_inv (h_store h'))
    \<and> maxMemoryBytes (h_store h') = maxMemoryBytes (h_store h)"
proof -
  note read = only_expired_reads store_inv_Get store_inv_TTL store_inv_Exists
  have get: "h_aof (snd (handle_get e args w h)) = h_aof h
      \<and> only_expired (clk e) (h_store h) (h_store (snd (handle_get e args w h)))
      \<and> (store_inv (h_store h) \<longrightarrow> store_inv (h_store (snd (handle_get e args w h))))
      \<and> maxMemoryBytes (h_store (snd (handle_get e args w h))) = maxMemoryBytes (h_store h)"
    using read(1) [of "clk e" "h_store h" 0 "Str (args ! 0)"]
      store_inv_Get [of "h_store h" "clk e 0" "Str (args ! 0)"]
    by (auto simp: handle_get_def dest: ceiling_reads split: prod.split option.split)
  have ttl: "h_aof (snd (handle_ttl e args w h)) = h_aof h
      \<and> only_expired (clk e) (h_store h) (h_store (snd (handle_ttl e args w h)))
      \<and> (store_inv (h_store h) \<longrightarrow> store_inv (h_store (snd (handle_ttl e args w h))))
      \<and> maxMemoryBytes (h_store (snd (handle_ttl e args w h))) = maxMemoryBytes (h_store h)"
    using read(2) [of "clk e" "h_store h" 0 "clk e 1" "Str (args ! 0)"]
      store_inv_TTL [of "h_store h" "clk e 0" "clk e 1" "Str (args ! 0)"]
    by (auto simp: handle_ttl_def dest: ceiling_reads split: prod.split)
  have exists: "h_aof (snd (handle_exists e args w h)) = h_aof h
      \<and> only_expired (clk e) (h_store h) (h_store (snd (handle_exists e args w h)))
      \<and> (store_inv (h_store h) \<longrightarrow> store_inv (h_store (snd (handle_exists e args w h))))
      \<and> maxMemoryBytes (h_store (snd (handle_exists e args w h))) = maxMemoryBytes (h_store h)"
    using read(3) [of "clk e" "h_store h" "argStrings args"]
      store_inv_Exists [of "h_store h" "clk e" "argStrings args"]
    by (auto simp: handle_exists_def dest: ceiling_reads split: prod.split)
  have slow: "h_aof (snd (handle_slowlog args w h)) = h_aof h"
    "h_store (snd (handle_slowlog args w h)) = h_store h"
    by (auto simp: handle_slowlog_def Let_def split: option.split)
  have bg: "h_aof (snd (handle_bgRewriteAOF w h)) = h_aof h"
    "h_store (snd (handle_bgRewriteAOF w h)) = h_store h"
    by (auto simp: handle_bgRewriteAOF_def)
  show ?thesis
    using assms get ttl exists slow bg
    unfolding dispatch_def Let_def loggedCommands_def
    by (auto simp: quiet_def writes_def may_panic_def split: if_splits outcome.splits prod.splits)
qed

text \<open>
  C3: Handlers log what they do. A command that writes either changes neither store nor log, or leaves the store
  that replaying its log entry at the same clock leaves, and writes exactly that entry; every
  other command leaves the log alone and changes the keyspace at most by dropping strings
  that have expired.
\<close>

theorem handlers_log_faithfully:
  assumes "dispatch e cmd args w h st = Returns (w', h', st')"
  shows "if toUpper cmd \<in> set loggedCommands
     then h_store h' = h_store h \<and> h_aof h' = h_aof h
       \<or> replayCommand (clk e 0) (h_store h) (toUpper cmd) (logged_args (toUpper cmd) args) = Inr (h_store h')
         \<and> h_aof h' = map_option
             (\<lambda>a. snd (writeLocked (os e) (toUpper cmd) (logged_args (toUpper cmd) args) a)) (h_aof h)
     else h_aof h' = h_aof h \<and> only_expired (clk e) (h_store h) (h_store h')"
  using dispatch_faithful [OF assms] dispatch_reads [OF assms] by (auto simp: faithful_def)

definition test_env :: env where
  "test_env = \<lparr>clk = (\<lambda>i. 1000 + int i), os = \<lparr>os_w = WriteOk, os_s = SyncOk\<rparr>, metrics = None,
     version = ''go'', clientAddr = ''c'', spent = 5000,
     times = \<lparr>at_unix = 1, at_slow = 2, at_event = 3\<rparr>\<rparr>"

lemma toUpper_push: "toUpper ''rpush'' = ''RPUSH''"
  by code_simp

theorem handlers_log_faithfully_witness:
  "\<exists>w' h' st'. dispatch test_env ''rpush'' (map bulkValue [''l'', ''a'']) []
       (handler_New store_New [] (Some (NewAOF [] FsyncNo))) \<lparr>Authenticated = True\<rparr> = Returns (w', h', st')
     \<and> h_aof h' = Some (snd (writeLocked (os test_env) ''RPUSH'' [''l'', ''a''] (NewAOF [] FsyncNo)))"
proof -
  let ?h = "handler_New store_New [] (Some (NewAOF [] FsyncNo))"
  let ?h' = "?h\<lparr>h_store := store_New\<lparr>lists := [(''l'', [''a''])]\<rparr>,
    h_aof := Some (snd (writeLocked (os test_env) ''RPUSH'' [''l'', ''a''] (NewAOF [] FsyncNo)))\<rparr>"
  have d: "dispatch test_env ''rpush'' (map bulkValue [''l'', ''a'']) [] ?h \<lparr>Authenticated = True\<rparr>
      = Returns (WriteInteger [] 1, ?h', \<lparr>Authenticated = True\<rparr>)"
    by (simp add: dispatch_writes toUpper_push handle_push_def mutateAndLog_def argStrings_def bulkValue_def
        handler_New_def store_RPush_def checkMemoryLocked_def store_New_def get_list_def Let_def
        writeLocked_eq test_env_def NewAOF_def reply_int_def writes_def)
  have "h_store ?h' \<noteq> h_store ?h" by (simp add: handler_New_def store_New_def)
  moreover have "''RPUSH'' \<in> set loggedCommands" by (simp add: loggedCommands_def)
  ultimately show ?thesis
    using handlers_log_faithfully [OF d] d
    by (auto simp: toUpper_push logged_args_def handler_New_def argStrings_def bulkValue_def)
qed

section \<open>The server and its log\<close>

text \<open>
  The server's handler beside a running rewrite.  A step is a whole command, during which the
  log accepts what is written to it, or a tick of the sampler or of the fsync loop, or one of the
  two critical sections of a rewrite.  \<open>K\<close> is a set of keys that never have an expiry: a step
  leaves none of them with one.  \<open>C\<close> is the memory ceiling of the store that will replay the log,
  0 for none; with a ceiling, rewrites are outside the statement
  (\<open>rewrite_loses_elements_at_ceiling\<close>).
\<close>

definition log_accepts :: "env \<Rightarrow> AOF \<Rightarrow> bool" where
  "log_accepts e a \<longleftrightarrow> writer_err a = None \<and> os_w (os e) = WriteOk \<and> os_s (os e) = SyncOk"

inductive srv_step :: "string set \<Rightarrow> int \<Rightarrow> Handler \<times> Snapshot option \<Rightarrow> Handler \<times> Snapshot option \<Rightarrow> bool"
  for K C where
  command: "Handle e cmd args w h st = Returns (w', h', st') \<Longrightarrow> h_aof h = Some a \<Longrightarrow>
     log_accepts e a \<Longrightarrow> fits (toUpper cmd # logged_args (toUpper cmd) args) \<Longrightarrow>
     no_ttl K (view (h_store h')) \<Longrightarrow> srv_step K C (h, sn) (h', sn)"
| expiry_tick: "srv_step K C (h, sn) (h\<lparr>h_store := store_sampleExpire c ord (h_store h)\<rparr>, sn)"
| fsync_tick: "h_aof h = Some a \<Longrightarrow> srv_step K C (h, sn) (h\<lparr>h_aof := Some (fsyncLoop_tick ose a)\<rparr>, sn)"
| rewrite_begin: "C \<le> 0 \<Longrightarrow> h_aof h = Some a \<Longrightarrow> Rewrite_begin s a = Inr (snap, a') \<Longrightarrow> store_inv s \<Longrightarrow>
     view s = view (h_store h) \<Longrightarrow> srv_step K C (h, sn) (h\<lparr>h_aof := Some a'\<rparr>, Some snap)"
| rewrite_finish: "h_aof h = Some a \<Longrightarrow> list_all fits (snapshot_cmds now snap) \<Longrightarrow>
     Rewrite_finish now snap io a = (r, a') \<Longrightarrow>
     srv_step K C (h, Some snap) (h\<lparr>h_aof := Some a'\<rparr>, None)"

inductive_simps srv_step_None: "srv_step K C (h, None) (h', Some snap)"

definition live_of :: "Handler \<times> Snapshot option \<Rightarrow> live" where
  "live_of x = \<lparr>mem = h_store (fst x), log = the (h_aof (fst x)), running = snd x\<rparr>"

definition srv_inv :: "string set \<Rightarrow> int \<Rightarrow> Handler \<times> Snapshot option \<Rightarrow> bool" where
  "srv_inv K C x \<longleftrightarrow> h_aof (fst x) \<noteq> None \<and> live_inv K C (live_of x)"

lemma toUpper_logged:
  "toUpper ''SET'' = ''SET'' \<and> toUpper ''DEL'' = ''DEL'' \<and> toUpper ''EXPIRE'' = ''EXPIRE''
   \<and> toUpper ''FLUSHALL'' = ''FLUSHALL'' \<and> toUpper ''INCR'' = ''INCR'' \<and> toUpper ''DECR'' = ''DECR''
   \<and> toUpper ''INCRBY'' = ''INCRBY'' \<and> toUpper ''DECRBY'' = ''DECRBY'' \<and> toUpper ''LPUSH'' = ''LPUSH''
   \<and> toUpper ''RPUSH'' = ''RPUSH'' \<and> toUpper ''HSET'' = ''HSET'' \<and> toUpper ''HDEL'' = ''HDEL''"
  by code_simp

lemma toUpper_idem: "name \<in> set loggedCommands \<Longrightarrow> toUpper name = name"
  using toUpper_logged by (auto simp: loggedCommands_def)

lemma writeLocked_accepts: "log_accepts e a \<Longrightarrow> fst (writeLocked (os e) cmd args a) = None"
  by (simp add: log_accepts_def writeLocked_eq Let_def)

lemma Handle_dispatch:
  assumes "Handle e cmd args w h st = Returns (w', h', st')"
  obtains h1 where "dispatch e cmd args w h st = Returns (w', h1, st')"
    "h_store h' = h_store h1" "h_aof h' = h_aof h1"
  using assms by (auto simp: Handle_def split: outcome.splits option.splits)

lemma command_refines:
  assumes "Handle e cmd args w h st = Returns (w', h', st')" "h_aof h = Some a" "log_accepts e a"
    "fits (toUpper cmd # logged_args (toUpper cmd) args)" "no_ttl K (view (h_store h'))" "srv_inv K C (h, sn)"
  shows "h_aof h' \<noteq> None \<and> aof_step K C (live_of (h, sn)) (live_of (h', sn))"
proof -
  obtain h1 where d: "dispatch e cmd args w h st = Returns (w', h1, st')"
    and h1: "h_store h' = h_store h1" "h_aof h' = h_aof h1"
    using Handle_dispatch [OF assms(1)] .
  have inv: "store_inv (h_store h)" "no_ttl K (view (h_store h))"
    using assms(6) by (simp_all add: srv_inv_def live_inv_def runs_def live_of_def)
  have idle: ?thesis if "h_aof h' = Some a" "agree K (view (h_store h)) (view (h_store h'))" "store_inv (h_store h')"
      "maxMemoryBytes (h_store h') = maxMemoryBytes (h_store h)"
    using aof_step.unlogged [of K "live_of (h, sn)" "h_store h'" C] that assms(2) by (simp add: live_of_def)
  show ?thesis
  proof (cases "toUpper cmd \<in> set loggedCommands")
    case False
    from dispatch_reads [OF d False] inv h1 assms(2) only_expired_agree show ?thesis
      by (intro idle) auto
  next
    case True
    let ?n = "toUpper cmd" and ?la = "logged_args (toUpper cmd) args"
    from dispatch_faithful [OF d True] consider
      "h_store h1 = h_store h" "h_aof h1 = Some a"
      | "replayCommand (clk e 0) (h_store h) ?n ?la = Inr (h_store h1)"
        "h_aof h1 = Some (snd (writeLocked (os e) ?n ?la a))"
      using assms(2) by (auto simp: faithful_def)
    then show ?thesis
    proof cases
      case 1
      with h1 inv show ?thesis by (intro idle) auto
    next
      case 2
      have "writeLocked (os e) ?n ?la a = (None, snd (writeLocked (os e) ?n ?la a))"
        using writeLocked_accepts [OF assms(3)] by (metis prod.collapse)
      with 2 h1 assms(2,4,5) toUpper_idem [OF True]
        aof_step.command [of "clk e 0" "live_of (h, sn)" ?n ?la "h_store h1" K "os e" _ C]
      show ?thesis by (simp add: live_of_def)
    qed
  qed
qed

lemma srv_step_refines:
  assumes "srv_step K C x y" "srv_inv K C x"
  shows "h_aof (fst y) \<noteq> None \<and> aof_step K C (live_of x) (live_of y)"
  using assms
proof (cases rule: srv_step.cases)
  case command
  then show ?thesis using command_refines assms(2) by simp
next
  case (expiry_tick h sn c ord)
  have inv: "store_inv (h_store h)" "no_ttl K (view (h_store h))"
    using assms(2) expiry_tick by (simp_all add: srv_inv_def live_inv_def runs_def live_of_def)
  show ?thesis
    using aof_step.unlogged [of K "live_of x" "store_sampleExpire c ord (h_store h)" C] expiry_tick assms(2)
      sampleExpire_agree [OF inv(2)] store_inv_sampleExpire [OF inv(1)]
    by (simp add: live_of_def srv_inv_def)
next
  case (fsync_tick h a sn ose)
  then show ?thesis using aof_step.fsync_tick [of K C "live_of x" ose] by (simp add: live_of_def)
next
  case (rewrite_begin h a s snap a' sn)
  then show ?thesis
    using aof_step.rewrite_begin [of C s "live_of x" snap a' K] by (simp add: live_of_def)
next
  case (rewrite_finish h a now snap io r a')
  then show ?thesis
    using aof_step.rewrite_finish [of "live_of x" snap now io r a' K C] by (simp add: live_of_def)
qed

interpretation srv: transition_invariant "srv_step K C" "srv_inv K C" for K C
  by unfold_locales (metis srv_inv_def srv_step_refines live.step_keeps)

text \<open>
  C1: The server recovers from its log. Start a server with an empty log file; let clients send any commands,
  let the sampler and the fsync ticker run and rewrites begin, finish or fail in between, and let the log
  accept its writes. Then, at every moment and at any clock, replaying the file into a fresh store
  without a memory ceiling gives all lists and hashes that the server holds, and every string whose key
  never had an expiry. If no key ever has one, this is the whole keyspace, and while nothing is rewritten
  it is also what a store with the server's own ceiling replays.
\<close>

theorem server_recovers:
  assumes "(srv_step K C)\<^sup>*\<^sup>* (handler_New (store_SetMaxMemory m store_New) pw (Some (NewAOF [] policy)), None) (h, sn)"
    "C \<le> 0 \<or> C = m \<and> K = UNIV" "h_aof h = Some a"
  shows "\<exists>s' n. aof_Replay c a (store_SetMaxMemory C store_New) = Returns (s', n)
     \<and> ks_list (view s') = ks_list (view (h_store h)) \<and> ks_hash (view s') = ks_hash (view (h_store h))
     \<and> (\<forall>k\<in>K. ks_str (view s') k = ks_str (view (h_store h)) k)"
proof -
  let ?x0 = "(handler_New (store_SetMaxMemory m store_New) pw (Some (NewAOF [] policy)), None)"
  have "live_of ?x0 = started m policy" by (simp add: live_of_def started_def handler_New_def)
  moreover have "C \<le> 0 \<or> C = m" using assms(2) by blast
  ultimately have "srv_inv K C ?x0" by (simp add: srv_inv_def live_started) (simp add: handler_New_def)
  from srv.reachable_inv [OF assms(1) this] have "live_inv K C (live_of (h, sn))" by (simp add: srv_inv_def)
  moreover have "aof_file a = aof_file (log (live_of (h, sn)))" using assms(3) by (simp add: live_of_def)
  moreover have "C \<le> 0 \<or> C = C \<and> K = UNIV" using assms(2) by blast
  ultimately show ?thesis
    using live_recovers [of K C "live_of (h, sn)" C a c] by (simp add: live_of_def agree_def)
qed

text \<open>An \<open>RPUSH\<close> of one element as a step, whatever the recorder holds.\<close>

definition pushed :: "string \<Rightarrow> (string, string list) gomap \<Rightarrow> AOF \<Rightarrow> Handler \<Rightarrow> Handler" where
  "pushed v ls a h =
     h\<lparr>h_store := store_New\<lparr>lists := AList.update ''l'' (get_list ''l'' (h_store h) @ [v]) ls\<rparr>,
       h_aof := Some (snd (writeLocked (os test_env) ''RPUSH'' [''l'', v] a)),
       h_events := map_option (Record (times test_env) ''RPUSH'' [''l'', v] (clientAddr test_env) (spent test_env))
         (h_events h)\<rparr>"

lemma pushed_simps [simp]:
  "h_store (pushed v ls a h) = store_New\<lparr>lists := AList.update ''l'' (get_list ''l'' (h_store h) @ [v]) ls\<rparr>"
  "h_aof (pushed v ls a h) = Some (snd (writeLocked (os test_env) ''RPUSH'' [''l'', v] a))"
  by (simp_all add: pushed_def)

lemma rpush_handled:
  assumes "h_aof h = Some a" "writer_err a = None" "h_store h = store_New\<lparr>lists := ls\<rparr>"
  shows "Handle test_env ''rpush'' (map bulkValue [''l'', v]) [] h st =
      Returns (WriteInteger [] (int (length (get_list ''l'' (h_store h) @ [v]))), pushed v ls a h, st)"
proof -
  define a' where "a' = snd (writeLocked (os test_env) ''RPUSH'' [''l'', v] a)"
  have "fst (writeLocked (os test_env) ''RPUSH'' [''l'', v] a) = None"
    using assms(2) by (intro writeLocked_accepts) (simp add: log_accepts_def test_env_def)
  then have e: "writeLocked (os test_env) ''RPUSH'' [''l'', v] a = (None, a')"
    by (simp add: a'_def prod_eq_iff)
  show ?thesis
    using assms(1,3) by (cases "h_events h"; cases h)
     (simp_all add: Handle_def dispatch_writes toUpper_push handle_push_def mutateAndLog_def argStrings_def
        bulkValue_def store_RPush_def checkMemoryLocked_def store_New_def Let_def
        reply_int_def writes_def e pushed_def)
qed

lemma rpush_step:
  assumes "h_aof h = Some a" "writer_err a = None" "small v" "h_store h = store_New\<lparr>lists := ls\<rparr>"
  shows "srv_step K C (h, sn) (pushed v ls a h, sn)"
proof (rule srv_step.command [OF rpush_handled [OF assms(1,2,4)] assms(1)])
  show "log_accepts test_env a" using assms(2) by (simp add: log_accepts_def test_env_def)
  show "fits (toUpper ''rpush'' # logged_args (toUpper ''rpush'') (map bulkValue [''l'', v]))"
    using assms(3) by (simp add: toUpper_push logged_args_def argStrings_def bulkValue_def fits_def
        small_def maxAlloc_def sizeofValue_def)
  show "no_ttl K (view (h_store (pushed v ls a h)))"
    by (simp add: pushed_def no_ttl_def view_def store_New_def)
qed

lemma four_steps: "r a b \<Longrightarrow> r b c \<Longrightarrow> r c d \<Longrightarrow> r d x \<Longrightarrow> r\<^sup>*\<^sup>* a x"
  by (meson converse_rtranclp_into_rtranclp r_into_rtranclp)

theorem server_recovers_witness:
  "\<exists>h a s' n. (srv_step UNIV 0)\<^sup>*\<^sup>* (handler_New (store_SetMaxMemory 0 store_New) [] (Some (NewAOF [] FsyncNo)), None) (h, None)
     \<and> h_aof h = Some a \<and> h_store h = store_New\<lparr>lists := [(''l'', [''a'', ''b''])]\<rparr>
     \<and> aof_Replay int a (store_SetMaxMemory 0 store_New) = Returns (s', n) \<and> ks_list (view s') ''l'' = Some [''a'', ''b'']"
proof -
  let ?s1 = "store_New\<lparr>lists := [(''l'', [''a''])]\<rparr>" and ?s2 = "store_New\<lparr>lists := [(''l'', [''a'', ''b''])]\<rparr>"
  let ?push = "\<lambda>v a. snd (writeLocked (os test_env) ''RPUSH'' [''l'', v] a)"
  let ?started = "\<lambda>a. a\<lparr>rewriteRunning := True, rewriting := True, rewriteBuf := []\<rparr>"
  let ?fin = "\<lambda>a. snd (Rewrite_finish 9 (store_Snapshot ?s1) RwOk a)"
  let ?a0 = "NewAOF [] FsyncNo"
  let ?h0 = "handler_New (store_SetMaxMemory 0 store_New) [] (Some ?a0)"
  let ?h1 = "pushed ''a'' [] ?a0 ?h0"
  let ?h2 = "?h1\<lparr>h_aof := Some (?started (?push ''a'' ?a0))\<rparr>"
  let ?h3 = "pushed ''b'' [(''l'', [''a''])] (?started (?push ''a'' ?a0)) ?h2"
  let ?h4 = "?h3\<lparr>h_aof := Some (?fin (?push ''b'' (?started (?push ''a'' ?a0))))\<rparr>"
  have sm: "small ''a''" "small ''b''" by (simp_all add: small_def maxAlloc_def)
  have w: "writer_err (?push v a) = None" if "writer_err a = None" for v a
    using that by (simp add: writeLocked_eq test_env_def Let_def)
  have w0: "writer_err ?a0 = None" by (simp add: NewAOF_def)
  have inv1: "store_inv ?s1"
    by (simp add: store_inv_def store_ok_def mem_ok_def store_New_def okmap_def)
  have s1: "h_store ?h1 = ?s1"
    by (simp add: handler_New_def store_SetMaxMemory_def get_list_def store_New_def)
  have s2: "h_store ?h3 = ?s2" using s1 by (simp add: get_list_def)
  have 1: "srv_step UNIV 0 (?h0, None) (?h1, None)"
    by (rule rpush_step) (simp_all add: handler_New_def store_SetMaxMemory_def store_New_def sm w0)
  have 2: "srv_step UNIV 0 (?h1, None) (?h2, Some (store_Snapshot ?s1))"
    using inv1 s1 by (intro srv_step.rewrite_begin [where a = "?push ''a'' ?a0" and s = ?s1])
      (simp_all add: Rewrite_begin_def writeLocked_eq NewAOF_def test_env_def)
  have 3: "srv_step UNIV 0 (?h2, Some (store_Snapshot ?s1)) (?h3, Some (store_Snapshot ?s1))"
    by (rule rpush_step) (use s1 sm w [OF w0] in simp_all)
  have 4: "srv_step UNIV 0 (?h3, Some (store_Snapshot ?s1)) (?h4, None)"
  proof (rule srv_step.rewrite_finish [where a = "?push ''b'' (?started (?push ''a'' ?a0))" and now = 9
          and io = RwOk and r = None])
    show "h_aof ?h3 = Some (?push ''b'' (?started (?push ''a'' ?a0)))" by simp
    show "Rewrite_finish 9 (store_Snapshot ?s1) RwOk (?push ''b'' (?started (?push ''a'' ?a0)))
      = (None, ?fin (?push ''b'' (?started (?push ''a'' ?a0))))" by (simp add: Rewrite_finish_def Let_def)
  qed (simp add: snapshot_cmds_def store_Snapshot_def store_New_def list_cmds_def chunkSize_def
        chunk_cmds.simps fits_def small_def maxAlloc_def sizeofValue_def)
  have run: "(srv_step UNIV 0)\<^sup>*\<^sup>* (?h0, None) (?h4, None)"
    by (rule four_steps [where r = "srv_step UNIV 0"]) (rule 1, rule 2, rule 3, rule 4)
  have st: "h_store ?h4 = ?s2" using s2 by simp
  have ao: "h_aof ?h4 = Some (?fin (?push ''b'' (?started (?push ''a'' ?a0))))" by simp
  obtain s' n where rep: "aof_Replay int (?fin (?push ''b'' (?started (?push ''a'' ?a0)))) (store_SetMaxMemory 0 store_New) = Returns (s', n)"
    and v: "ks_list (view s') = ks_list (view (h_store ?h4))"
    using server_recovers [OF run _ ao, of int] by auto
  have ks: "ks_list (view s') ''l'' = Some [''a'', ''b'']"
    unfolding v st by (simp add: view_def)
  show ?thesis by (intro exI conjI) (rule run, rule ao, rule st, rule rep, rule ks)
qed

end
