(* ===== verification/Handler_Replies.thy ===== *)
theory Handler_Replies
  imports Handler_Log Events_Streams
begin

text \<open>
  What a client reads back: every command is answered by exactly one reply, an error reply
  means that nothing happened, and where that breaks.
\<close>

section \<open>Replies\<close>

datatype reply =
    RSimple string | RErr string | RInt int | RBulk string | RNull | RArr "reply list"

fun encode :: "reply \<Rightarrow> string" where
  "encode (RSimple s) = CHR ''+'' # s @ crlf"
| "encode (RErr s) = CHR ''-'' # s @ crlf"
| "encode (RInt n) = CHR '':'' # itoa n @ crlf"
| "encode (RBulk s) = bulkBytes s"
| "encode RNull = CHR 0x24 # ''-1'' @ crlf"
| "encode (RArr rs) = CHR ''*'' # itoa (int (length rs)) @ crlf @ concat (map encode rs)"

fun value_of :: "reply \<Rightarrow> Value" where
  "value_of (RSimple s) = MkValue (CHR ''+'') s 0 []"
| "value_of (RErr s) = MkValue (CHR ''-'') s 0 []"
| "value_of (RInt n) = MkValue (CHR '':'') [] n []"
| "value_of (RBulk s) = bulkValue s"
| "value_of RNull = MkValue (CHR 0x24) [] (-1) []"
| "value_of (RArr rs) = MkValue (CHR ''*'') [] 0 (map value_of rs)"

text \<open>Texts on one line; numbers and sizes that a client of the same protocol accepts.\<close>

definition one_line :: "string \<Rightarrow> bool" where
  "one_line s \<longleftrightarrow> CHR 0x0A \<notin> set s"

fun lines :: "reply \<Rightarrow> bool" where
  "lines (RSimple s) = one_line s"
| "lines (RErr s) = one_line s"
| "lines (RArr rs) = list_all lines rs"
| "lines _ = True"

fun sizes :: "reply \<Rightarrow> bool" where
  "sizes (RInt n) = int64 n"
| "sizes (RBulk s) = small s"
| "sizes (RArr rs) = (int (length rs) * sizeofValue \<le> maxAlloc \<and> list_all sizes rs)"
| "sizes _ = True"

fun is_err :: "reply \<Rightarrow> bool" where
  "is_err (RErr s) = True"
| "is_err _ = False"

lemma one_line_append [simp]: "one_line (s @ t) \<longleftrightarrow> one_line s \<and> one_line t"
  by (auto simp: one_line_def)

lemma one_line_quoted [simp]: "one_line (quoted s) \<longleftrightarrow> one_line s"
  by (simp add: one_line_def quoted_def)

lemma ParseArray_encode:
  "(\<And>r t. r \<in> set rs \<Longrightarrow> Parse (encode r @ t) = POk (value_of r) t) \<Longrightarrow>
     ParseArray (length rs) (concat (map encode rs) @ t) = POk (map value_of rs) t"
  by (induction rs) (simp_all add: ParseArray_Suc)

lemma Parse_encode: "lines r \<Longrightarrow> sizes r \<Longrightarrow> Parse (encode r @ t) = POk (value_of r) t"
proof (induction r arbitrary: t)
  case (RArr rs)
  have "Parse (encode r @ t) = POk (value_of r) t" if "r \<in> set rs" for r t
    using RArr that by (auto simp: list_all_iff)
  then have "ParseArray (length rs) (concat (map encode rs) @ t) = POk (map value_of rs) t"
    by (rule ParseArray_encode)
  moreover have "int64 (int (length rs))" "makeslice_ok (int (length rs)) sizeofValue"
    using RArr.prems(2) by (simp_all add: sizeofValue_def maxAlloc_def int64_def makeslice_ok_def)
  ultimately show ?case by (simp add: Parse_unfold readLine_typ)
qed (simp_all add: one_line_def Parse_simple Parse_integer Parse_bulk bulkBytes_def Parse_null [simplified])

section \<open>Types of replies\<close>

fun is_int :: "reply \<Rightarrow> bool" where
  "is_int (RInt n) = True" | "is_int _ = False"

fun is_simple :: "reply \<Rightarrow> bool" where
  "is_simple (RSimple s) = True" | "is_simple _ = False"

fun is_bulk :: "reply \<Rightarrow> bool" where
  "is_bulk (RBulk s) = True" | "is_bulk _ = False"

fun is_bulks :: "reply \<Rightarrow> bool" where
  "is_bulks (RArr rs) = list_all is_bulk rs" | "is_bulks _ = False"

fun is_page :: "reply \<Rightarrow> bool" where
  "is_page (RArr [r, rs]) = (is_bulk r \<and> is_bulks rs)" | "is_page _ = False"

fun is_entry :: "reply \<Rightarrow> bool" where
  "is_entry (RArr [i, t, d, c, a]) = (is_int i \<and> is_int t \<and> is_int d \<and> is_bulks c \<and> is_bulk a)"
| "is_entry _ = False"

fun is_entries :: "reply \<Rightarrow> bool" where
  "is_entries (RArr rs) = list_all is_entry rs" | "is_entries _ = False"

text \<open>What a command answers if it is not an error.\<close>

definition reply_ty :: "string \<Rightarrow> reply \<Rightarrow> bool" where
  "reply_ty name r =
     (if name = ''PING'' then is_simple r \<or> is_bulk r
      else if name \<in> set [''SET'', ''FLUSHALL'', ''AUTH'', ''BGREWRITEAOF''] then is_simple r
      else if name \<in> set [''DEL'', ''EXISTS'', ''EXPIRE'', ''TTL'', ''INCR'', ''DECR'', ''INCRBY'', ''DECRBY'',
                          ''LPUSH'', ''RPUSH'', ''HSET'', ''HDEL''] then is_int r
      else if name \<in> set [''GET'', ''HGET''] then is_bulk r \<or> r = RNull
      else if name \<in> set [''ECHO'', ''INFO''] then is_bulk r
      else if name \<in> set [''KEYS'', ''LRANGE'', ''HOTKEYS''] then is_bulks r
      else if name = ''SCAN'' then is_page r
      else if name = ''SLOWLOG'' then is_int r \<or> is_simple r \<or> is_entries r
      else name = ''COMMAND'' \<and> (is_int r \<or> r = RArr []))"

lemma bulks_map [simp]: "list_all is_bulk (map RBulk ss)"
  by (simp add: list_all_iff)

lemma reply_ty_simps [simp]:
  "reply_ty ''PING'' (RSimple s)" "reply_ty ''PING'' (RBulk s)" "reply_ty ''SET'' (RSimple s)"
  "reply_ty ''FLUSHALL'' (RSimple s)" "reply_ty ''AUTH'' (RSimple s)" "reply_ty ''BGREWRITEAOF'' (RSimple s)"
  "reply_ty ''DEL'' (RInt n)" "reply_ty ''EXISTS'' (RInt n)" "reply_ty ''EXPIRE'' (RInt n)" "reply_ty ''TTL'' (RInt n)"
  "reply_ty ''INCR'' (RInt n)" "reply_ty ''DECR'' (RInt n)" "reply_ty ''INCRBY'' (RInt n)" "reply_ty ''DECRBY'' (RInt n)"
  "reply_ty ''LPUSH'' (RInt n)" "reply_ty ''RPUSH'' (RInt n)" "reply_ty ''HSET'' (RInt n)" "reply_ty ''HDEL'' (RInt n)"
  "reply_ty ''GET'' (RBulk s)" "reply_ty ''GET'' RNull" "reply_ty ''HGET'' (RBulk s)" "reply_ty ''HGET'' RNull"
  "reply_ty ''ECHO'' (RBulk s)" "reply_ty ''INFO'' (RBulk s)" "reply_ty ''KEYS'' (RArr (map RBulk ss))"
  "reply_ty ''LRANGE'' (RArr (map RBulk ss))" "reply_ty ''HOTKEYS'' (RArr (map RBulk ss))"
  "reply_ty ''SCAN'' (RArr [RBulk s, RArr (map RBulk ss)])" "reply_ty ''SLOWLOG'' (RInt n)"
  "reply_ty ''SLOWLOG'' (RSimple s)" "reply_ty ''COMMAND'' (RInt n)" "reply_ty ''COMMAND'' (RArr [])"
  by (simp_all add: reply_ty_def)

section \<open>The answer of a handler\<close>

definition accepts :: "env \<Rightarrow> Handler \<Rightarrow> bool" where
  "accepts e h \<longleftrightarrow> (case h_aof h of None \<Rightarrow> True | Some a \<Rightarrow> log_accepts e a)"

text \<open>The texts of the operating system's errors fit on one line.\<close>

definition os_lines :: "env \<Rightarrow> Handler \<Rightarrow> bool" where
  "os_lines e h \<longleftrightarrow> (\<forall>a name args err. h_aof h = Some a \<longrightarrow>
     fst (writeLocked (os e) name args a) = Some err \<longrightarrow> one_line (aof_err_Error err))"

text \<open>
  One reply is written, an error or one of the type \<open>T\<close>; with an error, and a log that accepts,
  nothing has changed.
\<close>

definition answers :: "(reply \<Rightarrow> bool) \<Rightarrow> env \<Rightarrow> Handler \<Rightarrow> string \<Rightarrow> string \<times> Handler \<Rightarrow> bool" where
  "answers T e h w res \<longleftrightarrow>
     (\<exists>r. fst res = w @ encode r \<and> lines r \<and> (is_err r \<or> T r) \<and> (is_err r \<longrightarrow> accepts e h \<longrightarrow> snd res = h))"

named_theorems answer_intros

lemma answers_texts [answer_intros]:
  "one_line msg \<Longrightarrow> answers T e h w (WriteError w msg, h)"
  "one_line msg \<Longrightarrow> T (RSimple msg) \<Longrightarrow> answers T e h w (WriteSimpleString w msg, h')"
  unfolding answers_def
  by (rule exI [of _ "RErr msg"], simp add: WriteError_def)
    (rule exI [of _ "RSimple msg"], simp add: WriteSimpleString_def)

lemma answers_values [answer_intros]:
  "T (RInt n) \<Longrightarrow> answers T e h w (WriteInteger w n, h')"
  "T (RBulk s) \<Longrightarrow> answers T e h w (WriteBulkString w s, h')"
  "T RNull \<Longrightarrow> answers T e h w (WriteNullBulk w, h')"
  unfolding answers_def
  by (rule exI [of _ "RInt n"], simp add: WriteInteger_def)
    (rule exI [of _ "RBulk s"], simp add: WriteBulkString_bytes,
     rule exI [of _ RNull], simp add: WriteNullBulk_def)

lemma WriteArray_encode: "WriteArray w ss = w @ encode (RArr (map RBulk ss))"
  by (simp add: WriteArray_bytes arrayBytes_def comp_def)

lemma answers_array [answer_intros]: "T (RArr (map RBulk ss)) \<Longrightarrow> answers T e h w (WriteArray w ss, h')"
  unfolding answers_def
  by (rule exI [of _ "RArr (map RBulk ss)"]) (simp add: WriteArray_encode list_all_iff del: encode.simps(6))

lemma answers_scan [answer_intros]:
  assumes "T (RArr [RBulk s, RArr (map RBulk ks)])"
  shows "answers T e h w (WriteArray (WriteBulkString (w @ ''*2'' @ crlf) s) ks, h')"
proof -
  have "itoa 2 = ''2''" by code_simp
  with assms show ?thesis
    unfolding answers_def
    by (intro exI [of _ "RArr [RBulk s, RArr (map RBulk ks)]"])
      (simp add: WriteArray_encode WriteBulkString_bytes list_all_iff)
qed

lemmas answers_scan_simp [answer_intros] = answers_scan [simplified]

lemma one_line_store_err [simp]: "one_line (store_err_Error err)"
  by (cases err) (simp_all add: quoted_def, simp_all add: one_line_def)

lemma one_line_fixed [simp]: "one_line notInteger" "one_line syntaxError"
  "one_line (wrongArgs name) \<longleftrightarrow> one_line name"
  by (simp_all add: notInteger_def syntaxError_def wrongArgs_def) (simp_all add: one_line_def quoted_def)

lemma mutateAndLog_error:
  assumes "mutateAndLog (os e) name largs f h = (Some err, x, h')"
  shows "os_lines e h \<Longrightarrow> one_line (herr_Error err)" "accepts e h \<Longrightarrow> h' = h"
proof -
  consider (store) "h' = h" "\<exists>se. err = HStore se"
    | (log) a ae where "h_aof h = Some a" "fst (writeLocked (os e) name largs a) = Some ae" "err = HAof ae"
    using assms by (auto simp: mutateAndLog_def Let_def split: sum.splits if_splits option.splits prod.splits)
  note cs = this
  from cs show "one_line (herr_Error err)" if "os_lines e h"
    using that by cases (auto simp: os_lines_def)
  from cs show "h' = h" if "accepts e h"
    using that writeLocked_accepts [of e] by cases (auto simp: accepts_def)
qed

lemma answers_store_err:
  assumes "mutateAndLog (os e) name largs f h = (Some err, x, h')" "os_lines e h"
  shows "answers T e h w (snd (writeStoreErr w (Some err)), h')"
proof -
  note m = mutateAndLog_error [OF assms(1)]
  define msg where "msg = (if err = HStore ErrOOM
    then ''OOM command not allowed when used memory > '' @ quoted ''maxmemory'' else ''ERR '' @ herr_Error err)"
  have "one_line msg"
    using m(1) [OF assms(2)] by (simp add: msg_def) (simp add: one_line_def quoted_def)
  moreover have "snd (writeStoreErr w (Some err)) = w @ encode (RErr msg)"
    by (simp add: writeStoreErr_def msg_def WriteError_def)
  ultimately show ?thesis
    unfolding answers_def using m(2) by (intro exI [of _ "RErr msg"]) simp
qed

lemma answers_reply_int [answer_intros]:
  assumes "os_lines e h" "\<And>n. T (RInt n)"
  shows "answers T e h w (reply_int w (mutateAndLog (os e) name largs f h))"
proof -
  obtain err x h' where m: "mutateAndLog (os e) name largs f h = (err, x, h')" by (metis prod.exhaust)
  show ?thesis
  proof (cases err)
    case None
    then show ?thesis by (simp add: m reply_int_def answers_values assms(2))
  next
    case (Some er)
    with answers_store_err [of e name largs f h er x h' T w] assms m show ?thesis
      by (simp add: reply_int_def)
  qed
qed

section \<open>Every handler\<close>

lemma one_line_names: "one_line ''set''" "one_line ''get''" "one_line ''del''" "one_line ''exists''"
  "one_line ''expire''" "one_line ''ttl''" "one_line ''keys''" "one_line ''scan''" "one_line ''incr''"
  "one_line ''decr''" "one_line ''incrby''" "one_line ''decrby''" "one_line ''lpush''" "one_line ''rpush''"
  "one_line ''lrange''" "one_line ''hset''" "one_line ''hget''" "one_line ''hdel''" "one_line ''echo''"
  "one_line ''auth''" "one_line ''slowlog''" "one_line ''OK''" "one_line ''PONG''"
  "one_line ''ERR Client sent AUTH, but no password is set''"
  "one_line ''WRONGPASS invalid username-password pair''" "one_line ''ERR invalid cursor''"
  "one_line ''ERR AOF is not enabled''" "one_line ''Background append only file rewriting started''"
  "one_line ''ERR SLOWLOG is not enabled''" "one_line ''ERR HOTKEYS is not enabled''"
  "one_line ''ERR unknown SLOWLOG subcommand''" "one_line ''ERR unknown command ''"
  by (simp_all add: one_line_def)

lemmas answer_rules = answer_intros one_line_names one_line_fixed(1,2) one_line_fixed(3) [THEN iffD2]

lemma set_opts_one_line: "set_opts rest ttl = Inl msg \<Longrightarrow> one_line msg"
  by (induction rest ttl rule: set_opts.induct) (auto split: if_splits list.splits option.splits)

lemma scan_opts_one_line: "scan_opts rest p n = Inl msg \<Longrightarrow> one_line msg"
  by (induction rest p n rule: scan_opts.induct) (auto split: if_splits list.splits option.splits)

lemma answers_set: "os_lines e h \<Longrightarrow> answers (reply_ty ''SET'') e h w (handle_set e args w h)"
proof -
  assume ol: "os_lines e h"
  let ?m = "\<lambda>ttl. mutateAndLog (os e) ''SET'' (argStrings args)
      (set_mut (clk e 0) (Str (args ! 0)) (Str (args ! 1)) ttl) h"
  have run: "answers (reply_ty ''SET'') e h w (case ?m ttl of (Some err, _, h') \<Rightarrow> (snd (writeStoreErr w (Some err)), h')
      | (None, _, h') \<Rightarrow> (WriteSimpleString w ''OK'', h'))" for ttl
  proof -
    obtain err x h' where m: "?m ttl = (err, x, h')" by (metis prod.exhaust)
    show ?thesis
      using answers_store_err [OF _ ol, of "''SET''"] m by (cases err) (auto intro: answer_rules)
  qed
  show ?thesis
    unfolding handle_set_def
    using run by (auto intro!: answer_rules dest: set_opts_one_line split: sum.split)
qed

lemma answers_ignored:
  "(\<And>n. T (RInt n)) \<Longrightarrow> answers T e h w (case mutateAndLog ose name la f h of (_, n, h') \<Rightarrow> (WriteInteger w (g n), h'))"
  "(\<And>n. T (RInt n)) \<Longrightarrow> answers T e h w (case mutateAndLog ose name la f2 h of (_, x, h') \<Rightarrow> (if P x then WriteInteger w a else WriteInteger w b, h'))"
  "T (RSimple ''OK'') \<Longrightarrow> answers T e h w (case mutateAndLog ose name la f3 h of (_, _, h') \<Rightarrow> (WriteSimpleString w ''OK'', h'))"
  by (auto split: prod.split intro: answer_rules)

lemma answers_handlers:
  "answers (reply_ty ''GET'') e h w (handle_get e args w h)"
  "answers (reply_ty ''EXISTS'') e h w (handle_exists e args w h)"
  "answers (reply_ty ''TTL'') e h w (handle_ttl e args w h)"
  "answers (reply_ty ''DEL'') e h w (handle_del e args w h)"
  "answers (reply_ty ''EXPIRE'') e h w (handle_expire e args w h)"
  "answers (reply_ty ''FLUSHALL'') e h w (handle_flushAll e w h)"
  "answers (reply_ty ''HDEL'') e h w (handle_hdel e args w h)"
  "answers (reply_ty ''BGREWRITEAOF'') e h w (handle_bgRewriteAOF w h)"
  unfolding handle_get_def handle_exists_def handle_ttl_def handle_del_def handle_expire_def
    handle_flushAll_def handle_hdel_def handle_bgRewriteAOF_def
  by (auto intro: answer_rules answers_ignored split: prod.split option.split simp del: argStrings_simps)

lemma answers_counters:
  assumes "os_lines e h" "\<And>n. T (RInt n)"
  shows "answers T e h w (handle_incrBy e args w h d rd)" "answers T e h w (handle_decrBy e args w h)"
  using assms unfolding handle_incrBy_def handle_decrBy_def Let_def
  by (auto intro: answer_rules split: option.split)

lemma answers_collections:
  assumes "os_lines e h" "\<And>n. T (RInt n)"
  shows "one_line low \<Longrightarrow> answers T e h w (handle_push e args w h name low op1)"
    "answers T e h w (handle_hset e args w h)"
  using assms unfolding handle_push_def handle_hset_def by (auto intro: answer_rules)

lemma answers_quiet:
  "answers (reply_ty ''PING'') e h w (handle_ping args w, h)"
  "answers (reply_ty ''ECHO'') e h w (handle_echo args w, h)"
  "answers (reply_ty ''KEYS'') e h w (handle_keys e2 args w h, h)"
  "answers (reply_ty ''HGET'') e h w (handle_hget args w h, h)"
  "answers (reply_ty ''INFO'') e h w (handle_info e2 w h, h)"
  "answers (reply_ty ''HOTKEYS'') e h w (handle_hotkeys e2 args w h, h)"
  "answers (reply_ty ''COMMAND'') e h w (handle_command args w, h)"
  "answers (reply_ty ''AUTH'') e h w (fst (handle_auth args w h st), h)"
  unfolding handle_ping_def handle_echo_def handle_keys_def handle_hget_def handle_info_def
    handle_hotkeys_def handle_command_def handle_auth_def
  by (auto intro!: answer_rules split: option.split)

lemma answers_unknown:
  assumes "one_line cmd"
  shows "answers T e h w (WriteError w (''ERR unknown command '' @ quoted cmd), h)"
  by (rule answers_texts(1)) (use assms in \<open>simp add: one_line_def quoted_def\<close>)

lemma answers_panicky:
  "handle_scan e2 args w h = Returns w' \<Longrightarrow> answers (reply_ty ''SCAN'') e h w (w', h)"
  "handle_lrange args w h = Returns w' \<Longrightarrow> answers (reply_ty ''LRANGE'') e h w (w', h)"
  unfolding handle_scan_def handle_lrange_def
  by (auto intro!: answer_rules dest: scan_opts_one_line split: if_splits option.splits sum.splits outcome.splits)

fun slow_reply :: "SlowEntry \<Rightarrow> reply" where
  "slow_reply e = RArr [RInt (se_ID e), RInt (se_Time e div second), RInt (se_DurationUs e),
     RArr (map RBulk (se_Command e # se_Args e)), RBulk (se_ClientAddr e)]"

lemma write_slow_entries_encode: "write_slow_entries w es = w @ concat (map (encode \<circ> slow_reply) es)"
proof (induction es arbitrary: w)
  case (Cons e es)
  have "itoa 5 = ''5''" by code_simp
  with Cons show ?case
    by (simp add: Let_def WriteInteger_def WriteBulkString_bytes WriteArray_encode)
qed simp

lemma slowlog_reply_encode:
  "slowlog_reply n w r = w @ encode (RArr (map slow_reply (SlowlogGet n r)))"
  by (simp add: slowlog_reply_def Let_def write_slow_entries_encode del: slow_reply.simps)

lemma answers_slowlog_reply: "answers (reply_ty ''SLOWLOG'') e h w (slowlog_reply n w r, h')"
  unfolding answers_def slowlog_reply_encode
  by (rule exI [of _ "RArr (map slow_reply (SlowlogGet n r))"]) (simp add: list_all_iff reply_ty_def)

lemma answers_slowlog: "answers (reply_ty ''SLOWLOG'') e h w (handle_slowlog args w h)"
  unfolding handle_slowlog_def Let_def
  by (auto intro!: answer_rules answers_slowlog_reply split: option.split)

lemma dispatch_answers:
  assumes "dispatch e cmd args w h st = Returns (w', h', st')" "one_line cmd" "os_lines e h"
  shows "answers (reply_ty (toUpper cmd)) e h w (w', h')"
proof -
  have p: "writes st p = Returns (w', h', st') \<Longrightarrow> answers T e h w p \<Longrightarrow> answers T e h w (w', h')"
    for p :: "string \<times> Handler" and T by (cases p) (simp add: writes_def)
  have q: "quiet h st x = Returns (w', h', st') \<Longrightarrow> answers T e h w (x, h) \<Longrightarrow> answers T e h w (w', h')"
    for x T by (simp add: quiet_def)
  have m: "may_panic h st x = Returns (w', h', st') \<Longrightarrow> (\<And>y. x = Returns y \<Longrightarrow> answers T e h w (y, h))
    \<Longrightarrow> answers T e h w (w', h')" for x T by (auto simp: may_panic_def split: outcome.splits)
  have a: "(case handle_auth args w h st of (w', state') \<Rightarrow> Returns (w', h, state')) = Returns (w', h', st')
    \<Longrightarrow> answers (reply_ty ''AUTH'') e h w (w', h')"
    using answers_quiet(8) [of e h w args st] by (auto split: prod.splits)
  note w = p [OF _ answers_set [OF assms(3)]] p [OF _ answers_handlers(1)] p [OF _ answers_handlers(2)]
    p [OF _ answers_handlers(3)] p [OF _ answers_handlers(4)] p [OF _ answers_handlers(5)]
    p [OF _ answers_handlers(6)] p [OF _ answers_handlers(7)] p [OF _ answers_handlers(8)]
    p [OF _ answers_counters(1) [where T = "reply_ty ''INCR''", OF assms(3) reply_ty_simps(11)]] p [OF _ answers_counters(1) [where T = "reply_ty ''DECR''", OF assms(3) reply_ty_simps(12)]]
    p [OF _ answers_counters(1) [where T = "reply_ty ''INCRBY''", OF assms(3) reply_ty_simps(13)]] p [OF _ answers_counters(2) [where T = "reply_ty ''DECRBY''", OF assms(3) reply_ty_simps(14)]]
    p [OF _ answers_collections(1) [where T = "reply_ty ''LPUSH''", OF assms(3) reply_ty_simps(15)]] p [OF _ answers_collections(1) [where T = "reply_ty ''RPUSH''", OF assms(3) reply_ty_simps(16)]]
    p [OF _ answers_collections(2) [where T = "reply_ty ''HSET''", OF assms(3) reply_ty_simps(17)]] p [OF _ answers_slowlog]
  note r = q [OF _ answers_quiet(1)] q [OF _ answers_quiet(2)] q [OF _ answers_quiet(3)]
    q [OF _ answers_quiet(4)] q [OF _ answers_quiet(5)] q [OF _ answers_quiet(6)]
    q [OF _ answers_quiet(7)] q [OF _ answers_unknown [where T = "reply_ty (toUpper cmd)", OF assms(2)], simplified]
    m [OF _ answers_panicky(1)] m [OF _ answers_panicky(2)] a
  show ?thesis
    using assms(1) unfolding dispatch_def Let_def
    by (auto split: if_splits dest: w r intro: one_line_names)
qed

section \<open>Properties\<close>

definition knownCommands :: "string list" where
  "knownCommands = loggedCommands @
     [''PING'', ''ECHO'', ''AUTH'', ''GET'', ''EXISTS'', ''TTL'', ''KEYS'', ''SCAN'', ''LRANGE'', ''HGET'',
      ''INFO'', ''BGREWRITEAOF'', ''SLOWLOG'', ''HOTKEYS'', ''COMMAND'']"

lemma known_one_line: "list_all one_line knownCommands"
  by (simp add: knownCommands_def loggedCommands_def one_line_def)

lemma dispatch_unknown:
  "toUpper cmd \<notin> set knownCommands \<Longrightarrow>
     dispatch e cmd args w h st = quiet h st (WriteError w (''ERR unknown command '' @ quoted cmd))"
  by (simp add: dispatch_def knownCommands_def loggedCommands_def)

lemma upperChar_LF: "upperChar (CHR 0x0A) = CHR 0x0A"
  by code_simp

lemma toUpper_LF: "CHR 0x0A \<in> set s \<Longrightarrow> CHR 0x0A \<in> set (toUpper s)"
proof (induction s rule: toUpper.induct)
  case (2 c)
  then show ?case by (auto simp: upperChar_LF toUpper.simps(2))
next
  case (3 c d cs)
  then show ?case by (auto simp: toUpper.simps(3) upperChar_LF)
qed simp

lemma known_name_one_line: "toUpper cmd \<in> set knownCommands \<Longrightarrow> one_line cmd"
  using known_one_line toUpper_LF by (auto simp: one_line_def list_all_iff)

lemma handle_lrange_returns: "\<exists>w'. handle_lrange args w h = Returns w'"
  by (auto simp: handle_lrange_def LRange_filter Let_def split: option.split)

text \<open>Only \<open>SCAN\<close> can panic.\<close>

lemma dispatch_panics:
  assumes "dispatch e cmd args w h st = Panics"
  shows "toUpper cmd = ''SCAN''"
proof (rule ccontr)
  assume n: "toUpper cmd \<noteq> ''SCAN''"
  have q: "quiet h st x \<noteq> Panics" "writes st p \<noteq> Panics" for x and p :: "string \<times> Handler"
    by (cases p; simp add: quiet_def writes_def)+
  have m: "may_panic h st (handle_lrange args w h) \<noteq> Panics"
    using handle_lrange_returns [of args w h] by (auto simp: may_panic_def)
  have a: "(case handle_auth args w h st of (w', state') \<Rightarrow> Returns (w', h, state')) \<noteq> Panics"
    by (simp split: prod.split)
  show False using assms n q m a unfolding dispatch_def Let_def by (simp split: if_splits)
qed

text \<open>
  C4: One command, one reply of its type. Take a command with a name that the server knows, or any name without a
  line break, and let the error texts of the operating system fit on one line (they only matter when the log
  fails). Only \<open>SCAN\<close> can panic, on numbers that overflow; in every other outcome
  exactly one reply is written, which is an error or has the type
  of the command (an integer, a bulk string or nil, an array of bulk strings and so on; an unknown command is
  answered by an error), and a client
  that parses it, unless it holds a number or a size outside the protocol's limits, gets that reply
  and is left with exactly what follows.
\<close>

theorem one_command_one_reply:
  assumes "toUpper cmd \<in> set knownCommands \<or> one_line cmd" "os_lines e h"
  shows "case dispatch e cmd args w h st of
       Panics \<Rightarrow> toUpper cmd = ''SCAN''
     | Returns (w', h', st') \<Rightarrow> (\<exists>r. w' = w @ encode r \<and> (is_err r \<or> reply_ty (toUpper cmd) r)
          \<and> (sizes r \<longrightarrow> (\<forall>t. Parse (encode r @ t) = POk (value_of r) t)))"
proof (cases "dispatch e cmd args w h st")
  case (Returns x)
  obtain w' h' st' where x: "x = (w', h', st')" by (cases x)
  have "one_line cmd" using assms(1) known_name_one_line by blast
  from dispatch_answers [OF Returns [unfolded x] this assms(2)] Parse_encode show ?thesis
    by (fastforce simp: Returns x answers_def)
qed (simp add: dispatch_panics)

theorem one_command_one_reply_witness:
  "\<exists>r. WriteSimpleString ''+OK'' ''PONG'' = ''+OK'' @ encode r
     \<and> Parse (encode r @ ''x'') = POk (value_of r) ''x''"
proof -
  let ?h = "handler_New store_New [] None"
  have up: "toUpper ''ping'' = ''PING''" by code_simp
  have d: "dispatch test_env ''ping'' [] ''+OK'' ?h \<lparr>Authenticated = True\<rparr>
      = Returns (WriteSimpleString ''+OK'' ''PONG'', ?h, \<lparr>Authenticated = True\<rparr>)"
    by (simp add: dispatch_def up handle_ping_def quiet_def)
  have "toUpper ''ping'' \<in> set knownCommands \<or> one_line ''ping''" "os_lines test_env ?h"
    by (simp_all add: one_line_def os_lines_def handler_New_def)
  from one_command_one_reply [OF this, where args = "[]" and w = "''+OK''" and st = "\<lparr>Authenticated = True\<rparr>"]
  obtain r where r: "WriteSimpleString ''+OK'' ''PONG'' = ''+OK'' @ encode r"
    "sizes r \<longrightarrow> Parse (encode r @ ''x'') = POk (value_of r) ''x''" unfolding d by auto
  from r(1) have "sizes r" by (cases r) (simp_all add: WriteSimpleString_def bulkBytes_def)
  with r show ?thesis by blast
qed

lemma encode_minus: "encode r = CHR ''-'' # x \<Longrightarrow> is_err r"
  by (cases r) (auto simp: bulkBytes_def)

text \<open>
  C11: An error reply means that nothing happened. As long as the log accepts what is written to it, a command that is
  answered with an error has changed neither the store nor the log nor anything else of the
  handler.
\<close>

theorem error_reply_no_effect:
  assumes "dispatch e cmd args [] h st = Returns (CHR ''-'' # x, h', st')" "one_line cmd"
    "os_lines e h" "accepts e h"
  shows "h' = h"
proof -
  obtain r where r: "encode r = CHR ''-'' # x" "is_err r \<longrightarrow> accepts e h \<longrightarrow> h' = h"
    using dispatch_answers [OF assms(1-3)] by (auto simp: answers_def)
  with encode_minus [OF r(1)] assms(4) show ?thesis by blast
qed

theorem error_reply_no_effect_witness:
  "\<exists>x h' st'. dispatch test_env ''incr'' [bulkValue ''k''] []
      (handler_New (store_New\<lparr>data := [(''k'', \<lparr>Value = ''abc'', ExpiresAt = ZeroTime\<rparr>)]\<rparr>) [] None)
      \<lparr>Authenticated = True\<rparr> = Returns (CHR ''-'' # x, h', st')
    \<and> h' = handler_New (store_New\<lparr>data := [(''k'', \<lparr>Value = ''abc'', ExpiresAt = ZeroTime\<rparr>)]\<rparr>) [] None"
proof -
  let ?h = "handler_New (store_New\<lparr>data := [(''k'', \<lparr>Value = ''abc'', ExpiresAt = ZeroTime\<rparr>)]\<rparr>) [] None"
  have up: "toUpper ''incr'' = ''INCR''" and at: "atoi ''abc'' = None" by code_simp+
  have "store_IncrBy 1000 ''k'' 1 (h_store ?h) = Inl ErrNotInteger"
    by (simp add: store_IncrBy_def handler_New_def store_New_def isExpired_def at)
  then have d: "dispatch test_env ''incr'' [bulkValue ''k''] [] ?h \<lparr>Authenticated = True\<rparr>
      = Returns (CHR ''-'' # (''ERR '' @ store_err_Error ErrNotInteger) @ crlf, ?h, \<lparr>Authenticated = True\<rparr>)"
    by (simp add: dispatch_writes up handle_incrBy_def mutateAndLog_def reply_int_def writeStoreErr_def
        WriteError_def writes_def test_env_def bulkValue_def)
  have "one_line ''incr''" "os_lines test_env ?h" "accepts test_env ?h"
    by (simp_all add: one_line_def os_lines_def accepts_def handler_New_def)
  from error_reply_no_effect [OF d this] d show ?thesis by blast
qed

text \<open>
  C39: An unknown command forges a reply. The name of an unknown command is echoed into the error as it came: a name
  with a line break ends the error reply early, and what follows is read as a second reply of
  the client's own making.
\<close>

theorem unknown_command_forges_reply:
  assumes "one_line a" "one_line b"
  shows "\<exists>w' v. dispatch e (a @ crlf @ ''+'' @ b) args [] h st = Returns (w', h, st)
     \<and> Parse (w' @ t) = POk v (CHR ''+'' # (b @ [CHR 0x27]) @ crlf @ t)
     \<and> Parse (CHR ''+'' # (b @ [CHR 0x27]) @ crlf @ t) = POk (MkValue (CHR ''+'') (b @ [CHR 0x27]) 0 []) t"
proof -
  let ?cmd = "a @ crlf @ ''+'' @ b" and ?err = "''ERR unknown command '' @ [CHR 0x27] @ a"
  have "CHR 0x0A \<in> set (toUpper ?cmd)" by (rule toUpper_LF) (simp add: crlf_def)
  then have "toUpper ?cmd \<notin> set knownCommands"
    using known_one_line by (auto simp: one_line_def list_all_iff)
  then have d: "dispatch e ?cmd args [] h st = Returns (WriteError [] (''ERR unknown command '' @ quoted ?cmd), h, st)"
    unfolding quiet_def [symmetric] by (rule dispatch_unknown)
  have one: "one_line ?err" using assms(1) by (simp add: one_line_def)
  have "WriteError [] (''ERR unknown command '' @ quoted ?cmd) @ t
      = CHR ''-'' # ?err @ crlf @ CHR ''+'' # (b @ [CHR 0x27]) @ crlf @ t"
    by (simp add: WriteError_def quoted_def)
  then have "Parse (WriteError [] (''ERR unknown command '' @ quoted ?cmd) @ t)
      = POk (MkValue (CHR ''-'') ?err 0 []) (CHR ''+'' # (b @ [CHR 0x27]) @ crlf @ t)"
    using Parse_simple(2) [OF one [unfolded one_line_def]] by (simp only:)
  moreover have "Parse (CHR ''+'' # (b @ [CHR 0x27]) @ crlf @ t) = POk (MkValue (CHR ''+'') (b @ [CHR 0x27]) 0 []) t"
    using assms(2) by (intro Parse_simple(1)) (simp add: one_line_def)
  ultimately show ?thesis using d by blast
qed

theorem unknown_command_forges_reply_witness:
  "\<exists>w' v. dispatch test_env (''X'' @ crlf @ ''+'' @ ''OK'') [] [] (handler_New store_New [] None) \<lparr>Authenticated = True\<rparr>
      = Returns (w', handler_New store_New [] None, \<lparr>Authenticated = True\<rparr>)
    \<and> Parse (w' @ []) = POk v (CHR ''+'' # (''OK'' @ [CHR 0x27]) @ crlf @ [])"
  using unknown_command_forges_reply [of "''X''" "''OK''" test_env "[]" "handler_New store_New [] None"
      "\<lparr>Authenticated = True\<rparr>" "[]"] by (simp only: one_line_def) (auto simp: one_line_def)

text \<open>
  A failing log is misreported. When the log refuses writes, \<open>DEL\<close> still answers the number of keys it
  deleted, and \<open>SET\<close> answers an error; but in both cases the store has changed, and the log
  has not.
\<close>

lemma log_failure_misreported:
  assumes "h_aof h = Some a" "writer_err a = Some err" "args \<noteq> []"
    "store_Set (clk e 0) k v 0 (h_store h) = Inr s'"
  shows "handle_del e args w h =
      (WriteInteger w (fst (store_Del (argStrings args) (h_store h))),
       h\<lparr>h_store := snd (store_Del (argStrings args) (h_store h)), h_aof := Some a\<rparr>)
    \<and> handle_set e [bulkValue k, bulkValue v] w h =
      (WriteError w (''ERR '' @ err), h\<lparr>h_store := s', h_aof := Some a\<rparr>)"
proof -
  have wl: "writeLocked (os e) name la a = (Some (ErrIO err), a)" for name la
    using assms(2) by (simp add: writeLocked_eq)
  obtain n s1 where d: "store_Del (argStrings args) (h_store h) = (n, s1)" by (cases "store_Del (argStrings args) (h_store h)")
  have "1 \<le> length args" using assms(3) by (cases args) auto
  then show ?thesis
    using assms(1,3,4) d
    by (simp add: handle_del_def handle_set_def mutateAndLog_def wl set_mut_def argStrings_def bulkValue_def
        writeStoreErr_def)
qed

lemma log_failure_misreported_witness:
  "handle_set test_env [bulkValue ''k'', bulkValue ''v''] []
     (handler_New store_New [] (Some ((NewAOF [] FsyncNo)\<lparr>writer_err := Some ''no space left on device''\<rparr>)))
   = (WriteError [] ''ERR no space left on device'',
      handler_New (store_New\<lparr>data := [(''k'', \<lparr>Value = ''v'', ExpiresAt = ZeroTime\<rparr>)]\<rparr>) []
        (Some ((NewAOF [] FsyncNo)\<lparr>writer_err := Some ''no space left on device''\<rparr>)))"
proof -
  let ?h = "handler_New store_New [] (Some ((NewAOF [] FsyncNo)\<lparr>writer_err := Some ''no space left on device''\<rparr>))"
  have s: "store_Set (clk test_env 0) ''k'' ''v'' 0 (h_store ?h)
      = Inr (store_New\<lparr>data := [(''k'', \<lparr>Value = ''v'', ExpiresAt = ZeroTime\<rparr>)]\<rparr>)"
    by (simp add: store_Set_def handler_New_def store_New_def checkMemoryLocked_def Let_def)
  show ?thesis
    using log_failure_misreported [THEN conjunct2, OF _ _ _ s, of _ "''no space left on device''" "[bulkValue ''x'']" "[]"]
    by (simp add: handler_New_def)
qed

text \<open>
  The password is shown to everybody who watches. An \<open>AUTH\<close> command is published like any other: unless the
  password itself happens to match a sensitive pattern, every subscriber of the live stream
  (the dashboard) receives it in plain text, whether it was correct or not.
\<close>

lemma auth_password_is_published:
  assumes "h_events h = Some r" "subCount r > 0" "\<not> matchesAny pw (sensitivePatterns r)"
    "map_of (subs r) sub = Some ch" "length ch < 32"
  shows "\<exists>w' h' st' r' ev. Handle e ''AUTH'' [bulkValue pw] w h st = Returns (w', h', st')
     \<and> h_events h' = Some r' \<and> map_of (subs r') sub = Some (ch @ [ev])
     \<and> ev_Command ev = ''AUTH'' \<and> ev_Args ev = [pw]"
proof -
  have up: "toUpper ''AUTH'' = ''AUTH''" by code_simp
  obtain w' st' where a: "handle_auth [bulkValue pw] w h st = (w', st')" by (metis prod.exhaust)
  let ?r = "Record (times e) ''AUTH'' [pw] (clientAddr e) (spent e) r"
  have H: "Handle e ''AUTH'' [bulkValue pw] w h st = Returns (w', h\<lparr>h_events := Some ?r\<rparr>, st')"
    using assms(1) by (simp add: Handle_def dispatch_def up a argStrings_def bulkValue_def [symmetric])
  have "redactArgs [pw] (sensitivePatterns r) = [pw]" using assms(3) by (simp add: redactArgs_def)
  then have "map_of (subs ?r) sub = Some (ch @ [event_of (sensitivePatterns r) (times e) ''AUTH'' [pw] (clientAddr e) (spent e)])"
    "ev_Args (event_of (sensitivePatterns r) (times e) ''AUTH'' [pw] (clientAddr e) (spent e)) = [pw]"
    using assms(2,4,5) by (simp_all add: Record_fields send_all_map try_send_def subBuffer_def event_of_def)
  with H up show ?thesis
    by (intro exI [of _ w'] exI [of _ "h\<lparr>h_events := Some ?r\<rparr>"] exI [of _ st'] exI [of _ ?r]
        exI [of _ "event_of (sensitivePatterns r) (times e) ''AUTH'' [pw] (clientAddr e) (spent e)"])
      (simp add: event_of_def)
qed

lemma auth_password_is_published_witness:
  "\<exists>w' h' st' r' ev. Handle test_env ''AUTH'' [bulkValue ''secret''] []
      ((handler_New store_New ''secret'' None)\<lparr>h_events := Some (snd (Subscribe (NewRecorder 0 128 [''session:*''])))\<rparr>)
      \<lparr>Authenticated = False\<rparr> = Returns (w', h', st')
     \<and> h_events h' = Some r' \<and> map_of (subs r') 0 = Some ([] @ [ev]) \<and> ev_Command ev = ''AUTH'' \<and> ev_Args ev = [''secret'']"
proof (rule auth_password_is_published [where r = "snd (Subscribe (NewRecorder 0 128 [''session:*'']))"])
  have "\<not> matchesAny ''secret'' [''session:*'']" by code_simp
  then show "\<not> matchesAny ''secret'' (sensitivePatterns (snd (Subscribe (NewRecorder 0 128 [''session:*'']))))"
    by (simp add: Subscribe_def Let_def NewRecorder_def)
qed (simp_all add: Subscribe_def Let_def NewRecorder_def)

end
