(* ===== verification/Server.thy ===== *)
theory Server
  imports Handler
begin

text \<open>
  The TCP front end, \<open>server/server.go\<close>: one connection's loop of parse, authentication gate,
  handler and flush.

  A connection is the bytes its client sends until it closes, the content of the buffered
  writer, and what has been flushed to the client.  Listening, accepting and TLS are not
  modelled; \<open>accept\<close> and \<open>close_conn\<close> are what \<open>Run\<close> and \<open>handleConn\<close> do to the counters.
\<close>

record Server =
  sv_handler :: Handler
  RequireAuth :: bool
  connCount :: int
  cmdCount :: int

record conn =
  c_in :: string
  c_w :: string
  c_out :: string
  c_state :: ConnState

definition server_New :: "Handler \<Rightarrow> bool \<Rightarrow> Server" where
  "server_New h auth = \<lparr>sv_handler = h, RequireAuth = auth, connCount = 0, cmdCount = 0\<rparr>"

definition server_Connections :: "Server \<Rightarrow> int" where
  "server_Connections s = connCount s"

definition server_Commands :: "Server \<Rightarrow> int" where
  "server_Commands s = cmdCount s"

definition accept :: "Server \<Rightarrow> Server" where
  "accept s = s\<lparr>connCount := wrap64 (connCount s + 1)\<rparr>"

definition close_conn :: "Server \<Rightarrow> Server" where
  "close_conn s = s\<lparr>connCount := wrap64 (connCount s - 1)\<rparr>"

definition open_conn :: "Server \<Rightarrow> string \<Rightarrow> conn" where
  "open_conn s input =
     \<lparr>c_in = input, c_w = [], c_out = [], c_state = \<lparr>Authenticated = (\<not> RequireAuth s)\<rparr>\<rparr>"

text \<open>\<open>Flush\<close> delivers the buffer, or fails with the connection.\<close>

definition flush :: "bool \<Rightarrow> conn \<Rightarrow> conn" where
  "flush ok c = (if ok then c\<lparr>c_out := c_out c @ c_w c, c_w := []\<rparr> else c)"

definition say_error :: "bool \<Rightarrow> string \<Rightarrow> conn \<Rightarrow> conn" where
  "say_error ok msg c = flush ok (c\<lparr>c_w := WriteError (c_w c) msg\<rparr>)"

definition recovered :: "bool \<Rightarrow> Server \<Rightarrow> conn \<Rightarrow> bool \<times> Server \<times> conn" where
  "recovered fl s c = (True, s, say_error fl ''ERR internal error'' c)"

definition readAndHandle :: "env \<Rightarrow> bool \<Rightarrow> Server \<Rightarrow> conn \<Rightarrow> bool \<times> Server \<times> conn" where
  "readAndHandle e fl s c =
     (case Parse (c_in c) of
        PPanic r \<Rightarrow> recovered fl s (c\<lparr>c_in := r\<rparr>)
      | PErr err \<Rightarrow>
          (if err = EOF then (False, s, c)
           else (False, s, say_error fl (''ERR Protocol error: '' @ perr_Error err) c))
      | POk val r \<Rightarrow>
          (let c1 = c\<lparr>c_in := r\<rparr>
           in if Typ val \<noteq> CHR ''*'' \<or> Array val = []
              then (True, s, say_error fl ''ERR unknown command'' c1)
              else let cmd = Str (hd (Array val)); args = tl (Array val);
                       s1 = s\<lparr>cmdCount := wrap64 (cmdCount s + 1)\<rparr>; upper = toUpper cmd
                   in if RequireAuth s \<and> \<not> Authenticated (c_state c) \<and> upper \<noteq> ''PING'' \<and> upper \<noteq> ''AUTH''
                      then (True, s1, say_error fl ''NOAUTH Authentication required.'' c1)
                      else case Handle e cmd args (c_w c1) (sv_handler s1) (c_state c1) of
                             Panics \<Rightarrow> recovered fl s1 c1
                           | Returns (w', h', st') \<Rightarrow>
                               (fl, s1\<lparr>sv_handler := h'\<rparr>, flush fl (c1\<lparr>c_w := w', c_state := st'\<rparr>))))"

text \<open>
  The loop of \<open>handleConn\<close>, with fuel; \<open>es i\<close> and \<open>fl i\<close> are what the environment answers
  during the \<open>i\<close>-th iteration.
\<close>

fun handleConn ::
  "nat \<Rightarrow> (nat \<Rightarrow> env) \<Rightarrow> (nat \<Rightarrow> bool) \<Rightarrow> nat \<Rightarrow> Server \<Rightarrow> conn \<Rightarrow> (Server \<times> conn) option" where
  "handleConn 0 es fl i s c = None"
| "handleConn (Suc fuel) es fl i s c =
     (case readAndHandle (es i) (fl i) s c of
        (ok, s', c') \<Rightarrow> if ok then handleConn fuel es fl (Suc i) s' c' else Some (close_conn s', c'))"

end
