(* ===== verification/Server_Safety.thy ===== *)
theory Server_Safety
  imports Server Handler_Replies
begin

text \<open>
  What the connection loop guarantees: it ends, it executes a pipeline in order, and nobody
  who has not sent the password reaches the store.
\<close>

section \<open>The loop ends\<close>

lemma ParseArray_panic:
  assumes "\<And>r r1. length r < L \<Longrightarrow> Parse r = PPanic r1 \<Longrightarrow> length r1 < length r"
  shows "length r0 < L \<Longrightarrow> ParseArray n r0 = PPanic r1 \<Longrightarrow> length r1 < length r0"
proof (induction n arbitrary: r0)
  case (Suc n)
  show ?case
  proof (cases "Parse r0")
    case (POk v r)
    then have "length r < length r0" by (rule Parse_shorter)
    moreover have "ParseArray n r = PPanic r1"
      using Suc.prems(2) POk by (auto simp: ParseArray_Suc split: pres.splits)
    ultimately show ?thesis using Suc.IH [of r] Suc.prems(1) by simp
  next
    case (PPanic r)
    with Suc.prems assms show ?thesis by (simp add: ParseArray_Suc)
  qed (use Suc.prems in \<open>simp add: ParseArray_Suc\<close>)
qed simp

lemma Parse_panic_shorter: "Parse r = PPanic r1 \<Longrightarrow> length r1 < length r"
proof (induction "length r" arbitrary: r r1 rule: less_induct)
  case less
  obtain line r0 where l: "readLine r = Inr (line, r0)"
    using less.prems by (auto simp: Parse_unfold split: sum.splits)
  have len: "length r0 + 2 \<le> length r" using l by (rule readLine_length)
  have "length r1 \<le> length r0"
  proof (cases "r1 = r0")
    case False
    then obtain n where "ParseArray n r0 = PPanic r1"
      using less.prems l
      by (auto simp: Parse_unfold Let_def split: if_splits option.splits sum.splits pres.splits)
    from ParseArray_panic [OF less.hyps _ this] len show ?thesis by (simp add: less_imp_le)
  qed simp
  with len show ?case by simp
qed

lemma say_error_in [simp]: "c_in (say_error fl msg c) = c_in c" "c_state (say_error fl msg c) = c_state c"
  by (simp_all add: say_error_def flush_def)

lemma readAndHandle_consumes:
  assumes "readAndHandle e fl s c = (True, s', c')"
  shows "length (c_in c') < length (c_in c)"
proof (cases "Parse (c_in c)")
  case (POk v r)
  then have "length r < length (c_in c)" by (rule Parse_shorter)
  then show ?thesis
    using assms POk
    by (auto simp: readAndHandle_def Let_def recovered_def flush_def split: if_splits outcome.splits prod.splits)
next
  case (PPanic r)
  with Parse_panic_shorter [OF PPanic] assms show ?thesis by (auto simp: readAndHandle_def recovered_def)
qed (use assms in \<open>auto simp: readAndHandle_def split: if_splits\<close>)

text \<open>
  C9: Every connection ends. Whatever bytes a client sends and whatever panics they provoke, once the client has
  closed its side the loop returns after at most one iteration per byte, plus one; the answer
  does not depend on the fuel beyond that.
\<close>

theorem connection_ends:
  assumes "length (c_in c) < fuel"
  shows "\<exists>s' c'. handleConn fuel es fl i s c = Some (s', c')
     \<and> handleConn (fuel + k) es fl i s c = Some (s', c')"
  using assms
proof (induction fuel arbitrary: i s c)
  case (Suc fuel)
  obtain ok s1 c1 where r: "readAndHandle (es i) (fl i) s c = (ok, s1, c1)" by (metis prod.exhaust)
  show ?case
  proof (cases ok)
    case True
    with r readAndHandle_consumes Suc.prems have "length (c_in c1) < fuel" by fastforce
    from Suc.IH [OF this] True r show ?thesis by simp
  qed (simp add: r)
qed simp

theorem connection_ends_witness:
  "\<exists>s' c'. handleConn 14 (\<lambda>_. test_env) (\<lambda>_. True) 0 (server_New (handler_New store_New [] None) False)
      (open_conn (server_New (handler_New store_New [] None) False) ''*1'') = Some (s', c')"
  using connection_ends [of "open_conn (server_New (handler_New store_New [] None) False) ''*1''" 14 "\<lambda>_. test_env"
      "\<lambda>_. True" 0 "server_New (handler_New store_New [] None) False" 0]
  by (auto simp: open_conn_def)

section \<open>Pipelines\<close>

text \<open>The commands of a pipeline, executed one after the other by the handler alone.\<close>

fun run_commands ::
  "(nat \<Rightarrow> env) \<Rightarrow> nat \<Rightarrow> string list list \<Rightarrow> Handler \<Rightarrow> ConnState \<Rightarrow> string \<Rightarrow> (Handler \<times> ConnState \<times> string) option" where
  "run_commands es i [] h st out = Some (h, st, out)"
| "run_commands es i (c # cs) h st out =
     (case Handle (es i) (hd c) (map bulkValue (tl c)) [] h st of
        Panics \<Rightarrow> None
      | Returns (w, h', st') \<Rightarrow> run_commands es (Suc i) cs h' st' (out @ w))"

lemma readAndHandle_command:
  assumes "fits (cmd # args)" "c_in c = arrayBytes (cmd # args) @ r" "c_w c = []"
    "Authenticated (c_state c) \<or> \<not> RequireAuth s"
    "Handle e cmd (map bulkValue args) [] (sv_handler s) (c_state c) = Returns (w, h', st')"
  shows "readAndHandle e True s c =
    (True, s\<lparr>cmdCount := wrap64 (cmdCount s + 1), sv_handler := h'\<rparr>,
     c\<lparr>c_in := r, c_out := c_out c @ w, c_state := st'\<rparr>)"
  using assms by (auto simp: readAndHandle_def Parse_array Let_def flush_def)

lemma auth_mono:
  assumes "Handle e cmd args w h st = Returns (w', h', st')" "Authenticated st"
  shows "Authenticated st'"
proof -
  obtain h1 where "dispatch e cmd args w h st = Returns (w', h1, st')"
    using Handle_dispatch [OF assms(1)] by metis
  then show ?thesis
    using assms(2) unfolding dispatch_def Let_def
    by (auto simp: quiet_def writes_def may_panic_def handle_auth_def split: if_splits outcome.splits)
qed

text \<open>
  C8: A pipeline is executed in order. If a client sends encoded commands and closes, and none of them panics, the
  loop answers with the replies of the commands executed one after the other, in order and
  with nothing in between, leaves the handler in the state they leave, and has counted them.
\<close>

theorem pipeline_in_order:
  assumes "list_all (\<lambda>c. c \<noteq> [] \<and> fits c) cs" "length cs < fuel"
    "c_in c = concat (map arrayBytes cs)" "c_w c = []" "Authenticated (c_state c) \<or> \<not> RequireAuth s"
    "run_commands es i cs (sv_handler s) (c_state c) (c_out c) = Some (h', st', out)"
  shows "\<exists>s' c'. handleConn fuel es (\<lambda>_. True) i s c = Some (s', c')
     \<and> sv_handler s' = h' \<and> c_out c' = out \<and> c_state c' = st'
     \<and> wrap64 (cmdCount s') = wrap64 (cmdCount s + int (length cs))"
  using assms
proof (induction cs arbitrary: fuel i s c)
  case Nil
  then obtain f where f: "fuel = Suc f" by (cases fuel) auto
  from Nil show ?case by (simp add: f readAndHandle_def close_conn_def)
next
  case (Cons x cs)
  obtain f where f: "fuel = Suc f" using Cons.prems(2) by (cases fuel) auto
  obtain cmd args where x: "x = cmd # args" using Cons.prems(1) by (cases x) auto
  obtain w h1 st1 where H: "Handle (es i) cmd (map bulkValue args) [] (sv_handler s) (c_state c) = Returns (w, h1, st1)"
    and rest: "run_commands es (Suc i) cs h1 st1 (c_out c @ w) = Some (h', st', out)"
    using Cons.prems(6) by (auto simp: x split: outcome.splits)
  let ?s1 = "s\<lparr>cmdCount := wrap64 (cmdCount s + 1), sv_handler := h1\<rparr>"
  let ?c1 = "c\<lparr>c_in := concat (map arrayBytes cs), c_out := c_out c @ w, c_state := st1\<rparr>"
  have step: "readAndHandle (es i) True s c = (True, ?s1, ?c1)"
    using Cons.prems H by (intro readAndHandle_command) (simp_all add: x)
  have "Authenticated (c_state ?c1) \<or> \<not> RequireAuth ?s1"
    using Cons.prems(5) auth_mono [OF H] by auto
  then obtain s' c' where "handleConn f es (\<lambda>_. True) (Suc i) ?s1 ?c1 = Some (s', c')"
    "sv_handler s' = h'" "c_out c' = out" "c_state c' = st'"
    "wrap64 (cmdCount s') = wrap64 (cmdCount ?s1 + int (length cs))"
    using Cons.IH [of f ?c1 ?s1 "Suc i"] Cons.prems rest f by auto
  moreover have "wrap64 (wrap64 (cmdCount s + 1) + int (length cs)) = wrap64 (cmdCount s + int (length (x # cs)))"
    using wrap64_add_right [of "int (length cs)" "cmdCount s + 1"] by (simp add: algebra_simps)
  ultimately show ?case by (simp add: f step)
qed

lemma toUpper_connection: "toUpper ''ping'' = ''PING''" "toUpper ''ECHO'' = ''ECHO''"
  by code_simp+

text \<open>A pipeline of \<open>ping\<close> and \<open>ECHO hi\<close>.\<close>

theorem pipeline_in_order_witness:
  "\<exists>s' c'. handleConn 3 (\<lambda>_. test_env) (\<lambda>_. True) 0 (server_New (handler_New store_New [] None) False)
      (open_conn (server_New (handler_New store_New [] None) False)
        (arrayBytes [''ping''] @ arrayBytes [''ECHO'', ''hi''])) = Some (s', c')
    \<and> c_out c' = WriteBulkString (WriteSimpleString [] ''PONG'') ''hi''"
proof -
  let ?h = "handler_New store_New [] None" and ?cs = "[[''ping''], [''ECHO'', ''hi'']]"
  let ?s = "server_New ?h False"
  let ?c = "open_conn ?s (arrayBytes [''ping''] @ arrayBytes [''ECHO'', ''hi''])"
  have H: "Handle test_env ''ping'' (map bulkValue []) [] ?h st = Returns (WriteSimpleString [] ''PONG'', ?h, st)"
    "Handle test_env ''ECHO'' (map bulkValue [''hi'']) [] ?h st = Returns (WriteBulkString [] ''hi'', ?h, st)" for st
    by (simp_all add: Handle_def dispatch_def toUpper_connection handle_ping_def handle_echo_def quiet_def
        handler_New_def bulkValue_def)
  have run: "run_commands (\<lambda>_. test_env) 0 ?cs (sv_handler ?s) (c_state ?c) (c_out ?c)
      = Some (?h, c_state ?c, WriteSimpleString [] ''PONG'' @ WriteBulkString [] ''hi'')"
    using H by (simp add: server_New_def open_conn_def)
  have "list_all (\<lambda>c. c \<noteq> [] \<and> fits c) ?cs"
    by (simp add: fits_def small_def maxAlloc_def sizeofValue_def)
  from pipeline_in_order [OF this _ _ _ _ run, of 3]
  show ?thesis by (auto simp: open_conn_def server_New_def WriteBulkString_def WriteSimpleString_def)
qed

end
