(* ===== verification/Server_Auth.thy ===== *)
theory Server_Auth
  imports Server_Safety "HOL-Library.Sublist"
begin

text \<open>
  The authentication gate, over any number of connections whose iterations interleave: who has
  not sent the password neither changes nor observes the data.
\<close>

section \<open>Connections side by side\<close>

text \<open>
  What can happen at the front end: client \<open>i\<close> connects and will send some bytes, or the
  goroutine of connection \<open>i\<close> runs one iteration of its loop, and leaves it when told to.
  \<open>fst (cs i)\<close> is whether connection \<open>i\<close> is open.
\<close>

datatype action = Connect nat string | Serve nat env bool

type_synonym world = "Server \<times> (nat \<Rightarrow> bool \<times> conn)"

fun act :: "action \<Rightarrow> world \<Rightarrow> world" where
  "act (Connect i bytes) (s, cs) =
     (if fst (cs i) then (s, cs) else (accept s, cs(i := (True, open_conn s bytes))))"
| "act (Serve i e fl) (s, cs) =
     (if \<not> fst (cs i) then (s, cs)
      else case readAndHandle e fl s (snd (cs i)) of
             (ok, s', c') \<Rightarrow> (if ok then s' else close_conn s', cs(i := (ok, c'))))"

definition nobody :: "nat \<Rightarrow> bool \<times> conn" where
  "nobody i = (False, \<lparr>c_in = [], c_w = [], c_out = [], c_state = \<lparr>Authenticated = False\<rparr>\<rparr>)"

section \<open>What the parser returns comes from the input\<close>

lemma sublist_take: "sublist (take n xs) xs"
  by (metis append_take_drop_id sublist_append_rightI)

lemma sublist_suffix: "suffix ys xs \<Longrightarrow> sublist ys xs"
  by (simp add: suffix_imp_sublist)

lemma readLine_parts:
  assumes "readLine r = Inr (line, r1)"
  shows "sublist line r" "suffix r1 r"
proof -
  let ?l = "takeWhile (\<lambda>c. c \<noteq> CHR 0x0A) r" and ?d = "dropWhile (\<lambda>c. c \<noteq> CHR 0x0A) r"
  have line: "line = butlast ?l" and r1: "r1 = tl ?d"
    using assms by (auto simp: readLine_def Let_def split: if_splits)
  have "sublist (butlast ?l) ?l" by (simp add: butlast_conv_take sublist_take)
  moreover have "sublist ?l r" by (metis sublist_append_rightI takeWhile_dropWhile_id)
  ultimately show "sublist line r" using line sublist_order.order_trans by blast
  have "suffix (tl ?d) ?d" by simp
  moreover have "suffix ?d r" by (rule suffix_dropWhile)
  ultimately show "suffix r1 r" using r1 suffix_order.order_trans by blast
qed

lemma readFull_parts: "readFull r n = Inr (buf, r1) \<Longrightarrow> suffix r1 r \<and> sublist (take m buf) r"
  using sublist_take [of "min m n" r]
  by (auto simp: readFull_def take_take suffix_drop split: if_splits)

lemma fields_go_sublist: "f \<in> set (fields_go cur s) \<Longrightarrow> sublist f (rev cur @ s)"
proof (induction cur s rule: fields_go.induct)
  case (1 cur s)
  consider "s = []" | "s \<noteq> []" "spaceLen s = 0" | "s \<noteq> []" "spaceLen s \<noteq> 0" by blast
  then show ?case
  proof cases
    case 1
    with "1.prems" show ?thesis by (subst (asm) fields_go.simps) (auto split: if_splits)
  next
    case 2
    with "1.prems" have "f \<in> set (fields_go (hd s # cur) (tl s))"
      by (subst (asm) fields_go.simps) simp
    with "1.IH"(1) 2 show ?thesis by simp
  next
    case 3
    with "1.prems" have "f = rev cur \<or> f \<in> set (fields_go [] (drop (spaceLen s) s))"
      by (subst (asm) fields_go.simps) (auto split: if_splits)
    then show ?thesis
    proof
      assume "f \<in> set (fields_go [] (drop (spaceLen s) s))"
      with "1.IH"(2) 3 have "sublist f (drop (spaceLen s) s)" by simp
      then have "sublist f s" using sublist_order.order_trans suffix_drop sublist_suffix by blast
      then show ?thesis by (metis sublist_append sublist_order.order_trans sublist_append_leftI)
    qed simp
  qed
qed

lemma fields_sublist: "f \<in> set (Go_Strings.fields s) \<Longrightarrow> sublist f s"
  using fields_go_sublist [of f "[]" s] by (simp add: Go_Strings.fields_def)

text \<open>Strings of the result and the unread rest are pieces of the input.\<close>

fun origin :: "('v \<Rightarrow> string set) \<Rightarrow> string \<Rightarrow> 'v pres \<Rightarrow> bool" where
  "origin strs r (POk v r1) \<longleftrightarrow> suffix r1 r \<and> (\<forall>x \<in> strs v. sublist x r)"
| "origin strs r (PPanic r1) \<longleftrightarrow> suffix r1 r"
| "origin strs r (PErr e) \<longleftrightarrow> True"

definition value_strs :: "Value \<Rightarrow> string set" where
  "value_strs v = insert (Str v) (Str ` set (Array v))"

definition list_strs :: "Value list \<Rightarrow> string set" where
  "list_strs vs = Str ` set vs"

lemma origin_suffix:
  assumes "origin strs r0 p" "suffix r0 r"
  shows "origin strs r p"
proof (cases p)
  case (POk v r1)
  with assms have "suffix r1 r0" "\<forall>x \<in> strs v. sublist x r0" by simp_all
  with assms(2) POk show ?thesis
    using suffix_order.order_trans [of r1 r0 r] sublist_order.order_trans [of _ r0 r] sublist_suffix [of r0 r]
    by simp
next
  case (PPanic r1)
  with assms show ?thesis using suffix_order.order_trans [of r1 r0 r] by simp
qed simp

lemma ParseArray_origin:
  assumes "\<And>r. length r < L \<Longrightarrow> origin value_strs r (Parse r)"
  shows "length r0 < L \<Longrightarrow> origin list_strs r0 (ParseArray n r0)"
proof (induction n arbitrary: r0)
  case (Suc n)
  from assms [OF Suc.prems] have o: "origin value_strs r0 (Parse r0)" .
  show ?case
  proof (cases "Parse r0")
    case (POk v r)
    then have "length r < length r0" by (rule Parse_shorter)
    with Suc have a: "origin list_strs r (ParseArray n r)" by simp
    have "suffix r r0" using o POk by simp
    from origin_suffix [OF a this] o POk show ?thesis
      by (cases "ParseArray n r") (auto simp: ParseArray_Suc list_strs_def value_strs_def)
  qed (use o in \<open>simp_all add: ParseArray_Suc\<close>)
qed (simp add: list_strs_def)

lemma Parse_origin: "origin value_strs r (Parse r)"
proof (induction "length r" arbitrary: r rule: less_induct)
  case less
  show ?case
  proof (cases "readLine r")
    case (Inr p)
    obtain line r1 where p: "p = (line, r1)" by (cases p)
    note l = readLine_parts [OF Inr [unfolded p]]
    have len: "length r1 < length r" using readLine_length [OF Inr [unfolded p]] by simp
    have arr: "origin list_strs r (ParseArray n r1)" for n
      by (rule origin_suffix [OF ParseArray_origin [OF less.hyps len] l(2)])
    have arrOk: "suffix r2 r \<and> (\<forall>v \<in> set vs. sublist (Str v) r)" if "ParseArray n r1 = POk vs r2" for n vs r2
      using arr [of n] that by (simp add: list_strs_def)
    have arrPanic: "suffix r2 r" if "ParseArray n r1 = PPanic r2" for n r2
      using arr [of n] that by simp
    have tl: "sublist (tl line) r" if "line \<noteq> []"
      using that l(1) by (metis list.collapse sublist_Cons_right sublist_order.order_trans sublist_order.order_refl)
    have bulk: "suffix r2 r \<and> sublist (take m buf) r" if "readFull r1 n = Inr (buf, r2)" for n m buf r2
      using readFull_parts [OF that, of m] l(2) sublist_order.order_trans [of _ r1 r] sublist_suffix
        suffix_order.order_trans [of r2 r1 r] by blast
    have words: "sublist f r" if "f \<in> set (Go_Strings.fields line)" for f
      using fields_sublist [OF that] l(1) sublist_order.order_trans by blast
    show ?thesis
      using l(2) tl bulk words arrOk arrPanic
      by (auto simp: Parse_unfold Inr p Let_def value_strs_def bulkValue_def
          split: option.split sum.split prod.split pres.split)
  qed (simp add: Parse_unfold)
qed

section \<open>Runs that commute with a change of the state\<close>

context invariant_system
begin

lemma run_commutes:
  assumes "\<And>s x. inv s \<Longrightarrow> wf x \<Longrightarrow> step x (g s) = g (step x s)" "inv s" "list_all wf xs"
  shows "fold step xs (g s) = g (fold step xs s)"
  using assms(2,3) by (induction xs arbitrary: s) (simp_all add: assms(1) step_inv)

end

section \<open>The gate\<close>

text \<open>The same server over another keyspace and another log.\<close>

definition with_data :: "Store \<Rightarrow> AOF option \<Rightarrow> Server \<Rightarrow> Server" where
  "with_data t a s = s\<lparr>sv_handler := sv_handler s\<lparr>h_store := t, h_aof := a\<rparr>\<rparr>"

definition over :: "Store \<Rightarrow> AOF option \<Rightarrow> world \<Rightarrow> world" where
  "over t a x = (with_data t a (fst x), snd x)"

fun ignorant :: "string \<Rightarrow> action \<Rightarrow> bool" where
  "ignorant pw (Connect i bytes) \<longleftrightarrow> \<not> sublist pw bytes"
| "ignorant pw (Serve i e fl) \<longleftrightarrow> True"

definition locked_conn :: "string \<Rightarrow> conn \<Rightarrow> bool" where
  "locked_conn pw c \<longleftrightarrow> \<not> Authenticated (c_state c) \<and> \<not> sublist pw (c_in c)"

definition locked :: "string \<Rightarrow> world \<Rightarrow> bool" where
  "locked pw x \<longleftrightarrow> RequireAuth (fst x) \<and> pw \<noteq> [] \<and> h_password (sv_handler (fst x)) = pw
     \<and> (\<forall>i. locked_conn pw (snd (snd x i)))"

lemma Handle_gate:
  assumes "toUpper cmd = ''PING'' \<or> toUpper cmd = ''AUTH''" "\<forall>v \<in> set args. Str v \<noteq> h_password h"
  shows "\<exists>w' f. \<forall>t a. Handle e cmd args w (h\<lparr>h_store := t, h_aof := a\<rparr>) st
    = Returns (w', h\<lparr>h_store := t, h_aof := a, h_events := f\<rparr>, st)"
proof -
  obtain w' where d: "dispatch e cmd args w (h\<lparr>h_store := t, h_aof := a\<rparr>) st
      = Returns (w', h\<lparr>h_store := t, h_aof := a\<rparr>, st)" for t a
  proof (cases "toUpper cmd = ''PING''")
    case True
    then show ?thesis by (intro that [of "handle_ping args w"]) (simp add: dispatch_def quiet_def)
  next
    case False
    with assms(1) have u: "toUpper cmd = ''AUTH''" by simp
    have a: "handle_auth args w (h\<lparr>h_store := t, h_aof := a\<rparr>) st = (fst (handle_auth args w h st), st)" for t a
      using assms(2) by (auto simp: handle_auth_def)
    show ?thesis by (rule that) (simp add: dispatch_def u a)
  qed
  show ?thesis
  proof (cases "h_events h")
    case None
    then show ?thesis by (intro exI [of _ w'] exI [of _ None] allI) (simp add: Handle_def d)
  qed (auto simp: Handle_def d)
qed

lemma with_data_simps [simp]: "RequireAuth (with_data t a s) = RequireAuth s"
  "connCount (with_data t a s) = connCount s" "cmdCount (with_data t a s) = cmdCount s"
  "sv_handler (with_data t a s) = sv_handler s\<lparr>h_store := t, h_aof := a\<rparr>"
  by (simp_all add: with_data_def)

lemma with_data_updates:
  "(with_data t a s)\<lparr>cmdCount := n\<rparr> = with_data t a (s\<lparr>cmdCount := n\<rparr>)"
  "accept (with_data t a s) = with_data t a (accept s)"
  "close_conn (with_data t a s) = with_data t a (close_conn s)"
  by (simp_all add: with_data_def accept_def close_conn_def)

lemma readAndHandle_gate:
  assumes "RequireAuth s" "h_password (sv_handler s) = pw" "locked_conn pw c"
    "readAndHandle e fl s c = (ok, s', c')" "pw \<noteq> []"
  shows "readAndHandle e fl (with_data t a s) c = (ok, with_data t a s', c') \<and> RequireAuth s'
    \<and> h_password (sv_handler s') = pw \<and> locked_conn pw c'"
proof -
  have o: "origin value_strs (c_in c) (Parse (c_in c))" by (rule Parse_origin)
  have keep: "\<not> sublist pw r" if "suffix r (c_in c)" for r
    using that assms(3) sublist_order.order_trans sublist_suffix unfolding locked_conn_def by blast
  show ?thesis
  proof (cases "Parse (c_in c)")
    case (PErr err)
    then show ?thesis using assms by (auto simp: readAndHandle_def locked_conn_def)
  next
    case (PPanic r)
    with o keep assms show ?thesis by (auto simp: readAndHandle_def recovered_def locked_conn_def)
  next
    case (POk v r)
    with o have r: "\<not> sublist pw r" and strs: "\<forall>x \<in> set (Array v). sublist (Str x) (c_in c)"
      using keep by (auto simp: value_strs_def)
    let ?cmd = "Str (hd (Array v))" and ?s1 = "s\<lparr>cmdCount := wrap64 (cmdCount s + 1)\<rparr>"
    show ?thesis
    proof (cases "Typ v \<noteq> CHR ''*'' \<or> Array v = [] \<or> toUpper ?cmd \<noteq> ''PING'' \<and> toUpper ?cmd \<noteq> ''AUTH''")
      case True
      then show ?thesis
        using assms POk r by (auto simp: readAndHandle_def Let_def locked_conn_def with_data_updates)
    next
      case False
      have "\<forall>x \<in> set (tl (Array v)). Str x \<noteq> pw"
        using strs assms(3) False unfolding locked_conn_def by (metis list.set_sel(2))
      with Handle_gate [of ?cmd "tl (Array v)" "sv_handler s" e "c_w c" "c_state c"] False assms(2)
      obtain w' f where H: "\<And>t a. Handle e ?cmd (tl (Array v)) (c_w c) (sv_handler s\<lparr>h_store := t, h_aof := a\<rparr>)
          (c_state c) = Returns (w', sv_handler s\<lparr>h_store := t, h_aof := a, h_events := f\<rparr>, c_state c)" by blast
      from H [where t = "h_store (sv_handler s)" and a = "h_aof (sv_handler s)"]
      have H0: "Handle e ?cmd (tl (Array v)) (c_w c) (sv_handler s) (c_state c)
        = Returns (w', sv_handler s\<lparr>h_events := f\<rparr>, c_state c)" by simp
      have "readAndHandle e fl s c = (fl, ?s1\<lparr>sv_handler := sv_handler s\<lparr>h_events := f\<rparr>\<rparr>,
          flush fl (c\<lparr>c_in := r, c_w := w', c_state := c_state c\<rparr>))"
        using False POk H0 by (auto simp: readAndHandle_def Let_def)
      moreover have "readAndHandle e fl (with_data t a s) c = (fl, with_data t a (?s1\<lparr>sv_handler := sv_handler s\<lparr>h_events := f\<rparr>\<rparr>),
          flush fl (c\<lparr>c_in := r, c_w := w', c_state := c_state c\<rparr>))"
        using False POk H by (auto simp: readAndHandle_def Let_def with_data_def)
      ultimately show ?thesis
        using assms r by (auto simp: locked_conn_def flush_def)
    qed
  qed
qed

lemma act_gate:
  assumes "locked pw x" "ignorant pw b"
  shows "locked pw (act b x) \<and> act b (over t a x) = over t a (act b x)"
proof (cases b)
  case (Connect i bytes)
  with assms show ?thesis
    by (cases x) (auto simp: locked_def locked_conn_def over_def with_data_updates open_conn_def accept_def)
next
  case (Serve i e fl)
  obtain s cs where x: "x = (s, cs)" by (cases x)
  obtain ok s' c' where r: "readAndHandle e fl s (snd (cs i)) = (ok, s', c')" by (metis prod.exhaust)
  have l: "RequireAuth s" "h_password (sv_handler s) = pw" "locked_conn pw (snd (cs i))" "pw \<noteq> []"
    using assms(1) by (simp_all add: x locked_def)
  from readAndHandle_gate [OF l(1-3) r l(4)] r assms(1) show ?thesis
    by (auto simp: Serve x locked_def over_def with_data_updates close_conn_def)
qed

interpretation gate: invariant_system act "locked pw" "ignorant pw" for pw
  by unfold_locales (simp add: act_gate)

lemma locked_start:
  assumes "RequireAuth s" "h_password (sv_handler s) \<noteq> []"
  shows "locked (h_password (sv_handler s)) (s, nobody)"
  using assms by (simp add: locked_def locked_conn_def nobody_def)

lemma over_self [simp]: "over (h_store (sv_handler s)) (h_aof (sv_handler s)) (s, cs) = (s, cs)"
  by (simp add: over_def with_data_def)

text \<open>
  C2: Without the password there is no way to the data. Let the server require authentication, and let any number of
  clients connect, send whatever bytes they like and be served in any order; as long as the
  password does not occur in what they send, the keyspace and the log never change, and
  nothing any client is answered, nor any other part of the server's state, would be different
  if the keyspace and the log had been different.
\<close>

theorem no_password_no_data:
  assumes "RequireAuth s" "h_password (sv_handler s) \<noteq> []"
    "\<forall>i bytes. Connect i bytes \<in> set acts \<longrightarrow> \<not> sublist (h_password (sv_handler s)) bytes"
    "fold act acts (s, nobody) = (s', cs')"
  shows "h_store (sv_handler s') = h_store (sv_handler s) \<and> h_aof (sv_handler s') = h_aof (sv_handler s)
     \<and> fold act acts (with_data t a s, nobody) = (with_data t a s', cs')"
proof -
  let ?pw = "h_password (sv_handler s)"
  have "list_all (ignorant ?pw) acts"
    unfolding list_all_iff
  proof
    fix b assume "b \<in> set acts"
    with assms(3) show "ignorant ?pw b" by (cases b) auto
  qed
  then have c: "fold act acts (over u b (s, nobody)) = over u b (s', cs')" for u b
    using gate.run_commutes [where g = "over u b", OF _ locked_start [OF assms(1,2)]] act_gate assms(4) by simp
  from c [where u = t and b = a] have r: "fold act acts (with_data t a s, nobody) = (with_data t a s', cs')"
    by (simp add: over_def)
  have e0: "over (h_store (sv_handler s)) (h_aof (sv_handler s)) (s', cs') = (s', cs')"
    using c [where u = "h_store (sv_handler s)" and b = "h_aof (sv_handler s)"] assms(4)
    by (simp only: over_self)
  have e: "with_data (h_store (sv_handler s)) (h_aof (sv_handler s)) s' = s'"
    using arg_cong [OF e0, of fst] by (simp add: over_def)
  have "h_store (sv_handler s') = h_store (sv_handler s)"
    using arg_cong [OF e, of "\<lambda>x. h_store (sv_handler x)"] by simp
  moreover have "h_aof (sv_handler s') = h_aof (sv_handler s)"
    using arg_cong [OF e, of "\<lambda>x. h_aof (sv_handler x)"] by simp
  ultimately show ?thesis using r by simp
qed

text \<open>A client that sends another client's command and two wrong passwords.\<close>

theorem no_password_no_data_witness:
  "\<exists>s' cs'. fold act [Connect 0 (''FLUSHALL'' @ crlf @ ''AUTH sesam'' @ crlf), Serve 0 test_env True,
       Connect 1 (''*1'' @ crlf), Serve 0 test_env True, Serve 1 test_env True, Serve 0 test_env True]
       (server_New (handler_New (store_New\<lparr>lists := [(''l'', [''x''])]\<rparr>) ''sesame'' None) True, nobody) = (s', cs')
     \<and> lists (h_store (sv_handler s')) = [(''l'', [''x''])]"
proof -
  let ?s = "server_New (handler_New (store_New\<lparr>lists := [(''l'', [''x''])]\<rparr>) ''sesame'' None) True"
  let ?acts = "[Connect 0 (''FLUSHALL'' @ crlf @ ''AUTH sesam'' @ crlf), Serve 0 test_env True,
       Connect 1 (''*1'' @ crlf), Serve 0 test_env True, Serve 1 test_env True, Serve 0 test_env True]"
  obtain s' cs' where r: "fold act ?acts (?s, nobody) = (s', cs')" by (metis prod.exhaust)
  have "h_store (sv_handler s') = h_store (sv_handler ?s)"
  proof (rule conjunct1 [OF no_password_no_data [OF _ _ _ r, of store_New None]])
    show "\<forall>i bytes. Connect i bytes \<in> set ?acts \<longrightarrow> \<not> sublist (h_password (sv_handler ?s)) bytes"
      by (auto simp: server_New_def handler_New_def crlf_def sublist_code)
  qed (simp_all add: server_New_def handler_New_def)
  with r show ?thesis by (simp add: server_New_def handler_New_def)
qed

end
