(* ===== verification/Config.thy ===== *)
theory Config
  imports Server Events_Streams
begin

text \<open>
  Start-up, \<open>main.go\<close>: the environment variables and how the parts are put together.

  An unset variable is the empty string, which is what \<open>os.Getenv\<close> returns, except for
  \<open>DASHBOARD_PORT\<close>, which is looked up.  Opening the log file, binding the listener and loading
  certificates succeed: their failure ends the process.
\<close>

section \<open>Environment variables\<close>

record environ =
  MAXMEMORY_MB :: string
  REDIS_PASSWORD :: string
  AOF_PATH :: string
  AOF_FSYNC :: string
  AOF_REWRITE_SIZE_MB :: string
  SLOWLOG_THRESHOLD_MS :: string
  SENSITIVE_KEYS :: string
  DASHBOARD_PORT :: "string option"
  DASHBOARD_PASSWORD :: string

definition parseMBEnv :: "string \<Rightarrow> int \<Rightarrow> int" where
  "parseMBEnv v defaultMB =
     (let default = wrap64 (wrap64 (defaultMB * 1024) * 1024)
      in if v = [] then default
         else case atoi v of
                None \<Rightarrow> default
              | Some mb \<Rightarrow> if mb \<le> 0 then default else wrap64 (wrap64 (mb * 1024) * 1024))"

definition parseMsEnv :: "string \<Rightarrow> int \<Rightarrow> int" where
  "parseMsEnv v defaultMs =
     (let default = wrap64 (defaultMs * millisecond)
      in if v = [] then default
         else case atoi v of
                None \<Rightarrow> default
              | Some ms \<Rightarrow> if ms < 0 then default else wrap64 (ms * millisecond))"

fun keep_patterns :: "string list \<Rightarrow> string list" where
  "keep_patterns [] = []"
| "keep_patterns (p # parts) =
     (let p' = trimSpace p in if p' \<noteq> [] then p' # keep_patterns parts else keep_patterns parts)"

definition sensitiveKeyPatterns :: "string \<Rightarrow> string list" where
  "sensitiveKeyPatterns v = (if v = [] then [] else keep_patterns (splitOn (CHR '','') v))"

definition dashboardPortOrDefault :: "string option \<Rightarrow> string" where
  "dashboardPortOrDefault port = (case port of Some p \<Rightarrow> p | None \<Rightarrow> ''8080'')"

section \<open>Wiring\<close>

definition open_log :: "environ \<Rightarrow> (nat \<Rightarrow> int) \<Rightarrow> string \<Rightarrow> Store \<Rightarrow> (Store \<times> AOF option) outcome" where
  "open_log ev c contents s =
     (if AOF_PATH ev = [] then Returns (s, None)
      else let a = NewAOF contents (ParseFsyncPolicy (AOF_FSYNC ev))
           in case aof_Replay c a s of
                Panics \<Rightarrow> Panics
              | Returns (s', n) \<Rightarrow>
                  Returns (s', Some (aof_SetRewriteThreshold (parseMBEnv (AOF_REWRITE_SIZE_MB ev) 64) a)))"

text \<open>\<open>contents\<close> is what the log file holds when the process starts; nothing recovers a panic here.\<close>

definition main_start :: "environ \<Rightarrow> (nat \<Rightarrow> int) \<Rightarrow> string \<Rightarrow> Server outcome" where
  "main_start ev c contents =
     (let maxmem = parseMBEnv (MAXMEMORY_MB ev) 0;
          s = store_SetMaxMemory maxmem store_New;
          password = REDIS_PASSWORD ev
      in case open_log ev c contents s of
           Panics \<Rightarrow> Panics
         | Returns (s1, aof) \<Rightarrow>
             (let h1 = handler_New s1 password aof;
                  h2 = handler_SetMaxMemory maxmem h1;
                  rec = NewRecorder (parseMsEnv (SLOWLOG_THRESHOLD_MS ev) 10) 128
                          (sensitiveKeyPatterns (SENSITIVE_KEYS ev));
                  h3 = handler_SetEvents rec h2
              in Returns (server_New h3 (password \<noteq> []))))"

text \<open>What a signal does before the process exits.\<close>

definition main_shutdown :: "osenv \<Rightarrow> Handler \<Rightarrow> Handler" where
  "main_shutdown ose h =
     (case h_aof h of None \<Rightarrow> h | Some a \<Rightarrow> h\<lparr>h_aof := Some (snd (aof_Sync ose a))\<rparr>)"

end
