(* ===== verification/Config_Start.thy ===== *)
theory Config_Start
  imports Config Handler_Log
begin

text \<open>
  What a start guarantees: the ceiling and the redaction patterns are the configured ones, and
  a restart, however often it happens, gives back the keyspace.
\<close>

section \<open>Replay keeps ceiling and invariant\<close>

lemma replay_loop_keeps:
  assumes "replay_loop c i r s n = Returns (s', n')" "store_inv s"
  shows "store_inv s' \<and> maxMemoryBytes s' = maxMemoryBytes s"
  using assms
proof (induction c i r s n rule: replay_loop.induct)
  case (1 c i r s n)
  show ?case
  proof (cases "Parse r")
    case (POk v r1)
    show ?thesis
    proof (cases "Typ v \<noteq> CHR ''*'' \<or> Array v = []")
      case True
      then show ?thesis using 1 POk by (subst (asm) (3) replay_loop.simps) simp
    next
      case False
      show ?thesis
      proof (cases "replayCommand (c i) s (toUpper (Str (hd (Array v)))) (map Str (tl (Array v)))")
        case (Inl e)
        then show ?thesis using 1 POk False by (subst (asm) (3) replay_loop.simps) simp
      next
        case (Inr t)
        have "store_inv t" "maxMemoryBytes t = maxMemoryBytes s"
          using replayCommand_inv [OF Inr "1.prems"(2)] replayCommand_max [OF Inr] by auto
        moreover have "replay_loop c (Suc i) r1 t (Suc n) = Returns (s', n')"
          using "1.prems"(1) POk False Inr by (subst (asm) replay_loop.simps) simp
        ultimately show ?thesis using "1.IH"(3) [OF POk False Inr] by simp
      qed
    qed
  qed (use "1.prems" in \<open>simp_all add: replay_loop.simps [of c i r s n]\<close>)
qed

lemma aof_Replay_keeps:
  "aof_Replay c a s = Returns (s', n) \<Longrightarrow> store_inv s \<Longrightarrow> store_inv s' \<and> maxMemoryBytes s' = maxMemoryBytes s"
  unfolding aof_Replay_def by (rule replay_loop_keeps)

section \<open>The started server\<close>

lemma main_start_facts:
  assumes "main_start ev c contents = Returns srv"
  obtains s1 aof where
    "open_log ev c contents (store_SetMaxMemory (parseMBEnv (MAXMEMORY_MB ev) 0) store_New) = Returns (s1, aof)"
    "sv_handler srv = handler_SetEvents (NewRecorder (parseMsEnv (SLOWLOG_THRESHOLD_MS ev) 10) 128
        (sensitiveKeyPatterns (SENSITIVE_KEYS ev)))
       (handler_SetMaxMemory (parseMBEnv (MAXMEMORY_MB ev) 0) (handler_New s1 (REDIS_PASSWORD ev) aof))"
    "RequireAuth srv \<longleftrightarrow> REDIS_PASSWORD ev \<noteq> []"
  using assms by (auto simp: main_start_def Let_def server_New_def split: outcome.splits)

lemma handler_parts [simp]:
  "h_store (handler_SetEvents r (handler_SetMaxMemory m (handler_New s pw aof))) = s"
  "h_aof (handler_SetEvents r (handler_SetMaxMemory m (handler_New s pw aof))) = aof"
  "h_password (handler_SetEvents r (handler_SetMaxMemory m (handler_New s pw aof))) = pw"
  "h_maxMemoryBytes (handler_SetEvents r (handler_SetMaxMemory m (handler_New s pw aof))) = m"
  by (simp_all add: handler_SetEvents_def handler_SetMaxMemory_def handler_New_def)

lemma store_inv_start: "store_inv (store_SetMaxMemory m store_New)"
  using store_inv_empty by simp

lemma open_log_keeps:
  assumes "open_log ev c contents s = Returns (s1, aof)" "store_inv s"
  shows "store_inv s1 \<and> maxMemoryBytes s1 = maxMemoryBytes s"
  using assms aof_Replay_keeps
  by (auto simp: open_log_def Let_def split: if_splits outcome.splits)

lemma megabytes: "wrap64 (wrap64 (mb * 1024) * 1024) = wrap64 (mb * 1048576)"
  by (simp add: wrap64_word mult.commute flip: wi_hom_mult)

lemma atoi_Nil [simp]: "atoi [] = None"
  by (simp add: atoi_def)

lemma parseMBEnv_some: "atoi v = Some mb \<Longrightarrow> 0 < mb \<Longrightarrow> parseMBEnv v d = wrap64 (mb * 1048576)"
  by (auto simp: parseMBEnv_def Let_def megabytes)

text \<open>
  C26: The memory ceiling is the configured one, up to an overflow. A started server's store satisfies its invariants and
  shows the ceiling it enforces. For fewer than \<open>2 ^ 43\<close> megabytes a write is refused
  exactly if it would lift the estimate above the configured number of bytes, and what the
  log held is below it; but a multiple of \<open>2 ^ 44\<close> megabytes wraps to 0 and the store accepts
  everything.
\<close>

theorem memory_ceiling:
  assumes "main_start ev c contents = Returns srv" "atoi (MAXMEMORY_MB ev) = Some mb" "0 < mb"
  defines "s \<equiv> h_store (sv_handler srv)"
  shows "store_inv s \<and> h_maxMemoryBytes (sv_handler srv) = maxMemoryBytes s
    \<and> (mb < 2 ^ 43 \<longrightarrow> approxMemoryBytesLocked s \<le> mb * 1048576
         \<and> (checkMemoryLocked n s = Some ErrOOM \<longleftrightarrow> mb * 1048576 < approxMemoryBytesLocked s + n))
    \<and> (2 ^ 44 dvd mb \<longrightarrow> checkMemoryLocked n s = None)"
proof -
  let ?m = "parseMBEnv (MAXMEMORY_MB ev) 0"
  obtain s1 aof where o: "open_log ev c contents (store_SetMaxMemory ?m store_New) = Returns (s1, aof)"
    and h: "s = s1" "h_maxMemoryBytes (sv_handler srv) = ?m"
    using main_start_facts [OF assms(1)] unfolding s_def by (metis handler_parts(1,4))
  have keeps: "store_inv s" "maxMemoryBytes s = ?m"
    using open_log_keeps [OF o store_inv_start] h by (simp_all add: store_SetMaxMemory_def)
  have m: "?m = wrap64 (mb * 1048576)" using parseMBEnv_some [OF assms(2,3)] .
  have small: "?m = mb * 1048576" if "mb < 2 ^ 43"
    unfolding m using that assms(3) by (intro wrap64_id) (simp add: int64_def)
  have large: "?m = 0" if d: "2 ^ 44 dvd mb"
  proof -
    obtain j where "mb = 2 ^ 44 * j" using d unfolding dvd_def by blast
    then have "mb * 1048576 + 2 ^ 63 = 2 ^ 63 + j * 2 ^ 64" by simp
    then have "(mb * 1048576 + 2 ^ 63) mod 2 ^ 64 = 2 ^ 63"
      by (simp only: mod_mult_self1) simp
    then show ?thesis by (simp add: m wrap64_def)
  qed
  have "mem_ok s" using keeps(1) by (simp add: store_inv_def)
  then show ?thesis
    using keeps h(2) small large assms(3) by (auto simp: mem_ok_def checkMemoryLocked_def)
qed

lemma main_start_no_log: "AOF_PATH ev = [] \<Longrightarrow> \<exists>srv. main_start ev c contents = Returns srv"
  by (simp add: main_start_def open_log_def Let_def)

theorem memory_ceiling_witness:
  "\<exists>srv. main_start \<lparr>MAXMEMORY_MB = itoa (2 ^ 44), REDIS_PASSWORD = [], AOF_PATH = [], AOF_FSYNC = [],
       AOF_REWRITE_SIZE_MB = [], SLOWLOG_THRESHOLD_MS = [], SENSITIVE_KEYS = [], DASHBOARD_PORT = None,
       DASHBOARD_PASSWORD = []\<rparr> int [] = Returns srv
     \<and> checkMemoryLocked 1000000 (h_store (sv_handler srv)) = None"
proof -
  let ?ev = "\<lparr>MAXMEMORY_MB = itoa (2 ^ 44), REDIS_PASSWORD = [], AOF_PATH = [], AOF_FSYNC = [],
       AOF_REWRITE_SIZE_MB = [], SLOWLOG_THRESHOLD_MS = [], SENSITIVE_KEYS = [], DASHBOARD_PORT = None,
       DASHBOARD_PASSWORD = []\<rparr>"
  have "AOF_PATH ?ev = []" by simp
  from main_start_no_log [OF this] obtain srv where m: "main_start ?ev int [] = Returns srv" ..
  have "int64 (2 ^ 44)" by (simp add: int64_def)
  then have a: "atoi (MAXMEMORY_MB ?ev) = Some (2 ^ 44)" by (simp only: environ.select_convs atoi_itoa)
  have "checkMemoryLocked 1000000 (h_store (sv_handler srv)) = None"
    using memory_ceiling [OF m a, of 1000000] by (simp only: zero_less_power zero_less_numeral dvd_refl simp_thms)
  with m show ?thesis by blast
qed

section \<open>Redaction patterns\<close>

text \<open>The value of \<open>SENSITIVE_KEYS\<close> that lists some patterns.\<close>

fun comma_separated :: "string list \<Rightarrow> string" where
  "comma_separated [] = []"
| "comma_separated [p] = p"
| "comma_separated (p # ps) = p @ CHR '','' # comma_separated ps"

lemma splitOn_append:
  "CHR '','' \<notin> set p \<Longrightarrow> splitOn (CHR '','') (p @ CHR '','' # s) = p # splitOn (CHR '','') s"
  by (induction p) auto

lemma splitOn_plain: "CHR '','' \<notin> set p \<Longrightarrow> splitOn (CHR '','') p = [p]"
  by (induction p) auto

lemma splitOn_comma_separated:
  "ps \<noteq> [] \<Longrightarrow> list_all (\<lambda>p. CHR '','' \<notin> set p) ps \<Longrightarrow> splitOn (CHR '','') (comma_separated ps) = ps"
  by (induction ps rule: comma_separated.induct) (auto simp: splitOn_append splitOn_plain)

lemma keep_patterns_id: "list_all (\<lambda>p. p \<noteq> [] \<and> trimSpace p = p) ps \<Longrightarrow> keep_patterns ps = ps"
  by (induction ps) (auto simp: Let_def)

lemma comma_separated_Nil: "list_all (\<lambda>p. p \<noteq> []) ps \<Longrightarrow> comma_separated ps = [] \<longleftrightarrow> ps = []"
  by (induction ps rule: comma_separated.induct) auto

lemma patterns_as_configured:
  assumes "list_all (\<lambda>p. CHR '','' \<notin> set p) ps" "list_all (\<lambda>p. p \<noteq> [] \<and> trimSpace p = p) ps"
  shows "sensitiveKeyPatterns (comma_separated ps) = ps"
proof (cases "ps = []")
  case False
  have "list_all (\<lambda>p. p \<noteq> []) ps" using assms(2) by (auto simp: list_all_iff)
  with False have "comma_separated ps \<noteq> []" by (simp add: comma_separated_Nil)
  then show ?thesis
    using splitOn_comma_separated [OF False assms(1)] keep_patterns_id [OF assms(2)]
    by (simp add: sensitiveKeyPatterns_def)
qed (simp add: sensitiveKeyPatterns_def)

section \<open>Restarts\<close>

text \<open>
  The life of an installation: the server of \<open>srv_step\<close> under the configured ceiling, and restarts.  The process ends by a
  signal, which syncs the log, or by a crash, at any moment and also while a rewrite runs;
  then it is started again with the same environment on the file it left.
\<close>

inductive life_step :: "string set \<Rightarrow> environ \<Rightarrow> Handler \<times> Snapshot option \<Rightarrow> Handler \<times> Snapshot option \<Rightarrow> bool"
  for K ev where
  running: "srv_step K (parseMBEnv (MAXMEMORY_MB ev) 0) x y \<Longrightarrow> life_step K ev x y"
| restart: "h' = h \<or> h' = main_shutdown ose h \<Longrightarrow> h_aof h' = Some a \<Longrightarrow>
     main_start ev c (aof_file a) = Returns srv \<Longrightarrow> life_step K ev (h, sn) (sv_handler srv, None)"

lemma started_live:
  assumes "main_start ev c contents = Returns srv" "AOF_PATH ev \<noteq> []"
  obtains s1 n t where
    "aof_Replay c (NewAOF contents (ParseFsyncPolicy (AOF_FSYNC ev)))
       (store_SetMaxMemory (parseMBEnv (MAXMEMORY_MB ev) 0) store_New) = Returns (s1, n)"
    "live_of (sv_handler srv, None) = \<lparr>mem = s1,
       log = aof_SetRewriteThreshold t (NewAOF contents (ParseFsyncPolicy (AOF_FSYNC ev))), running = None\<rparr>"
    "h_aof (sv_handler srv) \<noteq> None"
proof -
  obtain s1 aof where o: "open_log ev c contents (store_SetMaxMemory (parseMBEnv (MAXMEMORY_MB ev) 0) store_New)
      = Returns (s1, aof)"
    and h: "h_store (sv_handler srv) = s1" "h_aof (sv_handler srv) = aof"
    using main_start_facts [OF assms(1)] by (metis handler_parts(1,2))
  from o assms(2) obtain n where
    "aof_Replay c (NewAOF contents (ParseFsyncPolicy (AOF_FSYNC ev)))
       (store_SetMaxMemory (parseMBEnv (MAXMEMORY_MB ev) 0) store_New) = Returns (s1, n)"
    "aof = Some (aof_SetRewriteThreshold (parseMBEnv (AOF_REWRITE_SIZE_MB ev) 64)
       (NewAOF contents (ParseFsyncPolicy (AOF_FSYNC ev))))"
    by (auto simp: open_log_def Let_def split: outcome.splits)
  with h show thesis by (intro that) (auto simp: live_of_def)
qed

text \<open>The ceiling of the configured store, which is also that of the store that replays.\<close>

abbreviation ceiling_of :: "environ \<Rightarrow> int" where
  "ceiling_of ev \<equiv> parseMBEnv (MAXMEMORY_MB ev) 0"

abbreviation logs_faithfully :: "string set \<Rightarrow> environ \<Rightarrow> bool" where
  "logs_faithfully K ev \<equiv> AOF_PATH ev \<noteq> [] \<and> (ceiling_of ev \<le> 0 \<or> K = UNIV)"

text \<open>
  A start on the file of a server, torn or not, does not panic, and gives back the keyspace that the file describes.
\<close>

definition gives_back :: "string set \<Rightarrow> environ \<Rightarrow> Server \<Rightarrow> keyspace \<Rightarrow> bool" where
  "gives_back K ev srv v \<longleftrightarrow>
     (let s = view (h_store (sv_handler srv))
      in ks_list s = ks_list v \<and> ks_hash s = ks_hash v \<and> (\<forall>k\<in>K. ks_str s k = ks_str v k))
     \<and> h_password (sv_handler srv) = REDIS_PASSWORD ev \<and> (RequireAuth srv \<longleftrightarrow> REDIS_PASSWORD ev \<noteq> [])"

lemma start_torn:
  assumes "torn_log K (ceiling_of ev) contents v" "logs_faithfully K ev"
  shows "\<exists>srv. main_start ev c contents = Returns srv \<and> gives_back K ev srv v"
proof -
  let ?a = "NewAOF contents (ParseFsyncPolicy (AOF_FSYNC ev))"
  have "torn_log K (ceiling_of ev) (aof_file ?a) v" using assms(1) by (simp add: NewAOF_def)
  moreover have "ceiling_of ev \<le> 0 \<or> ceiling_of ev = ceiling_of ev \<and> K = UNIV" using assms(2) by blast
  ultimately obtain s1 n where r: "aof_Replay c ?a (store_SetMaxMemory (ceiling_of ev) store_New) = Returns (s1, n)"
    "agree K (view s1) v" using torn_recovers by blast
  then have "\<exists>srv. main_start ev c contents = Returns srv"
    by (auto simp: main_start_def open_log_def Let_def)
  then obtain srv where srv: "main_start ev c contents = Returns srv" ..
  have "AOF_PATH ev \<noteq> []" using assms(2) by blast
  from started_live [OF srv this] r(1) have "h_store (sv_handler srv) = s1" by (auto simp: live_of_def)
  moreover have "h_password (sv_handler srv) = REDIS_PASSWORD ev \<and> (RequireAuth srv \<longleftrightarrow> REDIS_PASSWORD ev \<noteq> [])"
    using main_start_facts [OF srv] by (metis handler_parts(3))
  ultimately show ?thesis using srv r(2) by (auto simp: gives_back_def agree_def Let_def)
qed

lemma restart_live:
  assumes "live_inv K (ceiling_of ev) l" "logs_faithfully K ev" "contents = aof_file (log l)"
    "main_start ev c contents = Returns srv"
  shows "live_inv K (ceiling_of ev) (live_of (sv_handler srv, None)) \<and> agree K (view (h_store (sv_handler srv))) (view (mem l))
    \<and> h_aof (sv_handler srv) \<noteq> None"
proof -
  let ?m = "ceiling_of ev" and ?a = "NewAOF contents (ParseFsyncPolicy (AOF_FSYNC ev))"
  obtain s1 n t where r: "aof_Replay c ?a (store_SetMaxMemory ?m store_New) = Returns (s1, n)"
    and l: "live_of (sv_handler srv, None) = \<lparr>mem = s1, log = aof_SetRewriteThreshold t ?a, running = None\<rparr>"
    and a: "h_aof (sv_handler srv) \<noteq> None"
    using started_live [OF assms(4)] assms(2) by blast
  have st: "h_store (sv_handler srv) = s1" using l by (simp add: live_of_def)
  have "aof_file ?a = aof_file (log l)" using assms(3) by (simp add: NewAOF_def)
  moreover have "?m \<le> 0 \<or> ?m = ?m \<and> K = UNIV" using assms(2) by blast
  ultimately have v: "agree K (view s1) (view (mem l))" using live_recovers [OF assms(1), of ?m ?a c] r by auto
  have "runs ?m s1"
    using aof_Replay_keeps [OF r store_inv_start] by (simp add: runs_def store_SetMaxMemory_def)
  moreover have "on_disk K ?m (live_of (sv_handler srv, None))"
    using assms(1,3) restores_agree [OF _ agree_sym [OF v]]
    by (auto simp: l live_inv_def on_disk_def NewAOF_def aof_SetRewriteThreshold_def)
  moreover have "no_ttl K (view s1)" using assms(1) agree_no_ttl [OF v] by (simp add: live_inv_def)
  ultimately show ?thesis
    using a st v
    by (simp add: l live_inv_def rewrite_ok_def NewAOF_def aof_SetRewriteThreshold_def)
qed

lemma main_shutdown_file:
  "h_aof (main_shutdown ose h) = Some a \<Longrightarrow> aof_file a = aof_file (the (h_aof h)) \<and> h_aof h \<noteq> None"
  by (auto simp: main_shutdown_def aof_Sync_def split: option.splits os_sync.splits)

lemma life_step_inv:
  assumes "life_step K ev x y" "logs_faithfully K ev" "srv_inv K (ceiling_of ev) x"
  shows "srv_inv K (ceiling_of ev) y"
  using assms(1)
proof (cases rule: life_step.cases)
  case running
  then show ?thesis using srv.step_keeps assms(3) by blast
next
  case (restart h' h ose a c serv sn)
  have "aof_file a = aof_file (log (live_of x))"
    using restart main_shutdown_file by (auto simp: live_of_def)
  moreover have "live_inv K (ceiling_of ev) (live_of x)" using assms(3) by (simp add: srv_inv_def)
  ultimately show ?thesis
    using restart_live [OF _ assms(2) _ restart(5)] restart(2) by (simp add: srv_inv_def)
qed

interpretation life: transition_invariant "\<lambda>x y. life_step K ev x y \<and> logs_faithfully K ev" "srv_inv K (ceiling_of ev)" for K ev
  by unfold_locales (use life_step_inv in blast)

section \<open>What a power cut leaves\<close>

text \<open>The log of a server: it has one, under the configured policy.\<close>

definition log_of :: "Handler \<times> Snapshot option \<Rightarrow> AOF" where
  "log_of x = log (live_of x)"

lemma life_step_file:
  assumes "life_step K ev x y" "logs_faithfully K ev" "srv_inv K (ceiling_of ev) x" "fsync (log_of x) = ParseFsyncPolicy (AOF_FSYNC ev)"
  shows "fsync (log_of y) = ParseFsyncPolicy (AOF_FSYNC ev)
     \<and> (synced (log_of y) = length (aof_file (log_of y)) \<or> synced (log_of y) = synced (log_of x)
        \<and> (aof_file (log_of y) = aof_file (log_of x)
            \<or> fsync (log_of x) \<noteq> FsyncAlways \<and> (\<exists>c. fits c \<and> aof_file (log_of y) = aof_file (log_of x) @ arrayBytes c)))"
  using assms(1)
proof (cases rule: life_step.cases)
  case running
  from srv_step_refines [OF this assms(3)] aof_step_file [of K "ceiling_of ev" "live_of x" "live_of y"] assms(4)
  show ?thesis by (simp add: log_of_def)
next
  case (restart h' h ose a c serv sn)
  have "AOF_PATH ev \<noteq> []" using assms(2) by blast
  from started_live [OF restart(5) this] restart(2) show ?thesis
    by (metis NewAOF_def aof_SetRewriteThreshold_def AOF.select_convs(1,2,4) AOF.simps live.select_convs(2) log_of_def)
qed

text \<open>Under the policy \<open>always\<close> every byte is on the disk.\<close>

definition durable :: "environ \<Rightarrow> AOF \<Rightarrow> bool" where
  "durable ev a \<longleftrightarrow> fsync a = ParseFsyncPolicy (AOF_FSYNC ev) \<and> (fsync a = FsyncAlways \<longrightarrow> synced a = length (aof_file a))"

text \<open>
  Whatever part of the file behind its synced bytes a power cut takes away, what is left describes a state that
  the server has been in.
\<close>

definition cut_ok :: "string set \<Rightarrow> environ \<Rightarrow> Handler \<times> Snapshot option \<Rightarrow> Handler \<times> Snapshot option \<Rightarrow> bool" where
  "cut_ok K ev x0 x \<longleftrightarrow> (\<forall>n \<ge> synced (log_of x). \<exists>y. (life_step K ev)\<^sup>*\<^sup>* x0 y \<and> (life_step K ev)\<^sup>*\<^sup>* y x
     \<and> torn_log K (ceiling_of ev) (take n (aof_file (log_of x))) (view (h_store (fst y))))"

lemma srv_on_disk: "srv_inv K C x \<Longrightarrow> on_disk K C (live_of x)"
  by (simp add: srv_inv_def live_inv_def)

lemma torn_whole:
  "srv_inv K C x \<Longrightarrow> length (aof_file (log_of x)) \<le> n \<Longrightarrow> torn_log K C (take n (aof_file (log_of x))) (view (h_store (fst x)))"
  using on_disk_whole [OF srv_on_disk, of K C x] by (simp add: log_of_def) (simp add: live_of_def)

lemma cut_ok_step:
  assumes x: "(life_step K ev)\<^sup>*\<^sup>* x0 x" "cut_ok K ev x0 x" and step: "life_step K ev x y"
    and inv: "logs_faithfully K ev" "srv_inv K (ceiling_of ev) x" "srv_inv K (ceiling_of ev) y" "durable ev (log_of x)"
  shows "cut_ok K ev x0 y"
  unfolding cut_ok_def
proof (intro allI impI)
  fix n assume n: "synced (log_of y) \<le> n"
  let ?C = "ceiling_of ev" and ?fx = "aof_file (log_of x)" and ?fy = "aof_file (log_of y)"
  let ?P = "\<lambda>z. (life_step K ev)\<^sup>*\<^sup>* x0 z \<and> (life_step K ev)\<^sup>*\<^sup>* z y \<and> torn_log K ?C (take n ?fy) (view (h_store (fst z)))"
  have xy: "(life_step K ev)\<^sup>*\<^sup>* x0 y" using x(1) step by (rule rtranclp.rtrancl_into_rtrancl)
  have last: "?P y" if "length ?fy \<le> n" using xy torn_whole [OF inv(3) that] by simp
  have old: "\<exists>z. ?P z" if "synced (log_of x) \<le> n" "take n ?fy = take n ?fx"
    using x(2) that step unfolding cut_ok_def by (metis rtranclp.rtrancl_into_rtrancl)
  have "fsync (log_of x) = ParseFsyncPolicy (AOF_FSYNC ev)" using inv(4) by (simp add: durable_def)
  from life_step_file [OF step inv(1,2) this] consider "synced (log_of y) = length ?fy"
    | "synced (log_of y) = synced (log_of x)" "?fy = ?fx"
    | c where "synced (log_of y) = synced (log_of x)" "fits c" "?fy = ?fx @ arrayBytes c" by blast
  then show "\<exists>z. ?P z"
  proof cases
    case 1
    with n last have "?P y" by simp
    then show ?thesis by blast
  next
    case 2
    with n old show ?thesis by simp
  next
    case 3
    show ?thesis
    proof (cases "n \<le> length ?fx \<or> length ?fy \<le> n")
      case True
      then show ?thesis
      proof
        assume "n \<le> length ?fx"
        with 3 n old show ?thesis by simp
      next
        assume "length ?fy \<le> n"
        from last [OF this] show ?thesis by blast
      qed
    next
      case False
      let ?t = "take (n - length ?fx) (arrayBytes c)" and ?u = "drop (n - length ?fx) (arrayBytes c)"
      have "n - length ?fx < length (arrayBytes c)" using False 3(3) by auto
      then have u: "arrayBytes c = ?t @ ?u" "?u \<noteq> []" by simp_all
      from on_disk_torn [OF srv_on_disk [OF inv(2)] 3(2) u]
      have "torn_log K ?C (take n ?fy) (view (h_store (fst x)))"
        using False 3(3) by (simp add: log_of_def) (simp add: live_of_def)
      moreover have "(life_step K ev)\<^sup>*\<^sup>* x y" using step by simp
      ultimately show ?thesis using x(1) by blast
    qed
  qed
qed

lemma life_reaches:
  assumes "logs_faithfully K ev" "(life_step K ev)\<^sup>*\<^sup>* x0 x" "srv_inv K (ceiling_of ev) x0" "durable ev (log_of x0)"
    "cut_ok K ev x0 x0"
  shows "srv_inv K (ceiling_of ev) x \<and> durable ev (log_of x) \<and> cut_ok K ev x0 x"
  using assms(2)
proof (induction rule: rtranclp_induct)
  case (step x y)
  have y: "srv_inv K (ceiling_of ev) y" using life_step_inv [OF step.hyps(2) assms(1)] step.IH by blast
  moreover have "durable ev (log_of y)"
    using life_step_file [OF step.hyps(2) assms(1)] step.IH by (auto simp: durable_def)
  ultimately show ?case using cut_ok_step [OF step.hyps(1) _ step.hyps(2) assms(1) _ y] step.IH by blast
qed (use assms in simp)

text \<open>
  C5: Restarts keep the data. Configure a log file, start on an empty one, and let clients send any commands the log
  accepts, expiry and fsync ticks and rewrites happen (rewrites only if no memory ceiling is configured),
  and the process end between two of these steps and be started again any number of times. The keys of \<open>K\<close>
  never have an expiry; with a ceiling configured these must be all keys.  To give a state back is to have its lists
  and hashes, its strings of \<open>K\<close>, and the configured password and gate.  Then, at every moment, the next
  start succeeds and gives back
  (1) the state now, if the whole file is left;
  (2) the state now, if the process died while the record of a further command was being appended;
  (3) if a power cut took the end of the file, but nothing that was synced or that the last start found in it, a state
  the server has been in;
  and (4) with the policy \<open>always\<close> everything is synced, so that nothing that was acknowledged is lost.
  After (2) and (3) the file can end in a torn record, and the run is not continued here:
  \<open>Aof_Replay\<close> shows what the code then does to the next commands.
\<close>

theorem restarts_keep_data:
  assumes "AOF_PATH ev \<noteq> [] \<and> (parseMBEnv (MAXMEMORY_MB ev) 0 \<le> 0 \<or> K = UNIV)" "main_start ev c0 [] = Returns srv0"
    "(life_step K ev)\<^sup>*\<^sup>* (sv_handler srv0, None) (h, sn)" "h_aof h = Some a"
  shows "(\<exists>srv. main_start ev c (aof_file a) = Returns srv \<and> gives_back K ev srv (view (h_store h)))
     \<and> (\<forall>cmd args n. fits (cmd # args) \<longrightarrow> n < length (arrayBytes (cmd # args)) \<longrightarrow>
          (\<exists>srv. main_start ev c (aof_file a @ take n (arrayBytes (cmd # args))) = Returns srv
             \<and> gives_back K ev srv (view (h_store h))))
     \<and> (\<forall>n \<ge> synced a. \<exists>srv h' sn'. main_start ev c (take n (aof_file a)) = Returns srv
          \<and> (life_step K ev)\<^sup>*\<^sup>* (sv_handler srv0, None) (h', sn') \<and> (life_step K ev)\<^sup>*\<^sup>* (h', sn') (h, sn)
          \<and> gives_back K ev srv (view (h_store h')))
     \<and> (ParseFsyncPolicy (AOF_FSYNC ev) = FsyncAlways \<longrightarrow> synced a = length (aof_file a))"
proof -
  let ?x0 = "(sv_handler srv0, None)" and ?l = "started (ceiling_of ev) FsyncNo" and ?C = "ceiling_of ev"
  have f: "[] = aof_file (log ?l)" by (simp add: started_def NewAOF_def)
  have "live_inv K ?C ?l" by (rule live_started) simp
  from restart_live [OF this assms(1) f assms(2)]
  have i: "srv_inv K ?C ?x0" by (simp add: srv_inv_def)
  have "AOF_PATH ev \<noteq> []" using assms(1) by blast
  from started_live [OF assms(2) this]
  have l0: "aof_file (log_of ?x0) = [] \<and> synced (log_of ?x0) = 0 \<and> fsync (log_of ?x0) = ParseFsyncPolicy (AOF_FSYNC ev)"
    by (metis log_of_def live.select_convs(2) NewAOF_def aof_SetRewriteThreshold_def AOF.simps list.size(3))
  have "cut_ok K ev ?x0 ?x0"
    unfolding cut_ok_def using torn_whole [OF i] l0 by auto
  from life_reaches [OF assms(1,3) i _ this] l0
  have x: "srv_inv K ?C (h, sn)" "durable ev (log_of (h, sn))" "cut_ok K ev ?x0 (h, sn)"
    by (simp_all add: durable_def)
  have la: "log_of (h, sn) = a" using assms(4) by (simp add: log_of_def live_of_def)
  have 1: "\<exists>srv. main_start ev c (aof_file a) = Returns srv \<and> gives_back K ev srv (view (h_store h))"
    using start_torn [OF _ assms(1)] torn_whole [OF x(1) order.refl] by (simp add: la)
  have 2: "\<exists>srv. main_start ev c (aof_file a @ take n (arrayBytes (cmd # args))) = Returns srv
      \<and> gives_back K ev srv (view (h_store h))" if "fits (cmd # args)" "n < length (arrayBytes (cmd # args))" for cmd args n
  proof (rule start_torn [OF _ assms(1)])
    have "arrayBytes (cmd # args) = take n (arrayBytes (cmd # args)) @ drop n (arrayBytes (cmd # args))"
      "drop n (arrayBytes (cmd # args)) \<noteq> []" using that(2) by simp_all
    from on_disk_torn [OF srv_on_disk [OF x(1)] that(1) this]
    show "torn_log K ?C (aof_file a @ take n (arrayBytes (cmd # args))) (view (h_store h))"
      using la by (simp add: log_of_def) (simp add: live_of_def)
  qed
  have 3: "\<exists>srv h' sn'. main_start ev c (take n (aof_file a)) = Returns srv
      \<and> (life_step K ev)\<^sup>*\<^sup>* ?x0 (h', sn') \<and> (life_step K ev)\<^sup>*\<^sup>* (h', sn') (h, sn)
      \<and> gives_back K ev srv (view (h_store h'))" if n: "synced a \<le> n" for n
  proof -
    obtain y where y: "(life_step K ev)\<^sup>*\<^sup>* ?x0 y" "(life_step K ev)\<^sup>*\<^sup>* y (h, sn)"
      "torn_log K ?C (take n (aof_file a)) (view (h_store (fst y)))"
      using x(3) n unfolding cut_ok_def la by blast
    from start_torn [OF y(3) assms(1), of c] y(1,2) show ?thesis by (cases y) auto
  qed
  have 4: "ParseFsyncPolicy (AOF_FSYNC ev) = FsyncAlways \<longrightarrow> synced a = length (aof_file a)"
    using x(2) by (simp add: durable_def la)
  show ?thesis using 1 2 3 4 by blast
qed

lemma unset_ceiling [simp]: "parseMBEnv [] 0 = 0"
  by (simp add: parseMBEnv_def int64_def)

text \<open>An installation that stores one list, crashes, and is started again.\<close>

definition test_environ :: environ where
  "test_environ = \<lparr>MAXMEMORY_MB = [], REDIS_PASSWORD = ''pw'', AOF_PATH = ''aof'', AOF_FSYNC = [],
     AOF_REWRITE_SIZE_MB = [], SLOWLOG_THRESHOLD_MS = [], SENSITIVE_KEYS = [], DASHBOARD_PORT = None,
     DASHBOARD_PASSWORD = []\<rparr>"

lemma start_empty:
  "\<exists>srv a. main_start test_environ int [] = Returns srv \<and> h_store (sv_handler srv) = store_New
     \<and> h_aof (sv_handler srv) = Some a \<and> writer_err a = None"
  by (simp add: main_start_def open_log_def test_environ_def aof_Replay_def NewAOF_def
      replay_loop.simps [of int 0 "[]"] server_New_def aof_SetRewriteThreshold_def Let_def
      store_SetMaxMemory_def store_New_def)

theorem restarts_keep_data_witness:
  "\<exists>srv0 h a srv. main_start test_environ int [] = Returns srv0
     \<and> (life_step UNIV test_environ)\<^sup>*\<^sup>* (sv_handler srv0, None) (h, None) \<and> h_aof h = Some a
     \<and> main_start test_environ int (aof_file a) = Returns srv
     \<and> ks_list (view (h_store (sv_handler srv))) ''l'' = Some [''x''] \<and> RequireAuth srv"
proof -
  obtain srv0 a0 where m: "main_start test_environ int [] = Returns srv0" "h_store (sv_handler srv0) = store_New"
    "h_aof (sv_handler srv0) = Some a0" "writer_err a0 = None"
    using start_empty by blast
  define h where "h = pushed ''x'' [] a0 (sv_handler srv0)"
  have "srv_step UNIV (parseMBEnv (MAXMEMORY_MB test_environ) 0) (sv_handler srv0, None) (h, None)"
    unfolding h_def by (rule rpush_step) (use m in \<open>simp_all add: small_def maxAlloc_def store_New_def\<close>)
  then have run: "(life_step UNIV test_environ)\<^sup>*\<^sup>* (sv_handler srv0, None) (h, None)"
    by (intro r_into_rtranclp life_step.running)
  have cfg: "AOF_PATH test_environ \<noteq> [] \<and> (parseMBEnv (MAXMEMORY_MB test_environ) 0 \<le> 0 \<or> UNIV = (UNIV :: string set))"
    by (simp add: test_environ_def)
  have ao: "h_aof h = Some (snd (writeLocked (os test_env) ''RPUSH'' [''l'', ''x''] a0))" by (simp add: h_def)
  have "ks_list (view (h_store h)) ''l'' = Some [''x'']"
    by (simp add: h_def m(2)) (simp add: view_def store_New_def get_list_def)
  then show ?thesis
    using restarts_keep_data [OF cfg m(1) run ao, THEN conjunct1, of int] m(1) run ao
    by (force simp: test_environ_def gives_back_def Let_def)
qed

end
