(* ===== verification/Dashboard.thy ===== *)
theory Dashboard
  imports Config
begin

text \<open>
  The dashboard, \<open>monitor/dashboard.go\<close>: who is let in, and what one connection to the event
  stream is sent.

  A connection's loop takes what its \<open>select\<close> offers; the list of its choices is given, with
  what others do to the recorder in between.  Writing to the client succeeds while the
  connection lives.  The bytes that are written are the subject of \<open>Dashboard_Stream\<close>, the page
  of \<open>Page\<close>; the HTTP plumbing is not modelled, the digest is a parameter.
\<close>

section \<open>Requests\<close>

datatype response = Unauthorized | NotFound | Page | EventStream

definition serve_path :: "string \<Rightarrow> response" where
  "serve_path path =
     (if path = ''/monitor'' then EventStream else if path \<noteq> ''/'' then NotFound else Page)"

definition requireAuth ::
  "(string \<Rightarrow> string) \<Rightarrow> string \<Rightarrow> (string \<Rightarrow> response) \<Rightarrow> string \<Rightarrow> (string \<times> string) option \<Rightarrow> response" where
  "requireAuth sha password next path basicAuth =
     (let want = sha password
      in case basicAuth of
           None \<Rightarrow> Unauthorized
         | Some (user, pass) \<Rightarrow> if want \<noteq> sha pass then Unauthorized else next path)"

definition StartDashboard ::
  "(string \<Rightarrow> string) \<Rightarrow> string \<Rightarrow> string \<Rightarrow> (string \<times> string) option \<Rightarrow> response" where
  "StartDashboard sha password =
     (if password \<noteq> [] then requireAuth sha password serve_path else (\<lambda>path basicAuth. serve_path path))"

text \<open>With a password set, only its bearer is served, provided no other password has its digest.\<close>

lemma dashboard_gate:
  assumes "password \<noteq> []" "\<forall>p. sha p = sha password \<longrightarrow> p = password"
  shows "StartDashboard sha password path basicAuth \<noteq> Unauthorized \<longleftrightarrow> (\<exists>user. basicAuth = Some (user, password))"
proof -
  have "sha password \<noteq> sha p \<longleftrightarrow> p \<noteq> password" for p using assms(2) by metis
  then show ?thesis
    using assms(1) by (auto simp: StartDashboard_def requireAuth_def serve_path_def split: option.splits)
qed

text \<open>What \<open>main\<close> starts, if it starts a dashboard: the port and who answers there.\<close>

definition main_dashboard ::
  "(string \<Rightarrow> string) \<Rightarrow> environ \<Rightarrow> (string \<times> (string \<Rightarrow> (string \<times> string) option \<Rightarrow> response)) option" where
  "main_dashboard sha ev =
     (let port = dashboardPortOrDefault (DASHBOARD_PORT ev)
      in if port \<noteq> [] then Some (port, StartDashboard sha (DASHBOARD_PASSWORD ev)) else None)"

lemma dashboard_configured:
  assumes "DASHBOARD_PASSWORD ev \<noteq> []" "\<forall>p. sha p = sha (DASHBOARD_PASSWORD ev) \<longrightarrow> p = DASHBOARD_PASSWORD ev"
    "main_dashboard sha ev = Some (port, serve)"
  shows "serve path basicAuth \<noteq> Unauthorized \<longleftrightarrow> (\<exists>user. basicAuth = Some (user, DASHBOARD_PASSWORD ev))"
  using dashboard_gate [OF assms(1,2)] assms(3) by (auto simp: main_dashboard_def Let_def split: if_splits)

section \<open>Statistics\<close>

record Stats =
  st_Uptime :: string
  st_Conns :: int
  st_Commands :: int
  st_OpsPerSec :: int
  st_Keys :: int
  st_Expires :: int
  st_AOFPath :: string
  st_GoVersion :: string
  st_MemoryUsedBytes :: int
  st_MemoryMaxBytes :: int

definition no_Stats :: Stats where
  "no_Stats = \<lparr>st_Uptime = [], st_Conns = 0, st_Commands = 0, st_OpsPerSec = 0, st_Keys = 0, st_Expires = 0,
     st_AOFPath = [], st_GoVersion = [], st_MemoryUsedBytes = 0, st_MemoryMaxBytes = 0\<rparr>"

text \<open>\<open>uptime\<close> is the printed duration, \<open>ver\<close> the version of the runtime.\<close>

definition getStats :: "environ \<Rightarrow> string \<Rightarrow> string \<Rightarrow> Server \<Rightarrow> Stats" where
  "getStats ev uptime ver srv =
     (let s = h_store (sv_handler srv)
      in \<lparr>st_Uptime = uptime, st_Conns = server_Connections srv, st_Commands = server_Commands srv,
          st_OpsPerSec = 0, st_Keys = store_KeyCount s, st_Expires = store_ExpiryCount s,
          st_AOFPath = (if AOF_PATH ev = [] then ''(disabled)'' else AOF_PATH ev), st_GoVersion = ver,
          st_MemoryUsedBytes = store_ApproxMemoryBytes s,
          st_MemoryMaxBytes = parseMBEnv (MAXMEMORY_MB ev) 0\<rparr>)"

section \<open>The event stream\<close>

text \<open>Without a recorder the three slices of a \<open>statsPayload\<close> stay nil.\<close>

datatype message =
    StatsMsg Stats "(SlowEntry list \<times> HotKey list \<times> CommandStat list) option"
  | CmdMsg Event

record sse =
  evtCh :: "int option"
  lastCommands :: int
  sent :: "message list"

definition sendStats :: "Stats option \<Rightarrow> int \<Rightarrow> Recorder option \<Rightarrow> sse \<Rightarrow> sse" where
  "sendStats stats unix r d =
     (let st = (case stats of None \<Rightarrow> no_Stats | Some st \<Rightarrow> st);
          ops = (if lastCommands d = 0 then 0 else wrap64 (st_Commands st - lastCommands d));
          st' = st\<lparr>st_OpsPerSec := ops\<rparr>;
          payload = (case r of
              None \<Rightarrow> StatsMsg st' None
            | Some rec \<Rightarrow> StatsMsg st' (Some (SlowlogGet 20 rec, HotKeys unix 10 rec, CommandStats rec)))
      in d\<lparr>lastCommands := st_Commands st, sent := sent d @ [payload]\<rparr>)"

definition stream_open :: "Stats option \<Rightarrow> int \<Rightarrow> Recorder option \<Rightarrow> sse \<times> Recorder option" where
  "stream_open stats unix r =
     (case r of
        None \<Rightarrow> (sendStats stats unix None \<lparr>evtCh = None, lastCommands = 0, sent = []\<rparr>, None)
      | Some rec \<Rightarrow>
          (case Subscribe rec of
             (ch, rec') \<Rightarrow>
               (sendStats stats unix (Some rec') \<lparr>evtCh = Some ch, lastCommands = 0, sent = []\<rparr>, Some rec')))"

datatype pick = PickEvent | PickTick "Stats option" int | PickOther rec_op

fun stream_pick :: "pick \<Rightarrow> sse \<times> Recorder option \<Rightarrow> sse \<times> Recorder option" where
  "stream_pick PickEvent (d, r) =
     (case (evtCh d, r) of
        (Some ch, Some rec) \<Rightarrow>
          (case Receive ch rec of
             (None, rec') \<Rightarrow> (d, Some rec')
           | (Some evt, rec') \<Rightarrow> (d\<lparr>sent := sent d @ [CmdMsg evt]\<rparr>, Some rec'))
      | _ \<Rightarrow> (d, r))"
| "stream_pick (PickTick stats unix) (d, r) = (sendStats stats unix r d, r)"
| "stream_pick (PickOther x) (d, r) = (d, map_option (rec_step x) r)"

text \<open>The client goes away: the deferred \<open>unsubscribe\<close> runs.\<close>

definition stream_close :: "sse \<Rightarrow> Recorder option \<Rightarrow> Recorder option" where
  "stream_close d r =
     (case (evtCh d, r) of (Some ch, Some rec) \<Rightarrow> Some (Unsubscribe ch rec) | _ \<Rightarrow> r)"

section \<open>What a connection is sent\<close>

fun events_of :: "message list \<Rightarrow> Event list" where
  "events_of [] = []"
| "events_of (CmdMsg e # ms) = e # events_of ms"
| "events_of (StatsMsg st tables # ms) = events_of ms"

fun stats_of :: "message list \<Rightarrow> Stats list" where
  "stats_of [] = []"
| "stats_of (CmdMsg e # ms) = stats_of ms"
| "stats_of (StatsMsg st tables # ms) = st # stats_of ms"

lemma events_of_append [simp]: "events_of (ms @ ns) = events_of ms @ events_of ns"
  by (induction ms rule: events_of.induct) auto

lemma stats_of_append [simp]: "stats_of (ms @ ns) = stats_of ms @ stats_of ns"
  by (induction ms rule: stats_of.induct) auto

text \<open>The operations on the recorder that a run of the loop, and the others, make.\<close>

fun rec_ops :: "int \<Rightarrow> pick list \<Rightarrow> rec_op list" where
  "rec_ops i [] = []"
| "rec_ops i (PickEvent # ps) = OpReceive i # rec_ops i ps"
| "rec_ops i (PickTick stats unix # ps) = rec_ops i ps"
| "rec_ops i (PickOther x # ps) = x # rec_ops i ps"

lemma sendStats_simps [simp]: "evtCh (sendStats st u r d) = evtCh d"
  "events_of (sent (sendStats st u r d)) = events_of (sent d)"
  by (auto simp: sendStats_def Let_def split: option.split)

lemma stream_picks:
  assumes "list_all (\<lambda>p. p \<noteq> PickOther (OpReceive i)) ps" "evtCh d = Some i"
  shows "\<exists>d'. fold stream_pick ps (d, Some r) = (d', Some (fold rec_step (rec_ops i ps) r))
    \<and> evtCh d' = Some i \<and> events_of (sent d') = events_of (sent d) @ stream i (rec_ops i ps) r"
  using assms
proof (induction ps arbitrary: d r)
  case (Cons p ps)
  have ps: "list_all (\<lambda>p. p \<noteq> PickOther (OpReceive i)) ps" using Cons.prems(1) by simp
  show ?case
  proof (cases p)
    case PickEvent
    obtain e rec where rc: "Receive i r = (e, rec)" by (cases "Receive i r")
    define d1 where "d1 = (case e of None \<Rightarrow> d | Some evt \<Rightarrow> d\<lparr>sent := sent d @ [CmdMsg evt]\<rparr>)"
    have 1: "stream_pick p (d, Some r) = (d1, Some rec)"
      using rc Cons.prems(2) by (simp add: PickEvent d1_def split: option.split)
    have 2: "evtCh d1 = Some i" "events_of (sent d1) = events_of (sent d) @ (case e of None \<Rightarrow> [] | Some e \<Rightarrow> [e])"
      using Cons.prems(2) by (auto simp: d1_def split: option.split)
    show ?thesis using Cons.IH [OF ps 2(1), of rec] 1 2(2) rc by (auto simp: PickEvent split: option.split)
  next
    case (PickTick st u)
    have "evtCh (sendStats st u (Some r) d) = Some i" using Cons.prems(2) by simp
    from Cons.IH [OF ps this, of r] show ?thesis by (simp add: PickTick)
  next
    case (PickOther x)
    have "x \<noteq> OpReceive i" using Cons.prems(1) PickOther by simp
    with Cons.IH [OF ps Cons.prems(2), of "rec_step x r"] show ?thesis by (simp add: PickOther)
  qed
qed simp

section \<open>Operations per second\<close>

fun diffs :: "int \<Rightarrow> int list \<Rightarrow> int list" where
  "diffs l [] = []"
| "diffs l (c # cs) = (if l = 0 then 0 else wrap64 (c - l)) # diffs c cs"

definition first_nonzero :: "int list \<Rightarrow> int" where
  "first_nonzero cs = (case dropWhile (\<lambda>c. c = 0) cs of [] \<Rightarrow> 0 | c # _ \<Rightarrow> c)"

lemma diffs_snoc: "diffs l (cs @ [c]) = diffs l cs @ [if last (l # cs) = 0 then 0 else wrap64 (c - last (l # cs))]"
  by (induction cs arbitrary: l) auto

lemma sum_diffs:
  assumes "sorted (l # cs)" "0 \<le> l" "list_all int64 cs"
  shows "sum_list (diffs l cs) = last (l # cs) - first_nonzero (l # cs)"
  using assms
proof (induction cs arbitrary: l)
  case (Cons c cs)
  then have "int64 (c - l)" by (auto simp: int64_def)
  then show ?case
    using Cons by (auto simp: first_nonzero_def)
qed (simp add: first_nonzero_def)

definition ticks_ok :: "sse \<Rightarrow> bool" where
  "ticks_ok d \<longleftrightarrow>
     lastCommands d = last (0 # map st_Commands (stats_of (sent d)))
     \<and> map st_OpsPerSec (stats_of (sent d)) = diffs 0 (map st_Commands (stats_of (sent d)))"

lemma ticks_ok_send: "ticks_ok d \<Longrightarrow> ticks_ok (sendStats st u r d)"
  by (auto simp: ticks_ok_def sendStats_def Let_def diffs_snoc split: option.split)

lemma ticks_ok_picks: "ticks_ok d \<Longrightarrow> ticks_ok (fst (fold stream_pick ps (d, r)))"
proof (induction ps arbitrary: d r)
  case (Cons p ps)
  have "ticks_ok (fst (stream_pick p (d, r)))"
    using Cons.prems ticks_ok_send
    by (cases p) (auto simp: ticks_ok_def split: option.split prod.split)
  from Cons.IH [OF this, of "snd (stream_pick p (d, r))"] show ?case by simp
qed simp

lemma shown_commands:
  "map st_Commands (stats_of (sent (fst (stream_pick PickEvent x)))) = map st_Commands (stats_of (sent (fst x)))"
  "map st_Commands (stats_of (sent (fst (stream_pick (PickOther y) x)))) = map st_Commands (stats_of (sent (fst x)))"
  "map st_Commands (stats_of (sent (fst (stream_pick (PickTick (Some st) u) x))))
     = map st_Commands (stats_of (sent (fst x))) @ [st_Commands st]"
  by (cases x; auto simp: sendStats_def Let_def split: option.split prod.split)+

text \<open>
  C21: What a dashboard connection shows. Open a stream beside any recorder activity and let the connection's loop and
  everybody else go on in any order. The commands it has been sent are, in order and without
  repetition, a selection of those executed since, and none but those still in the channel is missing
  exactly if the loop kept up (\<open>keeps_up\<close>: no command was published while 32 were waiting; so always as long as no
  more than 32 have been, by \<open>few_events_keep_up\<close>); the operations per second it has been sent
  add up to the last command count less the first one that was not zero, provided the counts
  it was shown do not fall; and when it leaves, its subscription is gone.
\<close>

theorem dashboard_stream:
  assumes "stream_open st0 u0 (Some (fold rec_step before (NewRecorder thr len pats))) = (d0, Some r0)"
    "evtCh d0 = Some i"
    "list_all (\<lambda>p. p \<noteq> PickOther (OpReceive i) \<and> p \<noteq> PickOther (OpUnsubscribe i)) ps"
    "fold stream_pick ps (d0, Some r0) = (d, Some r)"
    "sorted (0 # map st_Commands (stats_of (sent d)))" "list_all int64 (map st_Commands (stats_of (sent d)))"
  shows "subseq (events_of (sent d)) (published pats (rec_ops i ps))
    \<and> (\<exists>buf. map_of (subs r) i = Some buf \<and> length buf \<le> 32
          \<and> (events_of (sent d) @ buf = published pats (rec_ops i ps) \<longleftrightarrow> keeps_up i 0 (rec_ops i ps)))
    \<and> sum_list (map st_OpsPerSec (stats_of (sent d)))
        = last (0 # map st_Commands (stats_of (sent d))) - first_nonzero (map st_Commands (stats_of (sent d)))
    \<and> map_option (\<lambda>rec. map_of (subs rec) i) (stream_close d (Some r)) = Some None"
proof -
  let ?r = "fold rec_step before (NewRecorder thr len pats)"
  obtain b where "(b, r0) = Subscribe ?r"
    and d0: "d0 = sendStats st0 u0 (Some r0) \<lparr>evtCh = Some b, lastCommands = 0, sent = []\<rparr>"
    using assms(1) by (auto simp: stream_open_def split: prod.splits)
  with assms(2) have sub: "(i, r0) = Subscribe ?r" by simp
  have ps: "list_all (\<lambda>p. p \<noteq> PickOther (OpReceive i)) ps" "OpUnsubscribe i \<notin> set (rec_ops i ps)"
    using assms(3) by (auto simp: list_all_iff) (induction ps rule: rec_ops.induct, auto)
  note r0 = subscribed [OF sub]
  from stream_picks [OF ps(1) assms(2), of r0] assms(4)
  have d: "r = fold rec_step (rec_ops i ps) r0" "evtCh d = Some i"
    "events_of (sent d) = events_of (sent d0) @ stream i (rec_ops i ps) r0" by auto
  from stream_correct [OF r0(1,3) ps(2)] obtain buf where buf: "map_of (subs r) i = Some buf"
    "stream_ok [] (published pats (rec_ops i ps)) (keeps_up i 0 (rec_ops i ps)) (events_of (sent d) @ buf)"
    using d r0(2) by (auto simp: d0)
  have "subseq (events_of (sent d) @ buf) (published pats (rec_ops i ps))"
    using buf(2) by (simp add: stream_ok_def)
  then have "subseq (events_of (sent d)) (published pats (rec_ops i ps))"
    by (rule subseq_order.trans [OF subseq_rev_drop_many [OF subseq_order.refl]])
  moreover have inv: "recorder_inv r" unfolding d(1) by (rule ev.run_inv [OF r0(1)]) (simp add: list_all_iff)
  have "\<exists>buf. map_of (subs r) i = Some buf \<and> length buf \<le> 32
      \<and> (events_of (sent d) @ buf = published pats (rec_ops i ps) \<longleftrightarrow> keeps_up i 0 (rec_ops i ps))"
    using buf inv by (auto simp: stream_ok_def recorder_inv_def subBuffer_def)
  moreover have "ticks_ok d"
  proof -
    have "ticks_ok d0" unfolding d0 by (rule ticks_ok_send) (simp add: ticks_ok_def)
    from ticks_ok_picks [OF this, of ps "Some r0"] assms(4) show ?thesis by simp
  qed
  then have "sum_list (map st_OpsPerSec (stats_of (sent d)))
      = last (0 # map st_Commands (stats_of (sent d))) - first_nonzero (0 # map st_Commands (stats_of (sent d)))"
    using sum_diffs [OF assms(5) _ assms(6)] by (simp add: ticks_ok_def del: last.simps)
  moreover have "map_option (\<lambda>rec. map_of (subs rec) i) (stream_close d (Some r)) = Some None"
    using d(2) buf(1) inv by (simp add: stream_close_def Unsubscribe_def delete_conv')
  ultimately show ?thesis by (simp add: first_nonzero_def)
qed

text \<open>A stream that sees 3, then 5 commands, and one of them live.\<close>

theorem dashboard_stream_witness:
  "\<exists>d r. fold stream_pick [PickOther (OpRecord \<lparr>at_unix = 1, at_slow = 2, at_event = 3\<rparr> ''PING'' [] ''c'' 7000), PickEvent,
         PickTick (Some (no_Stats\<lparr>st_Commands := 5\<rparr>)) 9]
       (stream_open (Some (no_Stats\<lparr>st_Commands := 3\<rparr>)) 8 (Some (NewRecorder 0 128 [])))
     = (d, Some r) \<and> sum_list (map st_OpsPerSec (stats_of (sent d))) = 2
     \<and> subseq (events_of (sent d)) (published [] (rec_ops 0
          [PickOther (OpRecord \<lparr>at_unix = 1, at_slow = 2, at_event = 3\<rparr> ''PING'' [] ''c'' 7000), PickEvent]))"
proof -
  let ?rec = "OpRecord \<lparr>at_unix = 1, at_slow = 2, at_event = 3\<rparr> ''PING'' [] ''c'' 7000"
  let ?ps = "[PickOther ?rec, PickEvent, PickTick (Some (no_Stats\<lparr>st_Commands := 5\<rparr>)) 9]"
  obtain d0 r0 where o: "stream_open (Some (no_Stats\<lparr>st_Commands := 3\<rparr>)) 8 (Some (fold rec_step [] (NewRecorder 0 128 [])))
      = (d0, Some r0)" and i: "evtCh d0 = Some 0" and s0: "map st_Commands (stats_of (sent d0)) = [3]"
    by (simp add: stream_open_def Subscribe_def Let_def sendStats_def NewRecorder_def no_Stats_def)
  have ok: "list_all (\<lambda>p. p \<noteq> PickOther (OpReceive 0) \<and> p \<noteq> PickOther (OpUnsubscribe 0)) ?ps" by simp
  have "list_all (\<lambda>p. p \<noteq> PickOther (OpReceive 0)) ?ps" by simp
  from stream_picks [OF this i, of r0] obtain d r where f: "fold stream_pick ?ps (d0, Some r0) = (d, Some r)" by blast
  have "map st_Commands (stats_of (sent d)) = [3, 5]"
    using arg_cong [OF f, of "\<lambda>x. map st_Commands (stats_of (sent (fst x)))"] s0
    by (simp add: shown_commands del: stream_pick.simps)
  with dashboard_stream [OF o i ok f] o f show ?thesis
    by (simp add: int64_def first_nonzero_def del: published.simps)
qed

end
