(* ===== verification/Json.thy ===== *)
theory Json
  imports Go_Strings
begin

text \<open>
  What the dashboard uses of Go's \<open>encoding/json\<close>: \<open>json.Marshal\<close> on strings, integers, slices
  and structs, on bytes (Go 1.21); and a reader for what it writes, \<open>JSON.parse\<close> on this
  fragment, with the proof that a document is read back.
\<close>

section \<open>UTF-8\<close>

definition within :: "nat \<Rightarrow> nat \<Rightarrow> char \<Rightarrow> bool" where
  "within lo hi c \<longleftrightarrow> lo \<le> code c \<and> code c \<le> hi"

text \<open>How long a sequence with this first byte is, and the range of its second byte.\<close>

definition first_byte :: "char \<Rightarrow> (nat \<times> nat \<times> nat) option" where
  "first_byte c =
     (let b = code c
      in if b < 0xC2 then None
         else if b \<le> 0xDF then Some (2, 0x80, 0xBF)
         else if b = 0xE0 then Some (3, 0xA0, 0xBF)
         else if b = 0xED then Some (3, 0x80, 0x9F)
         else if b \<le> 0xEF then Some (3, 0x80, 0xBF)
         else if b = 0xF0 then Some (4, 0x90, 0xBF)
         else if b \<le> 0xF3 then Some (4, 0x80, 0xBF)
         else if b = 0xF4 then Some (4, 0x80, 0x8F) else None)"

text \<open>The size of the multi-byte character a string starts with, 0 if there is none.\<close>

definition rune_len :: "string \<Rightarrow> nat" where
  "rune_len s =
     (case s of [] \<Rightarrow> 0
      | c # r \<Rightarrow>
          (case first_byte c of None \<Rightarrow> 0
           | Some (n, lo, hi) \<Rightarrow>
               if n \<le> length s \<and> within lo hi (r ! 0) \<and> list_all (within 0x80 0xBF) (take (n - 2) (tl r))
               then n else 0))"

lemma first_byte_Some: "first_byte c = Some (n, lo, hi) \<Longrightarrow> 2 \<le> n \<and> n \<le> 4 \<and> 128 \<le> lo \<and> 128 \<le> code c"
  by (auto simp: first_byte_def Let_def split: if_splits)

lemma rune_len_Cons:
  "first_byte c = Some (n, lo, hi) \<Longrightarrow> rune_len (c # r) =
     (if n \<le> Suc (length r) \<and> within lo hi (r ! 0) \<and> list_all (within 0x80 0xBF) (take (n - 2) (tl r)) then n else 0)"
  by (simp add: rune_len_def)

lemma rune_bytes:
  assumes "rune_len s = n" "0 < n"
  shows "n \<le> length s \<and> 2 \<le> n \<and> list_all (\<lambda>c. 128 \<le> code c) (take n s)"
proof (cases s)
  case (Cons c r)
  show ?thesis
  proof (cases "first_byte c")
    case (Some p)
    obtain m lo hi where p: "p = (m, lo, hi)" by (cases p)
    note f = Some [unfolded p]
    define P where "P \<longleftrightarrow> m \<le> length s \<and> within lo hi (r ! 0) \<and> list_all (within 0x80 0xBF) (take (m - 2) (tl r))"
    have "n = (if P then m else 0)" using assms(1) rune_len_Cons [OF f, of r] by (simp only: Cons P_def length_Cons)
    then have n: "m = n" and "P" using assms(2) by (cases P; simp)+
    then have ok: "n \<le> length s" "within lo hi (r ! 0)" "list_all (within 0x80 0xBF) (take (n - 2) (tl r))"
      unfolding P_def by simp_all
    note b = first_byte_Some [OF f [unfolded n]]
    have two: "2 \<le> n" "128 \<le> lo" "128 \<le> code c" using b by blast+
    have len: "n \<le> Suc (length r)" using ok(1) Cons by simp
    with two(1) obtain d r' where r: "r = d # r'" by (cases r) simp_all
    obtain k where k: "n = Suc (Suc k)" using le_Suc_ex [OF two(1)] by auto
    have "list_all (\<lambda>c. 128 \<le> code c) (take k r')"
      using ok(3) by (simp add: r k list_all_iff within_def)
    moreover have "128 \<le> code d" using ok(2) two(2) r by (simp add: within_def)
    ultimately show ?thesis using len two by (simp add: Cons r k)
  qed (use assms in \<open>simp add: rune_len_def Cons\<close>)
qed (use assms in \<open>simp add: rune_len_def\<close>)

text \<open>What is left of a string that is forced to be UTF-8: a replacement character for every bad byte.\<close>

definition replacement :: string where
  "replacement = [CHR 0xEF, CHR 0xBF, CHR 0xBD]"

function valid_utf8 :: "string \<Rightarrow> string" where
  "valid_utf8 [] = []"
| "valid_utf8 (c # r) =
     (if code c < 128 then c # valid_utf8 r
      else let n = rune_len (c # r)
           in if n = 0 then replacement @ valid_utf8 r
              else take n (c # r) @ valid_utf8 (drop (n - 1) r))"
  by pat_completeness auto
termination by (relation "measure length") auto

lemma valid_ascii: "list_all (\<lambda>c. code c < 128) s \<Longrightarrow> valid_utf8 s = s"
  by (induction s) auto

section \<open>Writing strings\<close>

definition quote :: char where "quote = CHR 0x22"
definition backslash :: char where "backslash = CHR 0x5C"

definition hex :: "nat \<Rightarrow> char" where
  "hex n = (if n < 10 then digit n else char_of (87 + n))"

definition esc_ascii :: "char \<Rightarrow> string" where
  "esc_ascii c =
     (if c = quote \<or> c = backslash then [backslash, c]
      else if c = CHR 0x0A then backslash # ''n''
      else if c = CHR 0x0D then backslash # ''r''
      else if c = CHR 0x09 then backslash # ''t''
      else if code c < 32 \<or> c = CHR ''<'' \<or> c = CHR ''>'' \<or> c = CHR ''&''
      then backslash # ''u00'' @ [hex (code c div 16), hex (code c mod 16)]
      else [c])"

text \<open>The two line separators of Unicode, which JavaScript once did not accept in strings.\<close>

definition rune_text :: "string \<Rightarrow> string" where
  "rune_text b =
     (if b = [CHR 0xE2, CHR 0x80, CHR 0xA8] then backslash # ''u2028''
      else if b = [CHR 0xE2, CHR 0x80, CHR 0xA9] then backslash # ''u2029'' else b)"

function json_chars :: "string \<Rightarrow> string" where
  "json_chars [] = []"
| "json_chars (c # r) =
     (if code c < 128 then esc_ascii c @ json_chars r
      else let n = rune_len (c # r)
           in if n = 0 then backslash # ''ufffd'' @ json_chars r
              else rune_text (take n (c # r)) @ json_chars (drop (n - 1) r))"
  by pat_completeness auto
termination by (relation "measure length") auto

section \<open>Documents\<close>

datatype json = JNull | JInt int | JStr string | JArr "json list" | JObj "(string \<times> json) list"

fun commas :: "string list \<Rightarrow> string" where
  "commas [] = []"
| "commas [x] = x"
| "commas (x # xs) = x @ '','' @ commas xs"

definition json_string :: "string \<Rightarrow> string" where
  "json_string s = quote # json_chars s @ [quote]"

fun marshal :: "json \<Rightarrow> string" where
  "marshal JNull = ''null''"
| "marshal (JInt i) = itoa i"
| "marshal (JStr s) = json_string s"
| "marshal (JArr xs) = ''['' @ commas (map marshal xs) @ '']''"
| "marshal (JObj fs) = ''{'' @ commas (map (\<lambda>(k, v). json_string k @ '':'' @ marshal v) fs) @ ''}''"

section \<open>Reading\<close>

definition unhex :: "char \<Rightarrow> nat option" where
  "unhex c =
     (if isDigit c then Some (code c - 48)
      else if 97 \<le> code c \<and> code c \<le> 102 then Some (code c - 87)
      else if 65 \<le> code c \<and> code c \<le> 70 then Some (code c - 55) else None)"

fun unhexes :: "nat \<Rightarrow> string \<Rightarrow> nat option" where
  "unhexes n [] = Some n"
| "unhexes n (c # s) = (case unhex c of None \<Rightarrow> None | Some d \<Rightarrow> unhexes (16 * n + d) s)"

definition utf8 :: "nat \<Rightarrow> string" where
  "utf8 n =
     (if n < 0x80 then [char_of n]
      else if n < 0x800 then [char_of (0xC0 + n div 64), char_of (0x80 + n mod 64)]
      else [char_of (0xE0 + n div 4096), char_of (0x80 + n div 64 mod 64), char_of (0x80 + n mod 64)])"

definition prepend :: "string \<Rightarrow> (string \<times> string) option \<Rightarrow> (string \<times> string) option" where
  "prepend p = map_option (apfst ((@) p))"

definition simple_escape :: "char \<Rightarrow> string option" where
  "simple_escape e =
     (if e = quote \<or> e = backslash \<or> e = CHR ''/'' then Some [e]
      else if e = CHR ''n'' then Some [CHR 0x0A]
      else if e = CHR ''r'' then Some [CHR 0x0D]
      else if e = CHR ''t'' then Some [CHR 0x09]
      else if e = CHR ''b'' then Some [CHR 0x08]
      else if e = CHR ''f'' then Some [CHR 0x0C] else None)"

text \<open>The rest of a string literal; surrogates, which the writer never uses, are not read.\<close>

fun read_chars :: "string \<Rightarrow> (string \<times> string) option" where
  "read_chars [] = None"
| "read_chars (c # r) =
     (if c = quote then Some ([], r)
      else if c = backslash then
        (case r of
           [] \<Rightarrow> None
         | e # r1 \<Rightarrow>
             if e = CHR ''u'' then
               (case unhexes 0 (take 4 r1) of
                  None \<Rightarrow> None
                | Some n \<Rightarrow>
                    if length r1 < 4 \<or> 0xD800 \<le> n \<and> n \<le> 0xDFFF then None
                    else prepend (utf8 n) (read_chars (drop 4 r1)))
             else (case simple_escape e of None \<Rightarrow> None | Some x \<Rightarrow> prepend x (read_chars r1)))
      else if code c < 32 then None else prepend [c] (read_chars r))"

definition read_int :: "string \<Rightarrow> (json \<times> string) option" where
  "read_int s =
     (let neg = (s \<noteq> [] \<and> hd s = CHR ''-'');
          body = (if neg then tl s else s);
          ds = takeWhile isDigit body
      in if ds = [] then None
         else case digits_val 0 ds of
           None \<Rightarrow> None
         | Some n \<Rightarrow> Some (JInt (if neg then - int n else int n), dropWhile isDigit body))"

text \<open>The fuel bounds the nesting and the number of elements.\<close>

fun read :: "nat \<Rightarrow> string \<Rightarrow> (json \<times> string) option"
  and read_items :: "nat \<Rightarrow> string \<Rightarrow> (json list \<times> string) option"
  and read_fields :: "nat \<Rightarrow> string \<Rightarrow> ((string \<times> json) list \<times> string) option" where
  "read 0 s = None"
| "read (Suc n) s =
     (case s of
        [] \<Rightarrow> None
      | c # r \<Rightarrow>
          if c = quote then map_option (apfst JStr) (read_chars r)
          else if c = CHR ''['' then
            (if take 1 r = '']'' then Some (JArr [], tl r) else map_option (apfst JArr) (read_items n r))
          else if c = CHR ''{'' then
            (if take 1 r = ''}'' then Some (JObj [], tl r) else map_option (apfst JObj) (read_fields n r))
          else if take 4 s = ''null'' then Some (JNull, drop 4 s)
          else read_int s)"
| "read_items 0 s = None"
| "read_items (Suc n) s =
     (case read n s of
        Some (v, c # r) \<Rightarrow>
          if c = CHR '','' then map_option (apfst ((#) v)) (read_items n r)
          else if c = CHR '']'' then Some ([v], r) else None
      | _ \<Rightarrow> None)"
| "read_fields 0 s = None"
| "read_fields (Suc n) s =
     (case s of
        [] \<Rightarrow> None
      | q # s1 \<Rightarrow>
          if q \<noteq> quote then None
          else case read_chars s1 of
            Some (k, d # s2) \<Rightarrow>
              if d \<noteq> CHR '':'' then None
              else (case read n s2 of
                      Some (v, c # r) \<Rightarrow>
                        if c = CHR '','' then map_option (apfst ((#) (k, v))) (read_fields n r)
                        else if c = CHR ''}'' then Some ([(k, v)], r) else None
                    | _ \<Rightarrow> None)
          | _ \<Rightarrow> None)"

definition json_parse :: "string \<Rightarrow> json option" where
  "json_parse s = (case read (Suc (length s)) s of Some (j, []) \<Rightarrow> Some j | _ \<Rightarrow> None)"

section \<open>Strings are read back\<close>

lemma prepend_simps [simp]: "prepend p None = None" "prepend p (Some (q, r)) = Some (p @ q, r)"
  by (simp_all add: prepend_def)

lemma prepend_prepend [simp]: "prepend p (prepend q x) = prepend (p @ q) x"
  by (cases x) auto

lemma prepend_Nil [simp]: "prepend [] x = x"
  by (cases x) auto

lemma chars_simps [simp]: "quote \<noteq> backslash" "backslash \<noteq> quote" "code quote = 34" "code backslash = 92"
  by (simp_all add: quote_def backslash_def code_def)

lemma unhex_hex: "n < 16 \<Longrightarrow> unhex (hex n) = Some n"
  by (auto simp: unhex_def hex_def isDigit_def code_def digit_def)

lemma char_of_code [simp]: "char_of (code c) = c"
  by (simp add: code_def)

lemma high_not_special: "128 \<le> code c \<Longrightarrow> c \<noteq> quote \<and> c \<noteq> backslash \<and> \<not> code c < 32"
  by auto

lemma read_escape:
  "unhexes 0 [a, b, c, d] = Some n \<Longrightarrow> n < 0xD800 \<or> 0xDFFF < n \<Longrightarrow>
     read_chars (backslash # CHR ''u'' # a # b # c # d # t) = prepend (utf8 n) (read_chars t)"
  by (simp add: not_le del: unhexes.simps) (auto simp: not_less)

lemma read_unicode:
  assumes "n < 128"
  shows "read_chars (backslash # ''u00'' @ hex (n div 16) # hex (n mod 16) # t) = prepend [char_of n] (read_chars t)"
proof -
  have "unhex CHR ''0'' = Some 0" by code_simp
  moreover have "unhex (hex (n div 16)) = Some (n div 16)" "unhex (hex (n mod 16)) = Some (n mod 16)"
    using assms by (intro unhex_hex; simp)+
  ultimately have "unhexes 0 [CHR ''0'', CHR ''0'', hex (n div 16), hex (n mod 16)] = Some n" by simp
  from read_escape [OF this, of t] show ?thesis using assms by (simp add: utf8_def del: read_chars.simps)
qed

lemma read_esc_ascii:
  assumes "code c < 128"
  shows "read_chars (esc_ascii c @ t) = prepend [c] (read_chars t)"
proof -
  define u where "u \<longleftrightarrow> code c < 32 \<or> c = CHR ''<'' \<or> c = CHR ''>'' \<or> c = CHR ''&''"
  consider "c = quote" | "c = backslash" | "c = CHR 0x0A" | "c = CHR 0x0D" | "c = CHR 0x09"
    | "c \<noteq> quote" "c \<noteq> backslash" "c \<noteq> CHR 0x0A" "c \<noteq> CHR 0x0D" "c \<noteq> CHR 0x09" by blast
  then show ?thesis
  proof cases
    case 6
    then have e: "esc_ascii c = (if u then backslash # ''u00'' @ [hex (code c div 16), hex (code c mod 16)] else [c])"
      by (simp add: esc_ascii_def u_def)
    show ?thesis
    proof (cases u)
      case True
      then show ?thesis using read_unicode [OF assms, of t] by (simp add: e del: read_chars.simps)
    next
      case False
      with 6 show ?thesis by (simp add: e u_def)
    qed
  qed (simp_all add: esc_ascii_def simple_escape_def quote_def backslash_def)
qed

lemma read_high: "list_all (\<lambda>c. 128 \<le> code c) b \<Longrightarrow> read_chars (b @ t) = prepend b (read_chars t)"
  by (induction b) (auto dest: high_not_special)

lemma utf8_separators:
  "utf8 0x2028 = [CHR 0xE2, CHR 0x80, CHR 0xA8]" "utf8 0x2029 = [CHR 0xE2, CHR 0x80, CHR 0xA9]"
  "utf8 0xFFFD = replacement"
proof -
  have "char_of (226 :: nat) = CHR 0xE2" "char_of (128 :: nat) = CHR 0x80" "char_of (168 :: nat) = CHR 0xA8"
    "char_of (169 :: nat) = CHR 0xA9" "char_of (239 :: nat) = CHR 0xEF" "char_of (191 :: nat) = CHR 0xBF"
    "char_of (189 :: nat) = CHR 0xBD" by code_simp+
  then show "utf8 0x2028 = [CHR 0xE2, CHR 0x80, CHR 0xA8]" "utf8 0x2029 = [CHR 0xE2, CHR 0x80, CHR 0xA9]"
    "utf8 0xFFFD = replacement" by (simp_all add: utf8_def replacement_def)
qed

lemma unhexes_separators:
  "unhexes 0 ''2028'' = Some 0x2028" "unhexes 0 ''2029'' = Some 0x2029" "unhexes 0 ''fffd'' = Some 0xFFFD"
  by (simp_all add: unhex_def isDigit_def code_def)

lemma read_rune_text:
  assumes "list_all (\<lambda>c. 128 \<le> code c) b"
  shows "read_chars (rune_text b @ t) = prepend b (read_chars t)"
proof -
  from unhexes_separators(1,2) [THEN read_escape, of t]
  have "read_chars (backslash # ''u2028'' @ t) = prepend (utf8 0x2028) (read_chars t)"
    "read_chars (backslash # ''u2029'' @ t) = prepend (utf8 0x2029) (read_chars t)"
    by (simp_all del: read_chars.simps)
  then show ?thesis
    using read_high [OF assms, of t] unfolding rune_text_def utf8_separators
    by (simp del: read_chars.simps)
qed

lemma read_replacement: "read_chars (backslash # ''ufffd'' @ t) = prepend replacement (read_chars t)"
  using read_escape [OF unhexes_separators(3), of t] by (simp add: utf8_separators del: read_chars.simps)

lemma read_json_chars: "read_chars (json_chars s @ quote # t) = Some (valid_utf8 s, t)"
proof (induction s rule: json_chars.induct)
  case (2 c r)
  show ?case
  proof (cases "code c < 128")
    case True
    then show ?thesis using 2(1) by (simp add: read_esc_ascii)
  next
    case False
    define n where "n = rune_len (c # r)"
    show ?thesis
    proof (cases "n = 0")
      case True
      then show ?thesis
        using False 2(2) [OF False refl] read_replacement [of "json_chars r @ quote # t"]
        by (simp add: n_def [symmetric])
    next
      case nz: False
      have "list_all (\<lambda>c. 128 \<le> code c) (take n (c # r))" using rune_bytes [of "c # r" n] nz n_def by simp
      from read_rune_text [OF this] show ?thesis
        using False nz 2(3) [OF False n_def] by (simp add: n_def [symmetric])
    qed
  qed
qed simp

section \<open>Documents are read back\<close>

text \<open>A document whose strings have been forced to be UTF-8.\<close>

fun as_read :: "json \<Rightarrow> json" where
  "as_read (JStr s) = JStr (valid_utf8 s)"
| "as_read (JArr xs) = JArr (map as_read xs)"
| "as_read (JObj fs) = JObj (map (\<lambda>(k, v). (valid_utf8 k, as_read v)) fs)"
| "as_read j = j"

fun cost :: "json \<Rightarrow> nat" where
  "cost (JArr xs) = Suc (sum_list (map (\<lambda>x. Suc (cost x)) xs))"
| "cost (JObj fs) = Suc (sum_list (map (\<lambda>(k, v). Suc (cost v)) fs))"
| "cost _ = 1"

definition ends :: "string \<Rightarrow> bool" where
  "ends t \<longleftrightarrow> (case t of [] \<Rightarrow> True | c # _ \<Rightarrow> \<not> isDigit c)"

lemma ends_simps [simp]: "ends []" "ends (CHR '','' # t)" "ends (CHR '']'' # t)" "ends (CHR ''}'' # t)"
  by (simp_all add: ends_def isDigit_def code_def)

lemma read_digits:
  assumes "list_all isDigit ds" "ends t"
  shows "takeWhile isDigit (ds @ t) = ds \<and> dropWhile isDigit (ds @ t) = t"
  using assms by (induction ds) (auto simp: ends_def split: list.splits)

lemma read_itoa: "ends t \<Longrightarrow> read_int (itoa i @ t) = Some (JInt i, t)"
proof -
  assume t: "ends t"
  have d: "list_all isDigit (itoa_nat n)" for n using itoa_nat_digits by (auto simp: list_all_iff)
  have "hd (itoa_nat n @ t) \<noteq> CHR ''-''" for n using hd_itoa_nat(1) by simp
  then show ?thesis
    using read_digits [OF d t] by (auto simp: read_int_def itoa_def digits_val_itoa_nat)
qed

lemma itoa_head: "itoa i = c # r \<Longrightarrow> c = CHR ''-'' \<or> isDigit c"
  using itoa_nat_digits by (auto simp: itoa_def split: if_splits) (metis list.set_intros(1))

text \<open>No document starts like the end of an array or object.\<close>

lemma marshal_head:
  obtains c r where "marshal j = c # r" "c \<noteq> CHR '']''" "c \<noteq> CHR ''}''" "c \<noteq> CHR '',''"
proof (cases j)
  case (JInt i)
  obtain c r where c: "itoa i = c # r" by (cases "itoa i") auto
  from itoa_head [OF this] have "c \<noteq> CHR '']''" "c \<noteq> CHR ''}''" "c \<noteq> CHR '',''"
    by (auto simp: isDigit_def code_def)
  with c JInt show thesis by (intro that) auto
qed (auto simp: json_string_def quote_def intro: that)

lemma commas_Cons: "xs \<noteq> [] \<Longrightarrow> commas (x # xs) = x @ '','' @ commas xs"
  by (cases xs) auto

lemma read_step_int: "ends t \<Longrightarrow> read (Suc n) (itoa i @ t) = Some (JInt i, t)"
proof -
  assume t: "ends t"
  obtain c r where c: "itoa i = c # r" by (cases "itoa i") auto
  from itoa_head [OF this] have "c \<noteq> quote" "c \<noteq> CHR ''[''" "c \<noteq> CHR ''{''" "c \<noteq> CHR ''n''"
    by (auto simp: isDigit_def code_def quote_def)
  then show ?thesis using read_itoa [OF t, of i] c by simp
qed

lemma read_items_all:
  assumes "\<And>x n t. x \<in> set xs \<Longrightarrow> cost x \<le> n \<Longrightarrow> ends t \<Longrightarrow> read n (marshal x @ t) = Some (as_read x, t)"
    "xs \<noteq> []" "sum_list (map (\<lambda>x. Suc (cost x)) xs) \<le> n"
  shows "read_items n (commas (map marshal xs) @ '']'' @ t) = Some (map as_read xs, t)"
  using assms
proof (induction xs arbitrary: n)
  case (Cons x xs)
  obtain m where m: "n = Suc m" using Cons.prems(3) by (cases n) auto
  have x: "read m (marshal x @ u) = Some (as_read x, u)" if "ends u" for u
    using Cons.prems(1) [of x m u] Cons.prems(3) m that by simp
  show ?case
  proof (cases "xs = []")
    case False
    have "read_items m (commas (map marshal xs) @ '']'' @ t) = Some (map as_read xs, t)"
      using Cons.prems False m by (intro Cons.IH) auto
    with x [of "'','' @ commas (map marshal xs) @ '']'' @ t"] show ?thesis
      using False m by (simp add: commas_Cons)
  qed (use x [of "'']'' @ t"] m in simp)
qed simp

lemma read_fields_all:
  assumes "\<And>k x n t. (k, x) \<in> set fs \<Longrightarrow> cost x \<le> n \<Longrightarrow> ends t \<Longrightarrow> read n (marshal x @ t) = Some (as_read x, t)"
    "fs \<noteq> []" "sum_list (map (\<lambda>(k, v). Suc (cost v)) fs) \<le> n"
  shows "read_fields n (commas (map (\<lambda>(k, v). json_string k @ '':'' @ marshal v) fs) @ ''}'' @ t)
     = Some (map (\<lambda>(k, v). (valid_utf8 k, as_read v)) fs, t)"
  using assms
proof (induction fs arbitrary: n)
  case (Cons f fs)
  obtain k x where f: "f = (k, x)" by (cases f)
  obtain m where m: "n = Suc m" using Cons.prems(3) f by (cases n) auto
  have x: "read m (marshal x @ u) = Some (as_read x, u)" if "ends u" for u
    using Cons.prems(1) [of k x m u] Cons.prems(3) m f that by simp
  show ?case
  proof (cases "fs = []")
    case False
    have "read_fields m (commas (map (\<lambda>(k, v). json_string k @ '':'' @ marshal v) fs) @ ''}'' @ t)
        = Some (map (\<lambda>(k, v). (valid_utf8 k, as_read v)) fs, t)"
      using Cons.prems False m f by (intro Cons.IH) auto
    with x [of "'','' @ commas (map (\<lambda>(k, v). json_string k @ '':'' @ marshal v) fs) @ ''}'' @ t"] show ?thesis
      using False m f by (simp add: commas_Cons json_string_def read_json_chars)
  qed (use x [of "''}'' @ t"] m f in \<open>simp add: json_string_def read_json_chars\<close>)
qed simp

lemma read_marshal: "cost j \<le> n \<Longrightarrow> ends t \<Longrightarrow> read n (marshal j @ t) = Some (as_read j, t)"
proof (induction j arbitrary: n t)
  case JNull
  then show ?case by (cases n) (auto simp: quote_def)
next
  case (JInt i)
  then show ?case by (cases n) (simp_all add: read_step_int del: read.simps)
next
  case (JStr s)
  then show ?case by (cases n) (simp_all add: json_string_def read_json_chars)
next
  case (JArr xs)
  then obtain m where m: "n = Suc m" by (cases n) auto
  show ?case
  proof (cases xs)
    case (Cons x xs')
    have "marshal (JArr xs) = ''['' @ commas (map marshal xs) @ '']''" by simp
    obtain c r where "marshal x = c # r" "c \<noteq> CHR '']''" by (rule marshal_head)
    then have "take 1 (commas (map marshal xs) @ '']'' @ t) \<noteq> '']''"
      using Cons by (cases xs') auto
    moreover have "read_items m (commas (map marshal xs) @ '']'' @ t) = Some (map as_read xs, t)"
      using JArr m Cons by (intro read_items_all) auto
    ultimately show ?thesis using m by (simp add: quote_def)
  qed (simp add: m quote_def)
next
  case (JObj fs)
  then obtain m where m: "n = Suc m" by (cases n) auto
  show ?case
  proof (cases fs)
    case (Cons f fs')
    have "take 1 (commas (map (\<lambda>(k, v). json_string k @ '':'' @ marshal v) fs) @ ''}'' @ t) \<noteq> ''}''"
      using Cons by (cases fs'; cases f) (auto simp: json_string_def quote_def)
    moreover have "read_fields m (commas (map (\<lambda>(k, v). json_string k @ '':'' @ marshal v) fs) @ ''}'' @ t)
        = Some (map (\<lambda>(k, v). (valid_utf8 k, as_read v)) fs, t)"
    proof (rule read_fields_all)
      fix k x n u assume a: "(k, x) \<in> set fs" "cost x \<le> n" "ends u"
      show "read n (marshal x @ u) = Some (as_read x, u)"
        using JObj.IH [OF a(1), of x] a by (simp add: snds.simps)
    qed (use JObj.prems m Cons in auto)
    ultimately show ?thesis using m by (simp add: quote_def)
  qed (simp add: m quote_def)
qed

lemma length_commas: "xs \<noteq> [] \<Longrightarrow> length (commas xs) + 1 = sum_list (map (\<lambda>x. Suc (length x)) xs)"
  by (induction xs rule: commas.induct) auto

lemma sum_list_le: "(\<And>x. x \<in> set xs \<Longrightarrow> f x \<le> g x) \<Longrightarrow> sum_list (map f xs) \<le> (sum_list (map g xs) :: nat)"
  by (induction xs) (auto intro: add_mono)

lemma cost_length: "cost j \<le> length (marshal j)"
proof (induction j)
  case (JInt i)
  have "itoa i \<noteq> []" by simp
  then show ?case by (cases "itoa i") auto
next
  case (JArr xs)
  have "sum_list (map (\<lambda>x. Suc (cost x)) xs) \<le> sum_list (map (\<lambda>x. Suc (length (marshal x))) xs)"
    using JArr by (intro sum_list_le) simp
  also have "\<dots> \<le> length (commas (map marshal xs)) + 1"
    using length_commas [of "map marshal xs"] by (cases "xs = []") (simp_all add: o_def)
  finally show ?case by simp
next
  case (JObj fs)
  let ?f = "\<lambda>(k, v). json_string k @ '':'' @ marshal v"
  have "sum_list (map (\<lambda>(k, v). Suc (cost v)) fs) \<le> sum_list (map (\<lambda>p. Suc (length (?f p))) fs)"
  proof (intro sum_list_le)
    fix p assume p: "p \<in> set fs"
    obtain k v where "p = (k, v)" by (cases p)
    then show "(\<lambda>(k, v). Suc (cost v)) p \<le> Suc (length (?f p))"
      using JObj [OF p, of v] by (simp add: snds.simps)
  qed
  also have "\<dots> \<le> length (commas (map ?f fs)) + 1"
    using length_commas [of "map ?f fs"] by (cases "fs = []") (simp_all add: o_def)
  finally show ?case by simp
qed (simp_all add: json_string_def)

lemma json_parse_marshal: "json_parse (marshal j) = Some (as_read j)"
  using read_marshal [of j "Suc (length (marshal j))" "[]"] cost_length [of j]
  by (simp add: json_parse_def del: read.simps)

section \<open>A document is one line\<close>

definition single_line :: "string \<Rightarrow> bool" where
  "single_line s \<longleftrightarrow> CHR 0x0A \<notin> set s \<and> CHR 0x0D \<notin> set s"

lemma single_line_append [simp]: "single_line (xs @ ys) \<longleftrightarrow> single_line xs \<and> single_line ys"
  by (auto simp: single_line_def)

lemma single_line_Cons: "single_line (c # s) \<longleftrightarrow> c \<noteq> CHR 0x0A \<and> c \<noteq> CHR 0x0D \<and> single_line s"
  by (auto simp: single_line_def)

lemma single_line_Nil [simp]: "single_line []"
  by (simp add: single_line_def)

lemma code_breaks [simp]: "code (CHR 0x0A) = 10" "code (CHR 0x0D) = 13"
  by (simp_all add: code_def)

lemma high_single_line: "list_all (\<lambda>c. 128 \<le> code c) b \<Longrightarrow> single_line b"
  by (induction b) (auto simp: single_line_Cons)

lemma hex_single_line: "n < 16 \<Longrightarrow> single_line [hex n]"
proof -
  assume "n < 16"
  then have "48 \<le> code (hex n)" by (auto simp: hex_def code_def digit_def)
  then show ?thesis by (auto simp: single_line_Cons)
qed

lemma esc_ascii_single_line: "code c < 128 \<Longrightarrow> single_line (esc_ascii c)"
proof -
  assume "code c < 128"
  then have "single_line [hex (code c div 16)]" "single_line [hex (code c mod 16)]"
    by (intro hex_single_line; simp)+
  moreover have "single_line [backslash]" "single_line [quote]" by (simp_all add: single_line_Cons backslash_def quote_def)
  ultimately show ?thesis by (simp add: esc_ascii_def single_line_Cons)
qed

lemma rune_text_single_line: "list_all (\<lambda>c. 128 \<le> code c) b \<Longrightarrow> single_line (rune_text b)"
  using high_single_line [of b] by (simp add: rune_text_def single_line_Cons backslash_def)

lemma json_chars_single_line: "single_line (json_chars s)"
proof (induction s rule: json_chars.induct)
  case (2 c r)
  show ?case
  proof (cases "code c < 128")
    case True
    then show ?thesis using 2(1) by (simp add: esc_ascii_single_line)
  next
    case False
    define n where "n = rune_len (c # r)"
    show ?thesis
    proof (cases "n = 0")
      case True
      then show ?thesis
        using False 2(2) [OF False refl] by (simp add: n_def [symmetric] single_line_Cons backslash_def)
    next
      case nz: False
      have "list_all (\<lambda>c. 128 \<le> code c) (take n (c # r))" using rune_bytes [of "c # r" n] nz n_def by simp
      from rune_text_single_line [OF this] show ?thesis
        using False nz 2(3) [OF False n_def] by (simp add: n_def [symmetric])
    qed
  qed
qed simp

lemma json_string_single_line: "single_line (json_string s)"
  using json_chars_single_line by (simp add: json_string_def single_line_Cons quote_def)

lemma itoa_single_line: "single_line (itoa i)"
  using itoa_no_crlf by (auto simp: single_line_def)

lemma commas_single_line: "list_all single_line xs \<Longrightarrow> single_line (commas xs)"
  by (induction xs rule: commas.induct) (auto simp: single_line_Cons)

lemma marshal_single_line: "single_line (marshal j)"
proof (induction j)
  case (JArr xs)
  then have "single_line (commas (map marshal xs))" by (intro commas_single_line) (simp add: list_all_iff)
  then show ?case by (simp add: single_line_Cons)
next
  case (JObj fs)
  have "single_line (commas (map (\<lambda>(k, v). json_string k @ '':'' @ marshal v) fs))"
  proof (rule commas_single_line)
    show "list_all single_line (map (\<lambda>(k, v). json_string k @ '':'' @ marshal v) fs)"
      using JObj json_string_single_line by (fastforce simp: list_all_iff single_line_Cons snds.simps)
  qed
  then show ?case by (simp add: single_line_Cons)
qed (simp_all add: single_line_Cons itoa_single_line json_string_single_line)

end
