(* ===== verification/Dashboard_Stream.thy ===== *)
theory Dashboard_Stream
  imports Dashboard Json
begin

text \<open>
  The bytes of a dashboard connection: the JSON of the messages, framed as server-sent events by
  \<open>writeSSE\<close>, and that a browser takes exactly the messages out of them, whatever the clients'
  commands contain.  How a \<open>time.Time\<close> is printed is an argument (\<open>rfc\<close>).
\<close>

section \<open>The messages as JSON\<close>

definition strs :: "string list \<Rightarrow> json" where
  "strs args = JArr (map JStr args)"

definition event_json :: "(int \<Rightarrow> string) \<Rightarrow> Event \<Rightarrow> json" where
  "event_json rfc e = JObj
     [(''time'', JStr (rfc (ev_Time e))), (''command'', JStr (ev_Command e)), (''args'', strs (ev_Args e)),
      (''clientAddr'', JStr (ev_ClientAddr e)), (''durationUs'', JInt (ev_DurationUs e))]"

definition slow_json :: "(int \<Rightarrow> string) \<Rightarrow> SlowEntry \<Rightarrow> json" where
  "slow_json rfc e = JObj
     [(''id'', JInt (se_ID e)), (''time'', JStr (rfc (se_Time e))), (''durationUs'', JInt (se_DurationUs e)),
      (''command'', JStr (se_Command e)), (''args'', strs (se_Args e)), (''clientAddr'', JStr (se_ClientAddr e))]"

definition hotkey_json :: "HotKey \<Rightarrow> json" where
  "hotkey_json h = JObj [(''key'', JStr (hk_Key h)), (''count'', JInt (hk_Count h))]"

definition commandStat_json :: "CommandStat \<Rightarrow> json" where
  "commandStat_json c = JObj
     [(''command'', JStr (cs_Command c)), (''calls'', JInt (cs_Calls c)), (''totalUs'', JInt (cs_TotalUs c)),
      (''p50Us'', JInt (cs_P50Us c)), (''p95Us'', JInt (cs_P95Us c)), (''p99Us'', JInt (cs_P99Us c)),
      (''buckets'', JArr (map JInt (cs_Buckets c)))]"

definition stats_json :: "Stats \<Rightarrow> json" where
  "stats_json st = JObj
     [(''uptime'', JStr (st_Uptime st)), (''conns'', JInt (st_Conns st)), (''commands'', JInt (st_Commands st)),
      (''opsPerSec'', JInt (st_OpsPerSec st)), (''keys'', JInt (st_Keys st)), (''expires'', JInt (st_Expires st)),
      (''aofPath'', JStr (st_AOFPath st)), (''goVersion'', JStr (st_GoVersion st)),
      (''memoryUsedBytes'', JInt (st_MemoryUsedBytes st)), (''memoryMaxBytes'', JInt (st_MemoryMaxBytes st))]"

fun message_json :: "(int \<Rightarrow> string) \<Rightarrow> message \<Rightarrow> json" where
  "message_json rfc (StatsMsg st None) = JObj
     [(''type'', JStr ''stats''), (''stats'', stats_json st), (''slowlog'', JNull), (''hotkeys'', JNull),
      (''commandStats'', JNull)]"
| "message_json rfc (StatsMsg st (Some (sl, hk, cs))) = JObj
     [(''type'', JStr ''stats''), (''stats'', stats_json st), (''slowlog'', JArr (map (slow_json rfc) sl)),
      (''hotkeys'', JArr (map hotkey_json hk)), (''commandStats'', JArr (map commandStat_json cs))]"
| "message_json rfc (CmdMsg e) = JObj [(''type'', JStr ''cmd''), (''event'', event_json rfc e)]"

definition writeSSE :: "json \<Rightarrow> string" where
  "writeSSE v = ''data: '' @ marshal v @ [CHR 0x0A, CHR 0x0A]"

text \<open>All that is written to a connection.\<close>

definition stream_bytes :: "(int \<Rightarrow> string) \<Rightarrow> sse \<Rightarrow> string" where
  "stream_bytes rfc d = concat (map (\<lambda>m. writeSSE (message_json rfc m)) (sent d))"

section \<open>The browser's end\<close>

text \<open>
  The event stream format: lines end with a carriage return, a line feed or both; an empty
  line ends an event, and the lines of its \<open>data\<close> fields, joined, are its data.
\<close>

fun sse_lines :: "string \<Rightarrow> string \<Rightarrow> string list" where
  "sse_lines l [] = []"
| "sse_lines l (c # s) =
     (if c = CHR 0x0A then l # sse_lines [] s
      else if c = CHR 0x0D then l # sse_lines [] (if take 1 s = [CHR 0x0A] then drop 1 s else s)
      else sse_lines (l @ [c]) s)"

fun join_lines :: "string list \<Rightarrow> string" where
  "join_lines [] = []"
| "join_lines [x] = x"
| "join_lines (x # xs) = x @ CHR 0x0A # join_lines xs"

fun sse_events :: "string list \<Rightarrow> string list \<Rightarrow> string list" where
  "sse_events buf [] = []"
| "sse_events buf (l # ls) =
     (if l = [] then (if buf = [] then [] else [join_lines buf]) @ sse_events [] ls
      else if take 6 l = ''data: '' then sse_events (buf @ [drop 6 l]) ls
      else if take 5 l = ''data:'' then sse_events (buf @ [drop 5 l]) ls
      else if l = ''data'' then sse_events (buf @ [[]]) ls
      else sse_events buf ls)"

text \<open>The page's handler ignores what does not parse.\<close>

definition browser_messages :: "string \<Rightarrow> json list" where
  "browser_messages s = List.map_filter json_parse (sse_events [] (sse_lines [] s))"

section \<open>Messages arrive\<close>

lemma sse_line: "single_line s \<Longrightarrow> sse_lines l (s @ CHR 0x0A # t) = (l @ s) # sse_lines [] t"
  by (induction s arbitrary: l) (auto simp: single_line_Cons)

lemma sse_frame: "sse_lines [] (writeSSE v @ t) = (''data: '' @ marshal v) # [] # sse_lines [] t"
  using sse_line [of "''data: '' @ marshal v" "[]" "CHR 0x0A # t"] marshal_single_line [of v]
  by (simp add: writeSSE_def single_line_Cons)

lemma sse_frames:
  "sse_events [] (sse_lines [] (concat (map writeSSE vs))) = map marshal vs"
  by (induction vs) (simp_all add: sse_frame)

lemma browser_frames: "browser_messages (concat (map writeSSE vs)) = map as_read vs"
  by (simp add: browser_messages_def sse_frames map_filter_map_filter) (simp add: map_filter_def json_parse_marshal o_def)

text \<open>
  C24: What is sent arrives. Whatever commands clients ran, a browser that reads a dashboard
  connection finds exactly the messages that were sent, in order: no argument, key or client
  name can end a message, forge another one or break its JSON. Strings arrive as they are if
  they are valid UTF-8, and otherwise with a replacement character for every offending byte.
\<close>

theorem stream_arrives:
  "browser_messages (stream_bytes rfc d) = map (\<lambda>m. as_read (message_json rfc m)) (sent d)"
  using browser_frames [of "map (message_json rfc) (sent d)"] by (simp add: stream_bytes_def o_def)

end
