(* ===== verification/Page.thy ===== *)
theory Page
  imports Dashboard_Stream
begin

text \<open>
  The script of the dashboard's page (\<open>pageHTML\<close> in \<open>monitor/dashboard.go\<close>), from a message of the
  event stream to the markup it writes into the page.

  Strings are the bytes of their UTF-8.  Numbers are doubles: what \<open>JSON.parse\<close> makes of an
  integer, and a quotient, is rounded.  How a number or a time is printed is up to the browser
  and its locale, the record \<open>js\<close>.
\<close>

section \<open>The browser\<close>

record js =
  num_str :: "rat \<Rightarrow> string"
  to_fixed :: "nat \<Rightarrow> rat \<Rightarrow> string"
  time_str :: "string \<Rightarrow> string"

definition double :: "rat \<Rightarrow> rat" where
  "double x = (if x < 0 then - fl64 (- x) else fl64 x)"

definition js_div :: "rat \<Rightarrow> rat \<Rightarrow> rat" where
  "js_div a b = double (a / b)"

text \<open>Properties of a message; the script only asks for those that are there.\<close>

definition prop_of :: "string \<Rightarrow> json \<Rightarrow> json" where
  "prop_of k j = (case j of JObj fs \<Rightarrow> (case map_of fs k of None \<Rightarrow> JNull | Some v \<Rightarrow> v) | _ \<Rightarrow> JNull)"

definition num_of :: "json \<Rightarrow> rat" where
  "num_of j = (case j of JInt i \<Rightarrow> double (of_int i) | _ \<Rightarrow> 0)"

definition str_of :: "json \<Rightarrow> string" where
  "str_of j = (case j of JStr s \<Rightarrow> s | _ \<Rightarrow> [])"

text \<open>\<open>x || []\<close>\<close>

definition items_of :: "json \<Rightarrow> json list" where
  "items_of j = (case j of JArr xs \<Rightarrow> xs | _ \<Rightarrow> [])"

fun spaced :: "string list \<Rightarrow> string" where
  "spaced [] = []"
| "spaced [x] = x"
| "spaced (x # xs) = x @ CHR '' '' # spaced xs"

section \<open>Markup\<close>

definition attr :: "string \<times> string \<Rightarrow> string" where
  "attr a = CHR '' '' # fst a @ [CHR ''='', quote] @ snd a @ [quote]"

definition elem :: "string \<Rightarrow> (string \<times> string) list \<Rightarrow> string \<Rightarrow> string" where
  "elem name attrs body = ''<'' @ name @ concat (map attr attrs) @ ''>'' @ body @ ''</'' @ name @ ''>''"

fun escapeHtml :: "string \<Rightarrow> string" where
  "escapeHtml [] = []"
| "escapeHtml (c # s) =
     (if c = CHR ''&'' then ''&amp;'' else if c = CHR ''<'' then ''&lt;''
      else if c = CHR ''>'' then ''&gt;'' else [c]) @ escapeHtml s"

section \<open>Formatting\<close>

fun fmtBytes_loop :: "rat \<Rightarrow> string \<Rightarrow> string list \<Rightarrow> rat \<times> string" where
  "fmtBytes_loop n u [] = (n, u)"
| "fmtBytes_loop n u (v # vs) = (if n \<ge> 1024 then fmtBytes_loop (js_div n 1024) v vs else (n, u))"

definition fmtBytes :: "js \<Rightarrow> rat \<Rightarrow> string" where
  "fmtBytes J n =
     (if n \<le> 0 then ''0 B''
      else case fmtBytes_loop n ''B'' [''KB'', ''MB'', ''GB''] of (m, u) \<Rightarrow> to_fixed J 1 m @ '' '' @ u)"

definition fmtUs :: "js \<Rightarrow> rat \<Rightarrow> string" where
  "fmtUs J us = (if us \<ge> 1000 then to_fixed J 2 (js_div us 1000) @ ''ms'' else num_str J us @ ''us'')"

section \<open>The page\<close>

text \<open>
  The text of the server panel, the markup of the three tables, and the rows of the live
  stream, newest first; before the first command the stream holds one remark.
\<close>

record server_panel =
  p_uptime :: string
  p_conns :: string
  p_ops :: string
  p_commands :: string
  p_keys :: string
  p_aof :: string
  p_go :: string
  p_memory :: string
  p_barWidth :: string
  p_barClass :: string

record page =
  panel :: server_panel
  p_hotkeys :: string
  p_latency :: string
  p_slowlog :: string
  p_stream :: "string list"
  streamCount :: nat

definition renderStats :: "js \<Rightarrow> json \<Rightarrow> page \<Rightarrow> page" where
  "renderStats J st p =
     (let n = (\<lambda>k. num_of (prop_of k st));
          most = n ''memoryMaxBytes''; used = n ''memoryUsedBytes'';
          pct = min 100 (double (js_div used most * 100));
          q = \<lparr>p_uptime = str_of (prop_of ''uptime'' st), p_conns = num_str J (n ''conns''),
               p_ops = num_str J (n ''opsPerSec''), p_commands = num_str J (n ''commands''),
               p_keys = num_str J (n ''keys'') @ '' / '' @ num_str J (n ''expires''),
               p_aof = str_of (prop_of ''aofPath'' st), p_go = str_of (prop_of ''goVersion'' st),
               p_memory = (if most > 0 then fmtBytes J used @ '' / '' @ fmtBytes J most
                           else fmtBytes J used @ '' / unlimited''),
               p_barWidth = (if most > 0 then to_fixed J 1 pct @ ''%'' else ''0%''),
               p_barClass = (if most > 0 then ''bar-fill'' @ (if pct > 90 then '' bad'' else if pct > 70 then '' warn'' else [])
                             else p_barClass (panel p))\<rparr>
      in p\<lparr>panel := q\<rparr>)"

definition hotkey_row :: "js \<Rightarrow> rat \<Rightarrow> json \<Rightarrow> string" where
  "hotkey_row J most hk =
     (let cnt = num_of (prop_of ''count'' hk); key = str_of (prop_of ''key'' hk);
          m = double (js_div cnt most * 100);
          pct = (if m < 2 then 2 else m)
      in elem ''div'' [(''class'', ''hk-row'')]
          (elem ''span'' [(''class'', ''hk-key''), (''title'', escapeHtml key)] (escapeHtml key)
           @ elem ''div'' [(''class'', ''hk-bar-track'')]
               (elem ''div'' [(''class'', ''hk-bar-fill''), (''style'', ''width:'' @ num_str J pct @ ''%'')] [])
           @ elem ''span'' [(''class'', ''hk-count'')] (num_str J cnt)))"

definition renderHotkeys :: "js \<Rightarrow> json \<Rightarrow> page \<Rightarrow> page" where
  "renderHotkeys J hks p =
     (case items_of hks of
        [] \<Rightarrow> p\<lparr>p_hotkeys := elem ''div'' [(''class'', ''empty'')] ''no activity yet''\<rparr>
      | h # hs \<Rightarrow>
          let c = num_of (prop_of ''count'' h); most = (if c = 0 then 1 else c)
          in p\<lparr>p_hotkeys := concat (map (hotkey_row J most) (h # hs))\<rparr>)"

definition avg_us :: "json \<Rightarrow> rat" where
  "avg_us s =
     (if num_of (prop_of ''calls'' s) > 0
      then js_div (num_of (prop_of ''totalUs'' s)) (num_of (prop_of ''calls'' s)) else 0)"

definition latency_row :: "js \<Rightarrow> json \<Rightarrow> string" where
  "latency_row J s =
     (let n = (\<lambda>k. num_of (prop_of k s))
      in elem ''tr'' []
          (elem ''td'' [] (escapeHtml (str_of (prop_of ''command'' s))) @ elem ''td'' [] (num_str J (n ''calls''))
           @ elem ''td'' [] (fmtUs J (avg_us s)) @ elem ''td'' [] (fmtUs J (n ''p50Us''))
           @ elem ''td'' [] (fmtUs J (n ''p95Us'')) @ elem ''td'' [] (fmtUs J (n ''p99Us''))))"

definition renderLatency :: "js \<Rightarrow> json \<Rightarrow> page \<Rightarrow> page" where
  "renderLatency J stats p =
     (if items_of stats = []
      then p\<lparr>p_latency := elem ''tr'' [] (elem ''td'' [(''colspan'', ''6''), (''class'', ''empty'')]
                            ''no commands recorded yet'')\<rparr>
      else p\<lparr>p_latency := concat (map (latency_row J) (items_of stats))\<rparr>)"

definition slowlog_row :: "js \<Rightarrow> json \<Rightarrow> string" where
  "slowlog_row J e =
     (let cmdline = str_of (prop_of ''command'' e) @ '' '' @ spaced (map str_of (items_of (prop_of ''args'' e)))
      in elem ''tr'' []
          (elem ''td'' [] (time_str J (str_of (prop_of ''time'' e)))
           @ elem ''td'' [] (fmtUs J (num_of (prop_of ''durationUs'' e)))
           @ elem ''td'' [] (escapeHtml cmdline)
           @ elem ''td'' [] (escapeHtml (str_of (prop_of ''clientAddr'' e)))))"

definition renderSlowlog :: "js \<Rightarrow> json \<Rightarrow> page \<Rightarrow> page" where
  "renderSlowlog J entries p =
     (if items_of entries = []
      then p\<lparr>p_slowlog := elem ''tr'' [] (elem ''td'' [(''colspan'', ''4''), (''class'', ''empty'')]
                            ''no slow commands recorded yet'')\<rparr>
      else p\<lparr>p_slowlog := concat (map (slowlog_row J) (items_of entries))\<rparr>)"

definition streamCap :: nat where
  "streamCap = 60"

text \<open>The children that are too many are removed one by one, the last first.\<close>

function trim_rows :: "string list \<Rightarrow> string list" where
  "trim_rows rows = (if length rows > streamCap then trim_rows (butlast rows) else rows)"
  by auto
termination by (relation "measure length") (auto simp: streamCap_def)

declare trim_rows.simps [simp del]

definition stream_row :: "js \<Rightarrow> json \<Rightarrow> string" where
  "stream_row J evt =
     (let us = num_of (prop_of ''durationUs'' evt);
          durClass = (if us \<ge> 100000 then ''bad'' else if us \<ge> 10000 then ''warn'' else [])
      in elem ''span'' [(''class'', ''stream-time'')] (time_str J (str_of (prop_of ''time'' evt)))
         @ elem ''span'' [(''class'', ''stream-cmd'')] (escapeHtml (str_of (prop_of ''command'' evt)))
         @ elem ''span'' [(''class'', ''stream-args'')]
             (escapeHtml (spaced (map str_of (items_of (prop_of ''args'' evt)))))
         @ elem ''span'' [(''class'', ''stream-dur '' @ durClass)] (fmtUs J us))"

text \<open>\<open>insertBefore\<close> the first child, after the remark has gone.\<close>

definition add_row :: "string \<Rightarrow> page \<Rightarrow> page" where
  "add_row row p =
     (let rows = (if streamCount p = 0 then [] else p_stream p)
      in p\<lparr>p_stream := trim_rows (row # rows), streamCount := streamCount p + 1\<rparr>)"

definition appendCommand :: "js \<Rightarrow> json \<Rightarrow> page \<Rightarrow> page" where
  "appendCommand J evt p = add_row (stream_row J evt) p"

definition onmessage :: "js \<Rightarrow> json \<Rightarrow> page \<Rightarrow> page" where
  "onmessage J msg p =
     (if prop_of ''type'' msg = JStr ''stats'' then
        renderSlowlog J (prop_of ''slowlog'' msg) (renderLatency J (prop_of ''commandStats'' msg)
          (renderHotkeys J (prop_of ''hotkeys'' msg) (renderStats J (prop_of ''stats'' msg) p)))
      else if prop_of ''type'' msg = JStr ''cmd'' then appendCommand J (prop_of ''event'' msg) p
      else p)"

definition first_page :: page where
  "first_page =
     \<lparr>panel = \<lparr>p_uptime = ''-'', p_conns = ''-'', p_ops = ''-'', p_commands = ''-'', p_keys = ''-'', p_aof = ''-'',
               p_go = ''-'', p_memory = ''-'', p_barWidth = ''0%'', p_barClass = ''bar-fill''\<rparr>,
      p_hotkeys = elem ''div'' [(''class'', ''empty'')] ''no activity yet'',
      p_latency = elem ''tr'' [] (elem ''td'' [(''colspan'', ''6''), (''class'', ''empty'')] ''no commands recorded yet''),
      p_slowlog = elem ''tr'' [] (elem ''td'' [(''colspan'', ''4''), (''class'', ''empty'')] ''no slow commands recorded yet''),
      p_stream = [''waiting for commands...''], streamCount = 0\<rparr>"

end
