(* ===== verification/Page_Safety.thy ===== *)
theory Page_Safety
  imports Page
begin

text \<open>
  What the page shows.  A browser reads the markup that the script writes with an HTML parser, of
  which \<open>html_tokens\<close> is the part that matters: tags, attributes, text and the three character
  references.  Rows of the tables and of the stream are read as the same tags whatever clients
  have sent, with their words as text; a hot key is so exactly if it has no double quote.
\<close>

section \<open>Reading markup\<close>

datatype token = Tag string "(string \<times> string) list" | EndTag string | Txt string

fun char_refs :: "string \<Rightarrow> string" where
  "char_refs [] = []"
| "char_refs (c # s) =
     (if c \<noteq> CHR ''&'' then c # char_refs s
      else if take 4 s = ''amp;'' then CHR ''&'' # char_refs (drop 4 s)
      else if take 3 s = ''lt;'' then CHR ''<'' # char_refs (drop 3 s)
      else if take 3 s = ''gt;'' then CHR ''>'' # char_refs (drop 3 s)
      else c # char_refs s)"

definition text_token :: "string \<Rightarrow> token list" where
  "text_token s = (if s = [] then [] else [Txt (char_refs s)])"

text \<open>
  The states of the tokenizer: text; after \<open><\<close>; in an end tag; in a name; before an attribute, in its
  name, after its \<open>=\<close>, in its value, quoted or not.
\<close>

datatype state =
    Data string | Open | End string | Name string | Before string "(string \<times> string) list"
  | AttrName string "(string \<times> string) list" string | AfterEq string "(string \<times> string) list" string
  | Value string "(string \<times> string) list" string string | Bare string "(string \<times> string) list" string string

definition space :: "char \<Rightarrow> bool" where
  "space c \<longleftrightarrow> c \<in> {CHR '' '', CHR 0x09, CHR 0x0A, CHR 0x0C, CHR 0x0D}"

definition letter :: "char \<Rightarrow> bool" where
  "letter c \<longleftrightarrow> 97 \<le> code c \<and> code c \<le> 122 \<or> 65 \<le> code c \<and> code c \<le> 90"

fun tokens :: "state \<Rightarrow> string \<Rightarrow> token list" where
  "tokens (Data t) [] = text_token t"
| "tokens Open [] = text_token ''<''"
| "tokens _ [] = []"
| "tokens (Data t) (c # s) = (if c = CHR ''<'' then text_token t @ tokens Open s else tokens (Data (t @ [c])) s)"
| "tokens Open (c # s) =
     (if c = CHR ''/'' then tokens (End []) s else if letter c then tokens (Name [c]) s
      else tokens (Data [CHR ''<'', c]) s)"
| "tokens (End n) (c # s) = (if c = CHR ''>'' then EndTag n # tokens (Data []) s else tokens (End (n @ [c])) s)"
| "tokens (Name n) (c # s) =
     (if c = CHR ''>'' then Tag n [] # tokens (Data []) s
      else if space c then tokens (Before n []) s else tokens (Name (n @ [c])) s)"
| "tokens (Before n as) (c # s) =
     (if c = CHR ''>'' then Tag n as # tokens (Data []) s
      else if space c \<or> c = CHR ''/'' then tokens (Before n as) s else tokens (AttrName n as [c]) s)"
| "tokens (AttrName n as a) (c # s) =
     (if c = CHR ''='' then tokens (AfterEq n as a) s
      else if c = CHR ''>'' then Tag n (as @ [(a, [])]) # tokens (Data []) s
      else if space c then tokens (Before n (as @ [(a, [])])) s else tokens (AttrName n as (a @ [c])) s)"
| "tokens (AfterEq n as a) (c # s) =
     (if c = quote then tokens (Value n as a []) s
      else if c = CHR ''>'' then Tag n (as @ [(a, [])]) # tokens (Data []) s
      else if space c then tokens (AfterEq n as a) s else tokens (Bare n as a [c]) s)"
| "tokens (Value n as a v) (c # s) =
     (if c = quote then tokens (Before n (as @ [(a, char_refs v)])) s else tokens (Value n as a (v @ [c])) s)"
| "tokens (Bare n as a v) (c # s) =
     (if c = CHR ''>'' then Tag n (as @ [(a, char_refs v)]) # tokens (Data []) s
      else if space c then tokens (Before n (as @ [(a, char_refs v)])) s
      else tokens (Bare n as a (v @ [c])) s)"

definition html_tokens :: "string \<Rightarrow> token list" where
  "html_tokens s = tokens (Data []) s"

section \<open>Escaped text\<close>

lemma char_refs_escape: "char_refs (escapeHtml s) = s"
  by (induction s) auto

lemma escape_plain: "CHR ''<'' \<notin> set (escapeHtml s)" "CHR ''>'' \<notin> set (escapeHtml s)"
  by (induction s) auto

lemma escape_quote: "quote \<in> set (escapeHtml s) \<longleftrightarrow> quote \<in> set s"
  by (induction s) (auto simp: quote_def)

lemma escape_append: "escapeHtml (s @ t) = escapeHtml s @ escapeHtml t"
  by (induction s) auto

lemma escape_Nil: "escapeHtml s = [] \<longleftrightarrow> s = []"
  by (cases s) auto

text \<open>Text that needs no escaping, which is what numbers and times are.\<close>

definition plain :: "string \<Rightarrow> bool" where
  "plain s \<longleftrightarrow> list_all (\<lambda>c. c \<noteq> CHR ''&'' \<and> c \<noteq> CHR ''<'' \<and> c \<noteq> CHR ''>'' \<and> c \<noteq> quote) s"

lemma plain_simps [simp]: "plain []" "plain (xs @ ys) \<longleftrightarrow> plain xs \<and> plain ys"
  "plain (c # s) \<longleftrightarrow> c \<noteq> CHR ''&'' \<and> c \<noteq> CHR ''<'' \<and> c \<noteq> CHR ''>'' \<and> c \<noteq> quote \<and> plain s"
  by (auto simp: plain_def)

lemma plain_escape: "plain s \<Longrightarrow> escapeHtml s = s"
  by (induction s) auto

lemma plain_refs: "plain s \<Longrightarrow> char_refs s = s"
  using char_refs_escape [of s] by (simp add: plain_escape)

definition plain_js :: "js \<Rightarrow> bool" where
  "plain_js J \<longleftrightarrow> (\<forall>x. plain (num_str J x)) \<and> (\<forall>n x. plain (to_fixed J n x)) \<and> (\<forall>s. plain (time_str J s))"

lemma plain_fmtUs: "plain_js J \<Longrightarrow> plain (fmtUs J us)"
  by (simp add: plain_js_def fmtUs_def quote_def)

section \<open>Reading what is built\<close>

definition word :: "string \<Rightarrow> bool" where
  "word n \<longleftrightarrow> (case n of [] \<Rightarrow> False | c # _ \<Rightarrow> letter c)
     \<and> list_all (\<lambda>c. c \<noteq> CHR ''>'' \<and> c \<noteq> CHR ''='' \<and> c \<noteq> CHR ''/'' \<and> \<not> space c) n"

definition shown :: "string \<Rightarrow> token list" where
  "shown s = (if s = [] then [] else [Txt s])"

lemma tokens_text: "CHR ''<'' \<notin> set s \<Longrightarrow> tokens (Data t) (s @ CHR ''<'' # u) = text_token (t @ s) @ tokens Open u"
  by (induction s arbitrary: t) auto

lemma tokens_name: "list_all (\<lambda>c. c \<noteq> CHR ''>'' \<and> \<not> space c) s \<Longrightarrow> tokens (Name n) (s @ u) = tokens (Name (n @ s)) u"
  by (induction s arbitrary: n) auto

lemma tokens_end: "CHR ''>'' \<notin> set s \<Longrightarrow> tokens (End n) (s @ CHR ''>'' # u) = EndTag (n @ s) # tokens (Data []) u"
  by (induction s arbitrary: n) auto

lemma tokens_attrName:
  "list_all (\<lambda>c. c \<noteq> CHR ''='' \<and> c \<noteq> CHR ''>'' \<and> \<not> space c) s \<Longrightarrow>
     tokens (AttrName n as a) (s @ u) = tokens (AttrName n as (a @ s)) u"
  by (induction s arbitrary: a) auto

lemma tokens_value: "quote \<notin> set s \<Longrightarrow>
    tokens (Value n as a v) (s @ quote # u) = tokens (Before n (as @ [(a, char_refs (v @ s))])) u"
  by (induction s arbitrary: v) auto

lemma space_space [simp]: "space CHR '' ''"
  by (simp add: space_def)

lemma tokens_attr:
  assumes "word k" "quote \<notin> set v"
  shows "tokens (Before n as) (attr (k, v) @ u) = tokens (Before n (as @ [(k, char_refs v)])) u"
proof -
  obtain c r where k: "k = c # r" using assms(1) by (cases k) (auto simp: word_def)
  have "tokens (Before n as) (attr (k, v) @ u) = tokens (AttrName n as [c]) (r @ CHR ''='' # quote # v @ quote # u)"
    using assms(1) by (simp add: attr_def k word_def)
  also have "\<dots> = tokens (AttrName n as k) (CHR ''='' # quote # v @ quote # u)"
    using assms(1) by (subst tokens_attrName) (auto simp: k word_def list_all_iff)
  finally show ?thesis using tokens_value [OF assms(2)] by simp
qed

lemma tokens_attrs:
  "list_all (\<lambda>(k, v). word k \<and> quote \<notin> set v) bs \<Longrightarrow>
     tokens (Before n as) (concat (map attr bs) @ CHR ''>'' # u)
       = Tag n (as @ map (\<lambda>(k, v). (k, char_refs v)) bs) # tokens (Data []) u"
  by (induction bs arbitrary: as) (auto simp: tokens_attr)

lemma tokens_first_attr: "tokens (Name n) (attr a @ u) = tokens (Before n []) (attr a @ u)"
  by (simp add: attr_def)

lemma tokens_open:
  assumes "word n" "list_all (\<lambda>(k, v). word k \<and> quote \<notin> set v) as"
  shows "tokens Open (n @ concat (map attr as) @ CHR ''>'' # u)
     = Tag n (map (\<lambda>(k, v). (k, char_refs v)) as) # tokens (Data []) u"
proof -
  obtain c r where n: "n = c # r" and c: "letter c" "c \<noteq> CHR ''/''"
    using assms(1) by (cases n) (auto simp: word_def)
  have "tokens Open (n @ v) = tokens (Name n) v" for v
    using c assms(1) tokens_name [of r "[c]" v] by (simp add: n word_def list_all_iff)
  then have "tokens Open (n @ concat (map attr as) @ CHR ''>'' # u)
      = tokens (Name n) (concat (map attr as) @ CHR ''>'' # u)" by simp
  also have "\<dots> = Tag n (map (\<lambda>(k, v). (k, char_refs v)) as) # tokens (Data []) u"
  proof (cases as)
    case (Cons a bs)
    then show ?thesis using tokens_attrs [OF assms(2), of n "[]" u] by (simp add: tokens_first_attr)
  qed simp
  finally show ?thesis .
qed

lemma tokens_close:
  "word n \<Longrightarrow> tokens Open (CHR ''/'' # n @ CHR ''>'' # u) = EndTag n # tokens (Data []) u"
  using tokens_end [of n "[]" u] by (auto simp: word_def list_all_iff)

text \<open>
  \<open>markup e ts\<close>: wherever text may stand, \<open>e\<close> is read as \<open>ts\<close>.  \<open>reads b ts\<close>: before a tag, the
  content \<open>b\<close> is.
\<close>

definition markup :: "string \<Rightarrow> token list \<Rightarrow> bool" where
  "markup e ts \<longleftrightarrow> (\<forall>u. tokens (Data []) (e @ u) = ts @ tokens (Data []) u)"

definition reads :: "string \<Rightarrow> token list \<Rightarrow> bool" where
  "reads b ts \<longleftrightarrow> (\<forall>v. tokens (Data []) (b @ CHR ''<'' # v) = ts @ tokens Open v)"

definition node :: "string \<Rightarrow> (string \<times> string) list \<Rightarrow> token list \<Rightarrow> token list" where
  "node n as inner = Tag n as # inner @ [EndTag n]"

definition decoded :: "(string \<times> string) list \<Rightarrow> (string \<times> string) list" where
  "decoded as = map (\<lambda>(k, v). (k, char_refs v)) as"

lemma markup_elem:
  assumes "word n" "list_all (\<lambda>(k, v). word k \<and> quote \<notin> set v) as" "reads body inner"
  shows "markup (elem n as body) (node n (decoded as) inner)"
  unfolding markup_def
proof
  fix u
  have "tokens (Data []) (elem n as body @ u)
      = tokens Open (n @ concat (map attr as) @ CHR ''>'' # body @ CHR ''<'' # CHR ''/'' # n @ CHR ''>'' # u)"
    by (simp add: elem_def text_token_def)
  then show "tokens (Data []) (elem n as body @ u) = node n (decoded as) inner @ tokens (Data []) u"
    using tokens_open [OF assms(1,2)] tokens_close [OF assms(1)] assms(3)
    by (simp add: reads_def node_def decoded_def)
qed

lemma markup_append: "markup a ts \<Longrightarrow> markup b us \<Longrightarrow> markup (a @ b) (ts @ us)"
  by (simp add: markup_def)

lemma markup_concat: "(\<And>x. x \<in> set xs \<Longrightarrow> markup (f x) (g x)) \<Longrightarrow> markup (concat (map f xs)) (concat (map g xs))"
  by (induction xs) (auto simp: markup_def)

lemma reads_markup: "markup e ts \<Longrightarrow> reads e ts"
  by (simp add: markup_def reads_def text_token_def)

lemma reads_escaped: "reads (escapeHtml s) (shown s)"
  unfolding reads_def
  using tokens_text [OF escape_plain(1), where t = "[]"]
  by (simp add: text_token_def shown_def char_refs_escape escape_Nil)

lemma reads_plain: "plain s \<Longrightarrow> reads s (shown s)"
  using reads_escaped [of s] by (simp add: plain_escape)

lemma reads_Nil: "reads [] []"
  using reads_plain [of "[]"] by (simp add: shown_def)

lemma markup_html: "markup e ts \<Longrightarrow> html_tokens e = ts"
  unfolding markup_def html_tokens_def by (drule spec [of _ "[]"]) (simp add: text_token_def)

lemma words: "word ''div''" "word ''span''" "word ''tr''" "word ''td''" "word ''class''" "word ''title''"
  "word ''style''" "word ''colspan''"
  by code_simp+

lemmas reading = markup_elem markup_append reads_markup reads_escaped reads_plain reads_Nil plain_fmtUs words

section \<open>Rows\<close>

definition cell :: "string \<Rightarrow> token list" where
  "cell s = node ''td'' [] (shown s)"

lemma markup_cell: "reads b (shown s) \<Longrightarrow> markup (elem ''td'' [] b) (cell s)"
  using markup_elem [of "''td''" "[]" b "shown s"] by (simp add: cell_def decoded_def words)

lemma markup_plain_cell: "plain s \<Longrightarrow> markup (elem ''td'' [] s) (cell s)"
  by (intro markup_cell reads_plain)

lemma markup_escaped_cell: "markup (elem ''td'' [] (escapeHtml s)) (cell s)"
  by (intro markup_cell reads_escaped)

lemma markup_row: "markup b ts \<Longrightarrow> markup (elem ''tr'' [] b) (node ''tr'' [] ts)"
  using markup_elem [of "''tr''" "[]" b ts] by (simp add: decoded_def words reads_markup)

text \<open>An element whose attributes need no escaping.\<close>

lemma markup_plain_elem:
  assumes "word n" "list_all (\<lambda>(k, v). word k \<and> plain v) as" "reads body inner"
  shows "markup (elem n as body) (node n as inner)"
proof -
  have "decoded as = as" using assms(2) plain_refs by (induction as) (auto simp: decoded_def)
  moreover have "list_all (\<lambda>(k, v). word k \<and> quote \<notin> set v) as"
    using assms(2) by (auto simp: list_all_iff plain_def)
  ultimately show ?thesis using markup_elem [OF assms(1) _ assms(3), of as] by simp
qed

lemma slowlog_row_reads:
  assumes "plain_js J"
  shows "markup (slowlog_row J e) (node ''tr'' [] (cell (time_str J (str_of (prop_of ''time'' e)))
     @ cell (fmtUs J (num_of (prop_of ''durationUs'' e)))
     @ cell (str_of (prop_of ''command'' e) @ '' '' @ spaced (map str_of (items_of (prop_of ''args'' e))))
     @ cell (str_of (prop_of ''clientAddr'' e))))"
  unfolding slowlog_row_def Let_def
  by (intro markup_row markup_append markup_plain_cell markup_escaped_cell plain_fmtUs assms)
    (use assms in \<open>simp add: plain_js_def\<close>)

lemma latency_row_reads:
  assumes "plain_js J"
  shows "markup (latency_row J s) (node ''tr'' [] (cell (str_of (prop_of ''command'' s))
     @ cell (num_str J (num_of (prop_of ''calls'' s))) @ cell (fmtUs J (avg_us s))
     @ cell (fmtUs J (num_of (prop_of ''p50Us'' s))) @ cell (fmtUs J (num_of (prop_of ''p95Us'' s)))
     @ cell (fmtUs J (num_of (prop_of ''p99Us'' s)))))"
  unfolding latency_row_def Let_def
  by (intro markup_row markup_append markup_plain_cell markup_escaped_cell plain_fmtUs assms)
    (use assms in \<open>simp add: plain_js_def\<close>)

lemma stream_row_reads:
  assumes "plain_js J"
  shows "markup (stream_row J evt)
     (node ''span'' [(''class'', ''stream-time'')] (shown (time_str J (str_of (prop_of ''time'' evt))))
      @ node ''span'' [(''class'', ''stream-cmd'')] (shown (str_of (prop_of ''command'' evt)))
      @ node ''span'' [(''class'', ''stream-args'')] (shown (spaced (map str_of (items_of (prop_of ''args'' evt)))))
      @ node ''span'' [(''class'', ''stream-dur '' @ (if num_of (prop_of ''durationUs'' evt) \<ge> 100000 then ''bad''
            else if num_of (prop_of ''durationUs'' evt) \<ge> 10000 then ''warn'' else []))]
          (shown (fmtUs J (num_of (prop_of ''durationUs'' evt)))))"
  unfolding stream_row_def Let_def
  by (intro markup_append markup_plain_elem reads_escaped reads_plain plain_fmtUs words assms)
    (use assms in \<open>auto simp: plain_js_def words quote_def\<close>)

section \<open>The stream\<close>

lemma trim_rows_take: "trim_rows rows = take streamCap rows"
proof (induction rows rule: trim_rows.induct)
  case (1 rows)
  show ?case
  proof (cases "length rows > streamCap")
    case True
    then have "trim_rows rows = take streamCap (butlast rows)" using 1 by (subst trim_rows.simps) simp
    with True show ?thesis by (simp add: take_butlast)
  qed (simp add: trim_rows.simps)
qed

definition stream_items :: "page \<Rightarrow> string list" where
  "stream_items p = (if streamCount p = 0 then [] else rev (p_stream p))"

lemma stream_items_add: "stream_items (add_row row p) = lastn streamCap (stream_items p @ [row])"
  by (simp add: stream_items_def add_row_def Let_def trim_rows_take lastn_def rev_take)

interpretation page: drop_oldest add_row stream_items streamCap "\<lambda>_. True" "\<lambda>_. True"
  by unfold_locales (simp_all add: stream_items_add)

definition stream_part :: "page \<Rightarrow> string list \<times> nat" where
  "stream_part p = (p_stream p, streamCount p)"

lemma stream_part_render:
  "stream_part (renderSlowlog J a p) = stream_part p" "stream_part (renderLatency J a p) = stream_part p"
  "stream_part (renderHotkeys J a p) = stream_part p" "stream_part (renderStats J a p) = stream_part p"
  by (simp_all add: stream_part_def renderSlowlog_def renderLatency_def renderHotkeys_def renderStats_def Let_def
      split: list.split)

lemma stream_part_add: "stream_part p = stream_part q \<Longrightarrow> stream_part (add_row row p) = stream_part (add_row row q)"
  by (simp add: stream_part_def add_row_def Let_def)

text \<open>Names of properties are ASCII and read as they are.\<close>

lemma as_read_obj:
  "list_all (\<lambda>(k, v). list_all (\<lambda>c. code c < 128) k) fs \<Longrightarrow>
     as_read (JObj fs) = JObj (map (\<lambda>(k, v). (k, as_read v)) fs)"
  by (auto simp: valid_ascii list_all_iff)

lemma message_type:
  "prop_of ''type'' (as_read (message_json rfc (StatsMsg st tables))) = JStr ''stats''"
  "prop_of ''type'' (as_read (message_json rfc (CmdMsg e))) = JStr ''cmd''"
  "prop_of ''event'' (as_read (message_json rfc (CmdMsg e))) = as_read (event_json rfc e)"
  by (cases tables; auto simp: prop_of_def valid_ascii code_def)+

lemma stream_part_messages:
  "stream_part p = stream_part q \<Longrightarrow>
     stream_part (fold (onmessage J) (map (\<lambda>m. as_read (message_json rfc m)) ms) p)
       = stream_part (fold add_row (map (\<lambda>e. stream_row J (as_read (event_json rfc e))) (events_of ms)) q)"
proof (induction ms arbitrary: p q)
  case (Cons m ms)
  show ?case
  proof (cases m)
    case (StatsMsg st tables)
    have "stream_part (onmessage J (as_read (message_json rfc m)) p) = stream_part p"
      unfolding onmessage_def StatsMsg message_type by (simp add: stream_part_render)
    from Cons.IH [OF trans [OF this Cons.prems]] show ?thesis by (simp add: StatsMsg del: message_json.simps)
  next
    case (CmdMsg e)
    have "onmessage J (as_read (message_json rfc m)) p = add_row (stream_row J (as_read (event_json rfc e))) p"
      unfolding onmessage_def CmdMsg message_type by (simp add: appendCommand_def)
    with Cons.IH [OF stream_part_add [OF Cons.prems]] show ?thesis by (simp add: CmdMsg del: message_json.simps)
  qed
qed simp

text \<open>The tokens of a row of the stream.\<close>

definition stream_tokens :: "js \<Rightarrow> (int \<Rightarrow> string) \<Rightarrow> Event \<Rightarrow> token list" where
  "stream_tokens J rfc e =
     (let us = double (of_int (ev_DurationUs e))
      in node ''span'' [(''class'', ''stream-time'')] (shown (time_str J (valid_utf8 (rfc (ev_Time e)))))
         @ node ''span'' [(''class'', ''stream-cmd'')] (shown (valid_utf8 (ev_Command e)))
         @ node ''span'' [(''class'', ''stream-args'')] (shown (spaced (map valid_utf8 (ev_Args e))))
         @ node ''span'' [(''class'', ''stream-dur '' @ (if us \<ge> 100000 then ''bad''
              else if us \<ge> 10000 then ''warn'' else []))] (shown (fmtUs J us)))"

lemma event_props:
  "str_of (prop_of ''time'' (as_read (event_json rfc e))) = valid_utf8 (rfc (ev_Time e))"
  "str_of (prop_of ''command'' (as_read (event_json rfc e))) = valid_utf8 (ev_Command e)"
  "map str_of (items_of (prop_of ''args'' (as_read (event_json rfc e)))) = map valid_utf8 (ev_Args e)"
  "num_of (prop_of ''durationUs'' (as_read (event_json rfc e))) = double (of_int (ev_DurationUs e))"
  by (simp_all add: event_json_def strs_def prop_of_def str_of_def items_of_def num_of_def valid_ascii code_def o_def)

lemma stream_row_tokens:
  "plain_js J \<Longrightarrow> html_tokens (stream_row J (as_read (event_json rfc e))) = stream_tokens J rfc e"
  using markup_html [OF stream_row_reads [of J "as_read (event_json rfc e)"]]
  by (simp add: event_props stream_tokens_def Let_def)

text \<open>
  C22: The stream panel shows the commands it was sent, as text. Once the browser has handled the bytes of a connection, the
  stream panel consists of one row for each of the last 60 command messages that were sent on it, newest first, and each
  row is read as the same four elements, with the time, the command, its arguments and its duration as their texts,
  whatever clients have put into them: none of it becomes markup of this panel. Before the first command the panel holds its
  remark. (Which commands are sent is \<open>dashboard_stream\<close>; the other panels are \<open>page_shows_statistics\<close>, and the
  hot keys are not safe, \<open>hotkey_injects\<close>.)
\<close>

theorem page_shows_commands:
  assumes "plain_js J"
  shows "map html_tokens (p_stream (fold (onmessage J) (browser_messages (stream_bytes rfc d)) first_page))
     = (if events_of (sent d) = [] then [[Txt ''waiting for commands...'']]
        else take 60 (rev (map (stream_tokens J rfc) (events_of (sent d)))))"
proof -
  let ?rows = "map (\<lambda>e. stream_row J (as_read (event_json rfc e))) (events_of (sent d))"
  let ?p = "fold (onmessage J) (browser_messages (stream_bytes rfc d)) first_page"
  let ?q = "fold add_row ?rows first_page"
  have eq: "stream_part ?p = stream_part ?q"
    unfolding browser_frames [of "map (message_json rfc) (sent d)", simplified map_map o_def]
      stream_bytes_def by (rule stream_part_messages) simp
  show ?thesis
  proof (cases "events_of (sent d) = []")
    case True
    then have "p_stream ?p = p_stream first_page" using eq by (simp add: stream_part_def)
    then show ?thesis
      using True by (simp add: first_page_def html_tokens_def text_token_def)
  next
    case False
    have "0 < streamCount (fold add_row xs p)" if "xs \<noteq> []" for xs p
      using that by (induction xs rule: rev_induct) (auto simp: add_row_def Let_def)
    with False have "0 < streamCount ?q" by simp
    moreover have "stream_items ?q = lastn streamCap ?rows"
      using page.items_pushes [of first_page ?rows] by (simp add: stream_items_def first_page_def)
    ultimately have "rev (p_stream ?q) = lastn streamCap ?rows" by (simp add: stream_items_def)
    then have "p_stream ?q = rev (lastn streamCap ?rows)" by (simp add: rev_swap)
    then have "p_stream ?q = take 60 (rev ?rows)" by (simp add: lastn_def take_rev streamCap_def)
    then show ?thesis
      using False eq by (simp add: stream_part_def take_map rev_map o_def stream_row_tokens [OF assms])
  qed
qed

definition test_js :: js where
  "test_js = \<lparr>num_str = (\<lambda>_. ''7''), to_fixed = (\<lambda>_ _. ''0.5''), time_str = (\<lambda>_. ''12:00:00'')\<rparr>"

lemma test_js_plain: "plain_js test_js"
  by (simp add: plain_js_def test_js_def quote_def)

definition test_event :: Event where
  "test_event = \<lparr>ev_Time = 1, ev_Command = ''SET'', ev_Args = [''k'', ''<b>''], ev_ClientAddr = ''c'', ev_DurationUs = 0\<rparr>"

lemma double_0 [simp]: "double 0 = 0"
  by (simp add: double_def fl64_def)

theorem page_shows_commands_witness:
  "map html_tokens (p_stream (fold (onmessage test_js) (browser_messages (stream_bytes (\<lambda>_. ''t'')
       \<lparr>evtCh = None, lastCommands = 0, sent = [CmdMsg test_event]\<rparr>)) first_page))
   = [node ''span'' [(''class'', ''stream-time'')] [Txt ''12:00:00'']
      @ node ''span'' [(''class'', ''stream-cmd'')] [Txt ''SET'']
      @ node ''span'' [(''class'', ''stream-args'')] [Txt ''k <b>'']
      @ node ''span'' [(''class'', ''stream-dur '')] [Txt ''7us'']]"
  unfolding page_shows_commands [OF test_js_plain]
  by (simp add: stream_tokens_def test_event_def test_js_def shown_def valid_ascii code_def fmtUs_def)

section \<open>The tables\<close>

lemma valid_utf8_ascii_mem: "code c < 128 \<Longrightarrow> c \<in> set (valid_utf8 s) \<longleftrightarrow> c \<in> set s"
proof (induction s rule: valid_utf8.induct)
  case (2 d r)
  have rep: "c \<notin> set replacement" using 2(4) by (auto simp: replacement_def code_def)
  show ?case
  proof (cases "code d < 128")
    case True
    then show ?thesis using 2(1) [OF True 2(4)] by simp
  next
    case False
    define n where "n = rune_len (d # r)"
    have d: "c \<noteq> d" using False 2(4) by auto
    show ?thesis
    proof (cases "n = 0")
      case True
      then show ?thesis using False 2(2) [OF False n_def True 2(4)] rep d by (simp add: n_def [symmetric])
    next
      case nz: False
      have "list_all (\<lambda>c. 128 \<le> code c) (take n (d # r))" using rune_bytes [of "d # r" n] nz n_def by simp
      then have t: "c \<notin> set (take n (d # r))" using 2(4) by (auto simp: list_all_iff)
      have "set (d # r) = set (take n (d # r)) \<union> set (drop n (d # r))"
        by (metis append_take_drop_id set_append)
      moreover have "drop n (d # r) = drop (n - 1) r" using nz by (cases n) auto
      ultimately show ?thesis
        using False nz t 2(3) [OF False n_def nz 2(4)] by (auto simp: n_def [symmetric])
    qed
  qed
qed simp

definition slow_tokens :: "js \<Rightarrow> (int \<Rightarrow> string) \<Rightarrow> SlowEntry \<Rightarrow> token list" where
  "slow_tokens J rfc e = node ''tr'' []
     (cell (time_str J (valid_utf8 (rfc (se_Time e)))) @ cell (fmtUs J (double (of_int (se_DurationUs e))))
      @ cell (valid_utf8 (se_Command e) @ '' '' @ spaced (map valid_utf8 (se_Args e)))
      @ cell (valid_utf8 (se_ClientAddr e)))"

definition latency_tokens :: "js \<Rightarrow> CommandStat \<Rightarrow> token list" where
  "latency_tokens J c =
     (let n = (\<lambda>f. double (of_int (f c)))
      in node ''tr'' []
          (cell (valid_utf8 (cs_Command c)) @ cell (num_str J (n cs_Calls))
           @ cell (fmtUs J (if n cs_Calls > 0 then js_div (n cs_TotalUs) (n cs_Calls) else 0))
           @ cell (fmtUs J (n cs_P50Us)) @ cell (fmtUs J (n cs_P95Us)) @ cell (fmtUs J (n cs_P99Us))))"

lemma slow_props:
  "str_of (prop_of ''time'' (as_read (slow_json rfc e))) = valid_utf8 (rfc (se_Time e))"
  "str_of (prop_of ''command'' (as_read (slow_json rfc e))) = valid_utf8 (se_Command e)"
  "map str_of (items_of (prop_of ''args'' (as_read (slow_json rfc e)))) = map valid_utf8 (se_Args e)"
  "str_of (prop_of ''clientAddr'' (as_read (slow_json rfc e))) = valid_utf8 (se_ClientAddr e)"
  "num_of (prop_of ''durationUs'' (as_read (slow_json rfc e))) = double (of_int (se_DurationUs e))"
  by (simp_all add: slow_json_def strs_def prop_of_def str_of_def items_of_def num_of_def valid_ascii code_def o_def)

lemma commandStat_props:
  "str_of (prop_of ''command'' (as_read (commandStat_json c))) = valid_utf8 (cs_Command c)"
  "num_of (prop_of ''calls'' (as_read (commandStat_json c))) = double (of_int (cs_Calls c))"
  "num_of (prop_of ''totalUs'' (as_read (commandStat_json c))) = double (of_int (cs_TotalUs c))"
  "num_of (prop_of ''p50Us'' (as_read (commandStat_json c))) = double (of_int (cs_P50Us c))"
  "num_of (prop_of ''p95Us'' (as_read (commandStat_json c))) = double (of_int (cs_P95Us c))"
  "num_of (prop_of ''p99Us'' (as_read (commandStat_json c))) = double (of_int (cs_P99Us c))"
  by (simp_all add: commandStat_json_def prop_of_def str_of_def num_of_def valid_ascii code_def)

lemma slow_row_tokens: "plain_js J \<Longrightarrow> markup (slowlog_row J (as_read (slow_json rfc e))) (slow_tokens J rfc e)"
  unfolding slow_tokens_def using slowlog_row_reads [of J "as_read (slow_json rfc e)"] by (simp add: slow_props)

lemma latency_row_tokens: "plain_js J \<Longrightarrow> markup (latency_row J (as_read (commandStat_json c))) (latency_tokens J c)"
  unfolding latency_tokens_def Let_def using latency_row_reads [of J "as_read (commandStat_json c)"]
  by (simp only: commandStat_props avg_us_def)

section \<open>Hot keys\<close>

definition bar_pct :: "rat \<Rightarrow> rat \<Rightarrow> rat" where
  "bar_pct cnt most = (let m = double (js_div cnt most * 100) in if m < 2 then 2 else m)"

definition hotkey_tokens :: "js \<Rightarrow> rat \<Rightarrow> HotKey \<Rightarrow> token list" where
  "hotkey_tokens J most h =
     (let cnt = double (of_int (hk_Count h)); key = valid_utf8 (hk_Key h)
      in node ''div'' [(''class'', ''hk-row'')]
          (node ''span'' [(''class'', ''hk-key''), (''title'', key)] (shown key)
           @ node ''div'' [(''class'', ''hk-bar-track'')]
               (node ''div'' [(''class'', ''hk-bar-fill''),
                   (''style'', ''width:'' @ num_str J (bar_pct cnt most) @ ''%'')] [])
           @ node ''span'' [(''class'', ''hk-count'')] (shown (num_str J cnt))))"

lemma hotkey_props:
  "str_of (prop_of ''key'' (as_read (hotkey_json h))) = valid_utf8 (hk_Key h)"
  "num_of (prop_of ''count'' (as_read (hotkey_json h))) = double (of_int (hk_Count h))"
  by (simp_all add: hotkey_json_def prop_of_def str_of_def num_of_def valid_ascii code_def)

lemma hotkey_row_tokens:
  assumes "plain_js J" "quote \<notin> set (hk_Key h)"
  shows "markup (hotkey_row J most (as_read (hotkey_json h))) (hotkey_tokens J most h)"
proof -
  let ?k = "valid_utf8 (hk_Key h)" and ?c = "double (of_int (hk_Count h))"
  have "quote \<notin> set (escapeHtml ?k)" using assms(2) by (simp add: escape_quote valid_utf8_ascii_mem)
  then have 1: "markup (elem ''span'' [(''class'', ''hk-key''), (''title'', escapeHtml ?k)] (escapeHtml ?k))
      (node ''span'' [(''class'', ''hk-key''), (''title'', ?k)] (shown ?k))"
    using markup_elem [of "''span''" "[(''class'', ''hk-key''), (''title'', escapeHtml ?k)]" "escapeHtml ?k" "shown ?k"]
    by (simp add: words reads_escaped decoded_def char_refs_escape quote_def)
  have 2: "markup (elem ''div'' [(''class'', ''hk-bar-track'')] (elem ''div'' [(''class'', ''hk-bar-fill''),
        (''style'', ''width:'' @ num_str J x @ ''%'')] []))
      (node ''div'' [(''class'', ''hk-bar-track'')] (node ''div'' [(''class'', ''hk-bar-fill''),
        (''style'', ''width:'' @ num_str J x @ ''%'')] []))" for x
    by (intro markup_plain_elem reads_markup reads_Nil words)
      (use assms(1) in \<open>simp_all add: plain_js_def words quote_def\<close>)
  have 3: "markup (elem ''span'' [(''class'', ''hk-count'')] (num_str J ?c))
      (node ''span'' [(''class'', ''hk-count'')] (shown (num_str J ?c)))"
    by (intro markup_plain_elem reads_plain words)
      (use assms(1) in \<open>simp_all add: plain_js_def words quote_def\<close>)
  have "list_all (\<lambda>(k, v). word k \<and> plain v) [(''class'', ''hk-row'')]" by (simp add: words quote_def)
  from markup_plain_elem [OF words(1) this reads_markup [OF markup_append [OF 1 markup_append [OF 2 3]]]]
  show ?thesis by (simp add: hotkey_row_def hotkey_props hotkey_tokens_def Let_def bar_pct_def)
qed

text \<open>Inside a tag, what has been read of its attributes stays.\<close>

fun in_tag :: "state \<Rightarrow> (string \<times> (string \<times> string) list) option" where
  "in_tag (Before n as) = Some (n, as)"
| "in_tag (AttrName n as a) = Some (n, as)"
| "in_tag (AfterEq n as a) = Some (n, as)"
| "in_tag (Value n as a v) = Some (n, as)"
| "in_tag (Bare n as a v) = Some (n, as)"
| "in_tag _ = None"

definition extends :: "string \<Rightarrow> (string \<times> string) list \<Rightarrow> token list \<Rightarrow> bool" where
  "extends n as ts \<longleftrightarrow> ts = [] \<or> (\<exists>bs u. ts = Tag n (as @ bs) # u)"

lemma extends_simps [simp]: "extends n as []" "extends n as (Tag n as # u)" "extends n as (Tag n (as @ bs) # u)"
  by (auto simp: extends_def)

lemma extends_snoc: "extends n (as @ [x]) ts \<Longrightarrow> extends n as ts"
  by (auto simp: extends_def)

lemma attributes_stay: "in_tag st = Some (n, as) \<Longrightarrow> extends n as (tokens st s)"
proof (induction s arbitrary: st as)
  case Nil
  then show ?case by (cases st) auto
next
  case (Cons c s)
  have one: "extends n as (tokens st' s)" if "in_tag st' = Some (n, as @ [x])" for st' x
    using extends_snoc [OF Cons.IH [OF that]] .
  show ?case
    using Cons.prems Cons.IH one by (cases st) (simp_all add: if_distrib [of "extends n as"] split: if_split)
qed

text \<open>The row of a hot key, up to the first double quote of the key.\<close>

lemma hotkey_row_quote:
  assumes "valid_utf8 (hk_Key h) = k @ quote # k'" "quote \<notin> set k"
  shows "\<exists>t. html_tokens (hotkey_row J most (as_read (hotkey_json h))) = Tag ''div'' [(''class'', ''hk-row'')]
     # tokens (Before ''span'' [(''class'', ''hk-key''), (''title'', k)])
         (escapeHtml k' @ quote # ''>'' @ escapeHtml (k @ quote # k') @ ''</span>'' @ t)"
proof -
  let ?e = "escapeHtml (k @ quote # k')"
  obtain t where row: "hotkey_row J most (as_read (hotkey_json h)) =
      ''<'' @ ''div'' @ concat (map attr [(''class'', ''hk-row'')]) @ CHR ''>'' #
      (''<span'' @ attr (''class'', ''hk-key'') @ '' title='' @ quote # ?e @ quote # ''>'' @ ?e @ ''</span>'' @ t)"
    unfolding hotkey_row_def Let_def hotkey_props assms(1)
    by (simp add: elem_def attr_def)
  let ?rest = "escapeHtml k' @ quote # ''>'' @ ?e @ ''</span>'' @ t"
  have c: "quote \<notin> set ''hk-key''" and pc: "plain ''hk-key''" by (simp_all add: quote_def)
  have e: "quote \<notin> set (escapeHtml k)" using assms(2) by (simp add: escape_quote)
  have q: "escapeHtml (quote # k') = quote # escapeHtml k'" by (simp add: quote_def)
  have "tokens (Data []) (''<span'' @ attr (''class'', ''hk-key'') @ '' title='' @ quote # ?e @ quote # ''>'' @ ?e @ ''</span>'' @ t)
      = tokens (Before ''span'' []) (attr (''class'', ''hk-key'') @ attr (''title'', escapeHtml k) @ ?rest)"
    using tokens_name [of "''pan''" "''s''"] tokens_first_attr [of "''span''" "(''class'', ''hk-key'')"]
    by (simp add: text_token_def letter_def code_def space_def attr_def escape_append q del: escapeHtml.simps)
  also have "\<dots> = tokens (Before ''span'' [(''class'', ''hk-key''), (''title'', k)]) ?rest"
    using tokens_attr [OF words(5) c] tokens_attr [OF words(6) e] by (simp add: char_refs_escape plain_refs [OF pc])
  finally show ?thesis
    unfolding html_tokens_def row
    using tokens_open [of "''div''" "[(''class'', ''hk-row'')]"]
    by (intro exI [of _ t]) (simp add: text_token_def words quote_def plain_refs)
qed

text \<open>
  C25: A hot key is shown as it is exactly if it has no double quote. The row of a hot key is read as its four elements, with
  the key as the title and the text of the first one, if and only if the key contains no double quote. If it contains
  one, the title ends there: its value is the key up to its first double quote, and what the key continues with
  is read inside the tag, where attributes are expected.
\<close>

theorem hotkey_row_faithful:
  assumes "plain_js J"
  shows "(html_tokens (hotkey_row J most (as_read (hotkey_json h))) = hotkey_tokens J most h
       \<longleftrightarrow> CHR 0x22 \<notin> set (hk_Key h))
     \<and> (\<forall>k k'. valid_utf8 (hk_Key h) = k @ CHR 0x22 # k' \<and> CHR 0x22 \<notin> set k \<longrightarrow>
          (\<exists>t. html_tokens (hotkey_row J most (as_read (hotkey_json h))) = Tag ''div'' [(''class'', ''hk-row'')]
             # tokens (Before ''span'' [(''class'', ''hk-key''), (''title'', k)]) (escapeHtml k' @ CHR 0x22 # CHR ''>'' # t)))"
proof -
  have cut: "\<exists>t. html_tokens (hotkey_row J most (as_read (hotkey_json h))) = Tag ''div'' [(''class'', ''hk-row'')]
      # tokens (Before ''span'' [(''class'', ''hk-key''), (''title'', k)]) (escapeHtml k' @ quote # CHR ''>'' # t)"
    if "valid_utf8 (hk_Key h) = k @ quote # k'" "quote \<notin> set k" for k k'
    using hotkey_row_quote [OF that, of J most] by auto
  moreover have "html_tokens (hotkey_row J most (as_read (hotkey_json h))) \<noteq> hotkey_tokens J most h"
    if "quote \<in> set (hk_Key h)"
  proof
    let ?key = "valid_utf8 (hk_Key h)"
    assume eq: "html_tokens (hotkey_row J most (as_read (hotkey_json h))) = hotkey_tokens J most h"
    have q: "quote \<in> set ?key" using that by (simp add: valid_utf8_ascii_mem quote_def code_def)
    from split_list_first [OF q] obtain k k' where k: "?key = k @ quote # k'" "quote \<notin> set k" by blast
    from cut [OF k] obtain t where
      "html_tokens (hotkey_row J most (as_read (hotkey_json h))) = Tag ''div'' [(''class'', ''hk-row'')]
        # tokens (Before ''span'' [(''class'', ''hk-key''), (''title'', k)]) t" by blast
    moreover have "hd (tl (hotkey_tokens J most h)) = Tag ''span'' [(''class'', ''hk-key''), (''title'', ?key)]"
      "tl (hotkey_tokens J most h) \<noteq> []"
      by (simp_all add: hotkey_tokens_def Let_def node_def)
    moreover have "extends ''span'' [(''class'', ''hk-key''), (''title'', k)]
        (tokens (Before ''span'' [(''class'', ''hk-key''), (''title'', k)]) t)"
      by (rule attributes_stay) simp
    ultimately have "k = ?key" using eq by (auto simp: extends_def)
    with q k(2) show False by simp
  qed
  moreover have "html_tokens (hotkey_row J most (as_read (hotkey_json h))) = hotkey_tokens J most h"
    if "quote \<notin> set (hk_Key h)"
    using markup_html [OF hotkey_row_tokens [OF assms that]] .
  ultimately show ?thesis unfolding quote_def by blast
qed

theorem hotkey_row_faithful_witness:
  "html_tokens (hotkey_row test_js 1 (as_read (hotkey_json \<lparr>hk_Key = ''user:1'', hk_Count = 0\<rparr>)))
     = hotkey_tokens test_js 1 \<lparr>hk_Key = ''user:1'', hk_Count = 0\<rparr>"
  using hotkey_row_faithful [OF test_js_plain, of 1 "\<lparr>hk_Key = ''user:1'', hk_Count = 0\<rparr>"] by simp

text \<open>
  So a client that can use keys can put attributes into the page of whoever watches it: a key that continues its title with
  an event handler gives the element that handler.
\<close>

lemma hotkey_injects:
  assumes "hk_Key h = a @ attr_break @ n @ [CHR ''='', quote] @ v" "attr_break = [quote, CHR '' '']"
    "quote \<notin> set a" "word n" "plain n" "quote \<notin> set v" "list_all (\<lambda>c. code c < 128) (hk_Key h)"
  shows "\<exists>ts. html_tokens (hotkey_row J most (as_read (hotkey_json h))) =
     Tag ''div'' [(''class'', ''hk-row'')] # Tag ''span'' [(''class'', ''hk-key''), (''title'', a), (n, v)] # ts"
proof -
  let ?k' = "CHR '' '' # n @ CHR ''='' # quote # v"
  have "valid_utf8 (hk_Key h) = a @ quote # ?k'" using valid_ascii [OF assms(7)] assms(1,2) by simp
  from hotkey_row_quote [OF this assms(3), of J most] obtain t where
    t: "html_tokens (hotkey_row J most (as_read (hotkey_json h))) = Tag ''div'' [(''class'', ''hk-row'')]
      # tokens (Before ''span'' [(''class'', ''hk-key''), (''title'', a)]) (escapeHtml ?k' @ quote # ''>'' @ t)" by auto
  have e: "escapeHtml ?k' @ quote # ''>'' @ t = attr (n, escapeHtml v) @ CHR ''>'' # t"
    using plain_escape [OF assms(5)] by (simp add: attr_def escape_append quote_def)
  have "quote \<notin> set (escapeHtml v)" using assms(6) by (simp add: escape_quote)
  with t show ?thesis unfolding e tokens_attr [OF assms(4) \<open>quote \<notin> set (escapeHtml v)\<close>] by (simp add: char_refs_escape)
qed

lemma hotkey_injects_witness:
  "\<exists>ts. html_tokens (hotkey_row test_js 1 (as_read (hotkey_json
       \<lparr>hk_Key = ''x'' @ [quote, CHR '' ''] @ ''onmouseover'' @ [CHR ''='', quote] @ ''alert(1)'', hk_Count = 1\<rparr>)))
   = Tag ''div'' [(''class'', ''hk-row'')]
     # Tag ''span'' [(''class'', ''hk-key''), (''title'', ''x''), (''onmouseover'', ''alert(1)'')] # ts"
proof (rule hotkey_injects [where attr_break = "[quote, CHR '' '']"])
  show "word ''onmouseover''" by code_simp
qed (simp_all add: quote_def code_def)

section \<open>The statistics\<close>

definition tables_of :: "page \<Rightarrow> string \<times> string \<times> string" where
  "tables_of p = (p_slowlog p, p_latency p, p_hotkeys p)"

lemma tables_stay:
  "tables_of (fold (onmessage J) (map (\<lambda>e. as_read (message_json rfc (CmdMsg e))) es) p) = tables_of p"
proof (induction es arbitrary: p)
  case (Cons e es)
  let ?j = "as_read (message_json rfc (CmdMsg e))"
  have "onmessage J ?j p = add_row (stream_row J (as_read (event_json rfc e))) p"
    unfolding onmessage_def message_type by (simp add: appendCommand_def)
  then have "tables_of (onmessage J ?j p) = tables_of p"
    by (simp add: add_row_def tables_of_def Let_def del: message_json.simps)
  with Cons.IH [of "onmessage J ?j p"] show ?case by (simp del: message_json.simps)
qed simp

lemma stats_props:
  fixes rfc st sl hk cs
  defines "j \<equiv> as_read (message_json rfc (StatsMsg st (Some (sl, hk, cs))))"
  shows "items_of (prop_of ''slowlog'' j) = map (\<lambda>e. as_read (slow_json rfc e)) sl"
    "items_of (prop_of ''commandStats'' j) = map (\<lambda>c. as_read (commandStat_json c)) cs"
    "items_of (prop_of ''hotkeys'' j) = map (\<lambda>h. as_read (hotkey_json h)) hk"
  by (simp_all add: j_def prop_of_def items_of_def valid_ascii code_def o_def)

definition slow_empty :: "token list" where
  "slow_empty = node ''tr'' [] (node ''td'' [(''colspan'', ''4''), (''class'', ''empty'')] [Txt ''no slow commands recorded yet''])"

definition latency_empty :: "token list" where
  "latency_empty = node ''tr'' [] (node ''td'' [(''colspan'', ''6''), (''class'', ''empty'')] [Txt ''no commands recorded yet''])"

definition hot_empty :: "token list" where
  "hot_empty = node ''div'' [(''class'', ''empty'')] [Txt ''no activity yet'']"

text \<open>The largest count, which is that of the first key.\<close>

definition most_of :: "HotKey list \<Rightarrow> rat" where
  "most_of hk = (let c = double (of_int (hk_Count (hd hk))) in if c = 0 then 1 else c)"

text \<open>
  C23: The tables show the last statistics. After a statistics message, and any commands since, the slow log and
  the latency table are read as one row per entry and per command, in the order they were sent, with the
  entries' words as texts and nothing else, whatever clients have sent. The hot-key panel is read as one row per key
  in the same way provided that no hot key contains a double quote (\<open>hotkey_injects\<close> shows what happens otherwise).
\<close>

theorem page_shows_statistics:
  assumes "plain_js J" "sent d = ms @ StatsMsg st (Some (sl, hk, cs)) # map CmdMsg es"
  shows "let p = fold (onmessage J) (browser_messages (stream_bytes rfc d)) first_page
     in html_tokens (p_slowlog p) = (if sl = [] then slow_empty else concat (map (slow_tokens J rfc) sl))
        \<and> html_tokens (p_latency p) = (if cs = [] then latency_empty else concat (map (latency_tokens J) cs))
        \<and> (list_all (\<lambda>h. CHR 0x22 \<notin> set (hk_Key h)) hk \<longrightarrow>
             html_tokens (p_hotkeys p) = (if hk = [] then hot_empty else concat (map (hotkey_tokens J (most_of hk)) hk)))"
proof -
  let ?m = "\<lambda>m. as_read (message_json rfc m)" and ?st = "StatsMsg st (Some (sl, hk, cs))"
  define p0 where "p0 = fold (onmessage J) (map ?m ms) first_page"
  define p1 where "p1 = onmessage J (?m ?st) p0"
  let ?p = "fold (onmessage J) (browser_messages (stream_bytes rfc d)) first_page"
  have "browser_messages (stream_bytes rfc d) = map ?m (sent d)"
    using browser_frames [of "map (message_json rfc) (sent d)"] by (simp add: stream_bytes_def o_def)
  then have p: "?p = fold (onmessage J) (map (\<lambda>e. ?m (CmdMsg e)) es) p1"
    by (simp add: assms(2) p1_def p0_def o_def del: message_json.simps)
  have tabs: "p_slowlog p1 = p_slowlog (renderSlowlog J (prop_of ''slowlog'' (?m ?st)) p0)"
    "p_latency p1 = p_latency (renderLatency J (prop_of ''commandStats'' (?m ?st)) p0)"
    "p_hotkeys p1 = p_hotkeys (renderHotkeys J (prop_of ''hotkeys'' (?m ?st)) p0)"
    unfolding p1_def onmessage_def message_type
    by (simp_all add: renderSlowlog_def renderLatency_def renderHotkeys_def Let_def del: message_json.simps split: list.split)
  have remark: "markup (elem ''tr'' [] (elem ''td'' [(''colspan'', n), (''class'', ''empty'')] s))
      (node ''tr'' [] (node ''td'' [(''colspan'', n), (''class'', ''empty'')] [Txt s]))"
    if "plain n" "plain s" "s \<noteq> []" for n s
    using that markup_plain_elem [OF words(4) _ reads_plain [OF that(2)], of "[(''colspan'', n), (''class'', ''empty'')]"]
    by (intro markup_row) (simp add: words shown_def quote_def)
  have rows: "markup (concat (map (\<lambda>e. slowlog_row J (as_read (slow_json rfc e))) sl)) (concat (map (slow_tokens J rfc) sl))"
    "markup (concat (map (\<lambda>c. latency_row J (as_read (commandStat_json c))) cs)) (concat (map (latency_tokens J) cs))"
    by (intro markup_concat slow_row_tokens latency_row_tokens assms(1))+
  have slow: "markup (p_slowlog p1) (if sl = [] then slow_empty else concat (map (slow_tokens J rfc) sl))"
    using remark [of "''4''" "''no slow commands recorded yet''"] rows(1)
    by (simp add: tabs renderSlowlog_def stats_props slow_empty_def o_def quote_def del: message_json.simps)
  have lat: "markup (p_latency p1) (if cs = [] then latency_empty else concat (map (latency_tokens J) cs))"
    using remark [of "''6''" "''no commands recorded yet''"] rows(2)
    by (simp add: tabs renderLatency_def stats_props latency_empty_def o_def quote_def del: message_json.simps)
  have "p_hotkeys p1 = (if hk = [] then elem ''div'' [(''class'', ''empty'')] ''no activity yet''
      else concat (map (\<lambda>h. hotkey_row J (most_of hk) (as_read (hotkey_json h))) hk))"
    unfolding tabs renderHotkeys_def stats_props by (cases hk) (simp_all add: Let_def hotkey_props most_of_def o_def)
  moreover have "markup (concat (map (\<lambda>h. hotkey_row J (most_of hk) (as_read (hotkey_json h))) hk))
      (concat (map (hotkey_tokens J (most_of hk)) hk))"
    if "list_all (\<lambda>h. CHR 0x22 \<notin> set (hk_Key h)) hk"
    using that by (intro markup_concat hotkey_row_tokens [OF assms(1)]) (auto simp: list_all_iff quote_def)
  moreover have "markup (elem ''div'' [(''class'', ''empty'')] ''no activity yet'') hot_empty"
    using markup_plain_elem [OF words(1) _ reads_plain, of "[(''class'', ''empty'')]" "''no activity yet''"]
    by (simp add: words shown_def quote_def hot_empty_def)
  ultimately have "html_tokens (p_hotkeys p1) = (if hk = [] then hot_empty else concat (map (hotkey_tokens J (most_of hk)) hk))"
    if "list_all (\<lambda>h. CHR 0x22 \<notin> set (hk_Key h)) hk"
    using that markup_html by simp
  moreover have "p_slowlog ?p = p_slowlog p1" "p_latency ?p = p_latency p1" "p_hotkeys ?p = p_hotkeys p1"
    unfolding p using tables_stay [of J rfc es p1] by (simp_all add: tables_of_def del: message_json.simps)
  ultimately show ?thesis unfolding Let_def using markup_html [OF slow] markup_html [OF lat] by simp
qed

theorem page_shows_statistics_witness:
  "html_tokens (p_slowlog (fold (onmessage test_js) (browser_messages (stream_bytes (\<lambda>_. ''t'')
       \<lparr>evtCh = None, lastCommands = 0, sent = [StatsMsg no_Stats (Some
         ([\<lparr>se_ID = 1, se_Time = 1, se_DurationUs = 0, se_Command = ''GET'', se_Args = [''<i>''], se_ClientAddr = ''c''\<rparr>],
          [], [])), CmdMsg test_event]\<rparr>)) first_page))
   = node ''tr'' [] (cell ''12:00:00'' @ cell ''7us'' @ cell ''GET <i>'' @ cell ''c'')"
proof -
  let ?e = "\<lparr>se_ID = 1, se_Time = 1, se_DurationUs = 0, se_Command = ''GET'', se_Args = [''<i>''], se_ClientAddr = ''c''\<rparr>"
  let ?d = "\<lparr>evtCh = None, lastCommands = 0, sent = [StatsMsg no_Stats (Some ([?e], [], [])), CmdMsg test_event]\<rparr>"
  have "sent ?d = [] @ StatsMsg no_Stats (Some ([?e], [], [])) # map CmdMsg [test_event]" by simp
  from page_shows_statistics [OF test_js_plain this, of "\<lambda>_. ''t''"] show ?thesis
    by (simp add: Let_def slow_tokens_def test_js_def valid_ascii code_def fmtUs_def)
qed

end
