(* ===== verification/Spec2Isabelle.thy ===== *)
theory Spec2Isabelle
  imports Kv_Enumeration Aof_Rewrite Events_Latency Events_HotKeys Events_Streams Handler_Replies Server_Auth
    Config_Start Page_Safety
begin

text \<open>
  redis-glass: a key-value server that speaks the Redis protocol, keeps an append-only log and
  watches itself.  This library models its Go sources and proves them correct where they are,
  and exhibits the counterexample where they are not.

  \<^bold>\<open>The program.\<close>  A client's bytes reach \<open>server/server.go\<close>, one goroutine per connection.
  \<open>readAndHandle\<close> has \<open>resp/parser.go\<close> decode one value, lets unauthenticated clients do no more
  than \<open>PING\<close> and \<open>AUTH\<close>, and calls \<open>commands/handler.go\<close>.  A handler checks the arguments,
  runs an operation of \<open>store/store.go\<close> and, for a mutation, appends the command to the log of
  \<open>store/aof.go\<close> in the same critical section, answers through \<open>resp/writer.go\<close>, and reports the
  command to the recorder of \<open>events/events.go\<close>, which \<open>monitor/dashboard.go\<close> streams to browsers.
  Beside the clients run the expiry sampler, the fsync ticker and the log rewrite.  \<open>main.go\<close> reads
  the environment, replays the log and puts the parts together.

  \<^bold>\<open>How it is modelled.\<close>  A Go \<open>int\<close> is an \<open>int\<close> with \<open>wrap64\<close> wherever it can leave 64 bits, a
  \<open>float64\<close> is a rational with \<open>fl64\<close> at every rounding, a string is its bytes, a map an
  association list with distinct keys whose order stands for Go's arbitrary iteration order.
  A panic is the value \<open>Panics\<close>, an error the left of a sum.  A definition is what a method does
  under its mutex, or one critical section where it takes the lock twice; interleavings of such
  steps are runs of step functions or step relations.  What the clock, the operating system and
  the version string answer is an argument (\<open>env\<close>, \<open>osenv\<close>, \<open>rewrite_io\<close>).

  \<^bold>\<open>The theories.\<close>
  \<^item> \<open>Go_Prelude\<close>: machine integers, times, maps (locale \<open>go_map\<close>), outcomes; the locales
    \<open>invariant_system\<close>, \<open>initialised_system\<close> and \<open>transition_invariant\<close>, in which runs and
    reachable states are reasoned about once.  \<open>Go_Strings\<close>: \<open>strconv\<close> and \<open>strings\<close>.
    \<open>Go_Float\<close>: rounding to doubles, and when it does no harm.  \<open>Glob\<close>: the two glob matchers.
    \<open>Codec\<close>: what is written can be read back, also from a stream (locale \<open>codec\<close>).
  \<^item> \<open>Kv_Store\<close> is \<open>store.go\<close>: the record \<open>Store\<close> and one definition per method
    (\<open>store_Set\<close> is \<open>Set\<close> and so on; \<open>sampleExpire_rounds\<close> and \<open>sample_loop\<close> are the loops of
    \<open>sampleExpire\<close>).  \<open>Kv_Invariant\<close>: every operation keeps the maps well formed, the expiry index
    exact and the memory estimate under its ceiling.  \<open>Kv_View\<close>: the abstract keyspace (strings
    with expiry, lists, hashes) and what \<open>SET\<close>, \<open>GET\<close>, \<open>DEL\<close>, \<open>EXISTS\<close> do to it.  \<open>Kv_Contracts\<close>: counters,
    lists and hashes, on every branch.  \<open>Kv_Enumeration\<close>: \<open>KEYS\<close> and \<open>SCAN\<close>.  \<open>Kv_Expiry\<close>: \<open>TTL\<close>,
    \<open>EXPIRE\<close>, the sampler, and the races of lazy expiry.  \<open>Kv_Equiv\<close>: stores with the same view
    behave the same.
  \<^item> \<open>Resp\<close> is \<open>parser.go\<close> and \<open>writer.go\<close>; \<open>Resp_Roundtrip\<close>: what is written is read back, also from
    a stream and next to other data.
  \<^item> \<open>Aof\<close> is \<open>aof.go\<close>: \<open>writeLocked\<close>, the fsync policies, \<open>Rewrite\<close> as \<open>Rewrite_begin\<close> and
    \<open>Rewrite_finish\<close>, \<open>Replay\<close>.  \<open>Aof_Replay\<close>: a log of commands is replayed in order, a torn last record
    is dropped, and what the log does to the commands that are written behind one.  \<open>Aof_Snapshot\<close>: the snapshot a rewrite writes restores the keyspace.
    \<open>Aof_Rewrite\<close>: commands, fsyncs and rewrites in any order keep the file a
    faithful description of the store (\<open>aof_step\<close>, \<open>live_inv\<close>).
  \<^item> \<open>Events\<close> is \<open>events.go\<close>; \<open>Events_Latency\<close>: the statistics of the commands and their
    percentiles; \<open>Events_HotKeys\<close>: the sliding
    window; \<open>Events_Streams\<close>: slow log and live channels as instances of a bounded buffer that
    drops its oldest or its newest element, and redaction as indistinguishability.
  \<^item> \<open>Handler\<close> is \<open>handler.go\<close>: a definition \<open>handle_x\<close> per method \<open>x\<close>, \<open>mutateAndLog\<close>, \<open>dispatch\<close> (the
    switch) and \<open>Handle\<close>.  \<open>Handler_Log\<close>: a handler does to the store what replaying its log entry
    does, so the server refines the protocol of \<open>Aof_Rewrite\<close> and recovers from its log.
    \<open>Handler_Replies\<close>: one command, one well-formed reply of the command's type (\<open>reply_ty\<close>); errors have no
    effect.
  \<^item> \<open>Server\<close> is \<open>server.go\<close>: \<open>readAndHandle\<close>, \<open>handleConn\<close> and the counters.  \<open>Server_Safety\<close>: the loop
    ends and executes pipelines in order.  \<open>Server_Auth\<close>: without the password there is no way to
    the data, for any number of interleaved connections (integrity and noninterference).
  \<^item> \<open>Config\<close> is \<open>main.go\<close>: the environment variables and \<open>main_start\<close>.  \<open>Config_Start\<close>: the ceiling and
    the redaction patterns are the configured ones, restarts and crashes keep the keyspace, and a power cut leaves
    a state that the server has been in.
  \<^item> \<open>Dashboard\<close> is the Go code of \<open>dashboard.go\<close>: the password check and the event-stream loop.  \<open>Json\<close>: what it
    uses of \<open>encoding/json\<close>, and that a document is one line and is read back.  \<open>Dashboard_Stream\<close>: the JSON of
    the messages and their frames; a browser finds exactly the messages that were sent.  \<open>Page\<close> is the
    script in \<open>pageHTML\<close>: a definition per function of the script, from a message to the markup it
    writes.  \<open>Page_Safety\<close>: reading that markup as a browser does, the rows of the stream, the slow log and the
    latency table show what clients sent as text, and the stream its last 60 commands; so do those of the hot keys
    unless a key has a double quote, with which a client can put attributes into the page (\<open>hotkey_injects\<close>).

  \<^bold>\<open>Interfaces.\<close>  \<open>go_map\<close> is interpreted on association lists, \<open>codec\<close> on the
  commands of the protocol, \<open>bounded_buffer\<close> (by \<open>drop_oldest\<close> and \<open>drop_newest\<close>) on
  the slow log, the subscribers' channels and the rows of the page, \<open>invariant_system\<close> on the store, the recorder and the
  connections, \<open>transition_invariant\<close> on the log protocol, the server and its restarts.

  \<^bold>\<open>Fuel and bounds.\<close>  The parser nests no deeper than its input is long: \<open>Parse\<close> uses one more than
  that, and \<open>parse_enough\<close> shows that it never runs out.  \<open>handleConn\<close> needs one step per byte and
  one more (\<open>connection_ends\<close>); \<open>scan_loop\<close>, the client that follows the cursor, one call per key and
  one more (\<open>scan_complete\<close>).  The rank of a percentile is exact below \<open>2 ^ 44\<close> operations.  A parsed length is limited by the address space (\<open>maxAlloc\<close>), beyond
  which \<open>make\<close> panics; the codec theorems are about commands that \<open>fit\<close> in it.

  \<^bold>\<open>What the recovery theorems assume.\<close>  The log accepts what is written to it (a full disk is the
  subject of \<open>log_failure_misreported\<close> and \<open>torn_record_is_dropped\<close>).  They are about a set \<open>K\<close> of keys
  that never have an expiry: lists, hashes and the strings of \<open>K\<close> are recovered exactly, whatever the
  other keys do, because no command lets one string influence another.  For keys with an expiry
  replay restarts the remaining time (\<open>replay_revives_expired\<close>; \<open>snapshot_restores\<close> states what a
  rewrite does to them).  The replaying store has no memory ceiling, or \<open>K\<close> is everything, it has the
  ceiling of the running one, and nothing is rewritten (\<open>rewrite_loses_elements_at_ceiling\<close> shows why).
  The process may end between two steps and be started again on the whole file any number of times
  (\<open>life_step\<close>); that it may also die inside an append, or lose bytes that were not synced, is stated for its
  last end (\<open>restarts_keep_data\<close>), since what is logged behind a torn record is lost
  (\<open>torn_record_swallows_next\<close>, \<open>torn_length_ends_replay\<close>).  \<open>NewAOF\<close> takes what it finds in the file for synced.

  \<^bold>\<open>Not modelled.\<close>  Listening, accepting, TLS, signals and logging; the waiting of the tickers (their
  ticks are operations); the recovery of a panicking background rewrite, which has nothing to panic;
  the HTTP plumbing and the style sheet of the dashboard; the goroutine's stack and the memory, which a deeply nested
  or long input below \<open>maxAlloc\<close> can exhaust.  How a browser prints numbers and times is an
  argument (\<open>js\<close>), of which the theorems use that it needs no escaping; its HTML parser is
  represented by the part that the script's markup reaches (\<open>html_tokens\<close>).
  Failing to open the log or to bind ends the process at once.  Clock readings are after 1970,
  durations fit in 64 bits; the length of the slow log, a constant of the source, is a natural
  number; the counters of subscriptions do not wrap.  Upper-casing is exact on ASCII and on the two
  letters that Go maps into ASCII; other letters, which only unknown commands have, stay as they are.
\<close>

end
